(* ===== verification/Prelude.thy ===== *)
theory Prelude
  imports Main "HOL-Library.Word"
begin

unbundle bit_operations_syntax

text \<open>
  The shared vocabulary of the development: machine integers at the widths the C sources
  use, byte buffers with the two memory operations the sources perform on them (reading a
  run of bytes, overwriting a run of bytes), and the generic facts on lists and words that
  the component theories rely on.  Nothing here models a particular source file.
\<close>

type_synonym u8 = "8 word"
type_synonym u16 = "16 word"
type_synonym u32 = "32 word"
type_synonym u64 = "64 word"
type_synonym bytes = "u8 list"

text \<open>
  \<open>buffer_simps\<close> collects the laws of buffer reads and writes, \<open>word_conv\<close> the laws that
  turn word arithmetic into arithmetic of natural numbers.
\<close>

named_theorems buffer_simps
named_theorems word_conv

section \<open>Byte buffers\<close>

definition read_at :: "'a list \<Rightarrow> nat \<Rightarrow> nat \<Rightarrow> 'a list" where
  "read_at buf off len = take len (drop off buf)"

definition write_at :: "'a list \<Rightarrow> nat \<Rightarrow> 'a list \<Rightarrow> 'a list" where
  "write_at buf off src = take off buf @ src @ drop (off + length src) buf"

lemma length_write_at [simp, buffer_simps]:
  "off + length src \<le> length buf \<Longrightarrow> length (write_at buf off src) = length buf"
  by (simp add: write_at_def)

lemma length_read_at [simp, buffer_simps]:
  "off + len \<le> length buf \<Longrightarrow> length (read_at buf off len) = len"
  by (simp add: read_at_def)

lemma read_at_0 [simp]: "read_at buf off 0 = []"
  by (simp add: read_at_def)

lemma write_at_Nil [simp]: "write_at buf off [] = buf"
  by (simp add: write_at_def)

lemma read_write_same [buffer_simps]:
  "off + length src \<le> length buf \<Longrightarrow> len = length src \<Longrightarrow>
    read_at (write_at buf off src) off len = src"
  by (simp add: read_at_def write_at_def)

lemma read_write_before [buffer_simps]:
  "off2 + len \<le> off \<Longrightarrow> off + length src \<le> length buf \<Longrightarrow>
    read_at (write_at buf off src) off2 len = read_at buf off2 len"
  by (auto simp: read_at_def write_at_def drop_take min_def)

lemma read_write_after [buffer_simps]:
  "off + length src \<le> off2 \<Longrightarrow> off + length src \<le> length buf \<Longrightarrow>
    read_at (write_at buf off src) off2 len = read_at buf off2 len"
  by (simp add: read_at_def write_at_def)

lemma read_at_append:
  "read_at buf off (m + n) = read_at buf off m @ read_at buf (off + m) n"
  by (simp add: read_at_def take_add add.commute)

lemma read_at_skip [buffer_simps]:
  "length xs \<le> off \<Longrightarrow> read_at (xs @ ys) off len = read_at ys (off - length xs) len"
  by (simp add: read_at_def)

lemma read_at_skip_Cons [buffer_simps]:
  "read_at (x # xs) (numeral k) len = read_at xs (pred_numeral k) len"
  by (simp add: read_at_def numeral_eq_Suc)

lemma read_at_skip_Suc [buffer_simps]: "read_at (x # xs) (Suc n) len = read_at xs n len"
  by (simp add: read_at_def)

lemma read_at_here [buffer_simps]: "len = length xs \<Longrightarrow> read_at (xs @ ys) 0 len = xs"
  by (simp add: read_at_def)

lemma read_at_all [buffer_simps]: "len = length xs \<Longrightarrow> read_at xs 0 len = xs"
  by (simp add: read_at_def)

lemma read_at_add: "read_at buf off (i + j) = read_at buf off i @ read_at buf (off + i) j"
  unfolding read_at_def take_add drop_drop by (simp add: add.commute)

lemma nth_write_at:
  "off + length src \<le> length buf \<Longrightarrow> i < length buf \<Longrightarrow>
    write_at buf off src ! i =
      (if i < off then buf ! i else if i < off + length src then src ! (i - off) else buf ! i)"
  by (auto simp: write_at_def nth_append min_def)

lemma length_2_conv: "length xs = 2 \<longleftrightarrow> (\<exists>a b. xs = [a, b])"
  by (auto simp: length_Suc_conv eval_nat_numeral)

lemma length_4_conv: "length xs = 4 \<longleftrightarrow> (\<exists>a b c d. xs = [a, b, c, d])"
  by (auto simp: length_Suc_conv eval_nat_numeral)

lemma length_ge_4D: "4 \<le> length xs \<Longrightarrow> \<exists>a b c d r. xs = a # b # c # d # r"
  by (auto simp: Suc_le_length_iff eval_nat_numeral)

section \<open>Words\<close>

lemma unat_u8_less [simp]: "unat (x :: u8) < 256"
  using unsigned_less [of x, where ?'a = nat] by simp

lemma unat_u16_less [simp]: "unat (x :: u16) < 65536"
  using unsigned_less [of x, where ?'a = nat] by simp

lemma unat_u32_less [simp]: "unat (x :: u32) < 4294967296"
  using unsigned_less [of x, where ?'a = nat] by simp

lemma unat_u64_less [simp]: "unat (x :: u64) < 18446744073709551616"
  using unsigned_less [of x, where ?'a = nat] by simp

lemma unat_of_nat_small: "n < 2 ^ LENGTH('w) \<Longrightarrow> unat (of_nat n :: 'w::len word) = n"
  by (simp add: unsigned_of_nat take_bit_nat_eq_self)

lemma bit_u8_less [dest]: "bit (a :: u8) n \<Longrightarrow> n < 8"
  using bit_imp_le_length [of a n] by simp

lemma unat_ucast_u8_u16 [word_conv]: "unat (ucast (a :: u8) :: u16) = unat a"
  using unat_u8_less [of a] by (simp add: unsigned_ucast_eq take_bit_eq_mod del: unat_u8_less)

lemma unat_ucast_u8_u32 [word_conv]: "unat (ucast (a :: u8) :: u32) = unat a"
  using unat_u8_less [of a] by (simp add: unsigned_ucast_eq take_bit_eq_mod del: unat_u8_less)

lemma unat_ucast_u16_u32 [word_conv]: "unat (ucast (a :: u16) :: u32) = unat a"
  using unat_u16_less [of a] by (simp add: unsigned_ucast_eq take_bit_eq_mod del: unat_u16_less)

lemma unat_ucast_u16_u8 [word_conv]: "unat (ucast (x :: u16) :: u8) = unat x mod 256"
  by (simp add: unsigned_ucast_eq take_bit_eq_mod)

lemma unat_ucast_u32_u8 [word_conv]: "unat (ucast (x :: u32) :: u8) = unat x mod 256"
  by (simp add: unsigned_ucast_eq take_bit_eq_mod)

lemma unat_ucast_u32_u16 [word_conv]: "unat (ucast (x :: u32) :: u16) = unat x mod 65536"
  by (simp add: unsigned_ucast_eq take_bit_eq_mod)

lemma unat_drop_bit_u16 [word_conv]: "unat (drop_bit n (x :: u16)) = unat x div 2 ^ n"
  by (simp add: unat_drop_bit_eq drop_bit_eq_div [where 'a = nat] del: drop_bit_eq_div)

lemma unat_drop_bit_u32 [word_conv]: "unat (drop_bit n (x :: u32)) = unat x div 2 ^ n"
  by (simp add: unat_drop_bit_eq drop_bit_eq_div [where 'a = nat] del: drop_bit_eq_div)

text \<open>Two bytes, or four, glued together with shifts and OR are a sum in base 256.\<close>

lemma unat_two_bytes [word_conv]:
  "unat (ucast (a :: u8) OR push_bit 8 (ucast (b :: u8)) :: u16) = unat a + 256 * unat b"
proof -
  have "ucast a AND push_bit 8 (ucast b) = (0 :: u16)"
    by (rule bit_word_eqI) (auto simp: bit_simps)
  then have "ucast a OR push_bit 8 (ucast b) = (ucast a + 256 * ucast b :: u16)"
    by (simp add: push_bit_eq_mult flip: disjunctive_add_eq_or)
  moreover have "unat a + 256 * unat b < 65536"
    using unat_u8_less [of a] unat_u8_less [of b] by linarith
  ultimately show ?thesis
    by (simp add: unat_word_ariths word_conv)
qed

lemma unat_four_bytes [word_conv]:
  "unat (ucast (a :: u8) OR push_bit 8 (ucast (b :: u8)) OR push_bit 16 (ucast (c :: u8)) OR
     push_bit 24 (ucast (d :: u8)) :: u32) =
    unat a + 256 * unat b + 65536 * unat c + 16777216 * unat d"
proof -
  have 1: "ucast a AND push_bit 8 (ucast b) = (0 :: u32)"
    by (rule bit_word_eqI) (auto simp: bit_simps)
  have 2: "(ucast a OR push_bit 8 (ucast b)) AND push_bit 16 (ucast c) = (0 :: u32)"
    by (rule bit_word_eqI) (auto simp: bit_simps)
  have 3: "(ucast a OR push_bit 8 (ucast b) OR push_bit 16 (ucast c)) AND push_bit 24 (ucast d)
      = (0 :: u32)"
    by (rule bit_word_eqI) (auto simp: bit_simps)
  have "ucast a OR push_bit 8 (ucast b) OR push_bit 16 (ucast c) OR push_bit 24 (ucast d) =
      (ucast a + push_bit 8 (ucast b) + push_bit 16 (ucast c) + push_bit 24 (ucast d) :: u32)"
    using 1 2 3 by (simp only: disjunctive_add_eq_or or.assoc)
  moreover have "unat a + 256 * unat b + 65536 * unat c + 16777216 * unat d < 4294967296"
    using unat_u8_less [of a] unat_u8_less [of b] unat_u8_less [of c] unat_u8_less [of d] by linarith
  ultimately show ?thesis
    by (simp add: unat_word_ariths word_conv push_bit_eq_mult mult.commute)
qed

end
