(* ===== verification/Byte_Order.thy ===== *)
theory Byte_Order
  imports Prelude
begin

unbundle bit_operations_syntax

text \<open>
  Model of misc/byteorder.h and misc/read_write_int.h.

  Host memory.  Android.mk compiles with BADVPN_LITTLE_ENDIAN, so the bytes of a 16-bit
  object are its low byte and then its high byte; \<open>mem16\<close> and \<open>mem32\<close> are that
  representation, \<open>host16\<close> and \<open>host32\<close> the value of a run of bytes.  The C functions of
  byteorder.h reverse the bytes of an object in memory; the functions of read_write_int.h
  read and write integers through a pointer to bytes with shifts.
\<close>

section \<open>Host memory representation\<close>

definition mem16 :: "u16 \<Rightarrow> bytes" where
  "mem16 x = [ucast x, ucast (drop_bit 8 x)]"

definition host16 :: "bytes \<Rightarrow> u16" where
  "host16 p = ucast (p ! 0) OR push_bit 8 (ucast (p ! 1))"

definition mem32 :: "u32 \<Rightarrow> bytes" where
  "mem32 x = [ucast x, ucast (drop_bit 8 x), ucast (drop_bit 16 x), ucast (drop_bit 24 x)]"

definition host32 :: "bytes \<Rightarrow> u32" where
  "host32 p = ucast (p ! 0) OR push_bit 8 (ucast (p ! 1)) OR
     push_bit 16 (ucast (p ! 2)) OR push_bit 24 (ucast (p ! 3))"

section \<open>misc/byteorder.h\<close>

definition badvpn_reverse16 :: "u16 \<Rightarrow> u16" where
  "badvpn_reverse16 x = host16 [mem16 x ! 1, mem16 x ! 0]"

definition badvpn_reverse32 :: "u32 \<Rightarrow> u32" where
  "badvpn_reverse32 x = host32 [mem32 x ! 3, mem32 x ! 2, mem32 x ! 1, mem32 x ! 0]"

definition hton8 :: "u8 \<Rightarrow> u8" where "hton8 x = x"
definition htol8 :: "u8 \<Rightarrow> u8" where "htol8 x = x"
definition hton16 :: "u16 \<Rightarrow> u16" where "hton16 x = badvpn_reverse16 x"
definition hton32 :: "u32 \<Rightarrow> u32" where "hton32 x = badvpn_reverse32 x"
definition htol16 :: "u16 \<Rightarrow> u16" where "htol16 x = x"
definition htol32 :: "u32 \<Rightarrow> u32" where "htol32 x = x"
definition ntoh8 :: "u8 \<Rightarrow> u8" where "ntoh8 x = hton8 x"
definition ntoh16 :: "u16 \<Rightarrow> u16" where "ntoh16 x = hton16 x"
definition ntoh32 :: "u32 \<Rightarrow> u32" where "ntoh32 x = hton32 x"
definition ltoh8 :: "u8 \<Rightarrow> u8" where "ltoh8 x = htol8 x"
definition ltoh16 :: "u16 \<Rightarrow> u16" where "ltoh16 x = htol16 x"
definition ltoh32 :: "u32 \<Rightarrow> u32" where "ltoh32 x = htol32 x"

section \<open>misc/read_write_int.h\<close>

definition badvpn_read_le16 :: "bytes \<Rightarrow> u16" where
  "badvpn_read_le16 p = push_bit 8 (ucast (p ! 1)) OR push_bit 0 (ucast (p ! 0))"

definition badvpn_read_le32 :: "bytes \<Rightarrow> u32" where
  "badvpn_read_le32 p = push_bit 24 (ucast (p ! 3)) OR push_bit 16 (ucast (p ! 2)) OR
     push_bit 8 (ucast (p ! 1)) OR push_bit 0 (ucast (p ! 0))"

definition badvpn_read_be16 :: "bytes \<Rightarrow> u16" where
  "badvpn_read_be16 p = push_bit 8 (ucast (p ! 0)) OR push_bit 0 (ucast (p ! 1))"

definition badvpn_read_be32 :: "bytes \<Rightarrow> u32" where
  "badvpn_read_be32 p = push_bit 24 (ucast (p ! 0)) OR push_bit 16 (ucast (p ! 1)) OR
     push_bit 8 (ucast (p ! 2)) OR push_bit 0 (ucast (p ! 3))"

definition badvpn_write_le16 :: "u16 \<Rightarrow> bytes \<Rightarrow> bytes" where
  "badvpn_write_le16 x p = p[1 := ucast (drop_bit 8 x), 0 := ucast (drop_bit 0 x)]"

definition badvpn_write_le32 :: "u32 \<Rightarrow> bytes \<Rightarrow> bytes" where
  "badvpn_write_le32 x p = p[3 := ucast (drop_bit 24 x), 2 := ucast (drop_bit 16 x),
     1 := ucast (drop_bit 8 x), 0 := ucast (drop_bit 0 x)]"

definition badvpn_write_be16 :: "u16 \<Rightarrow> bytes \<Rightarrow> bytes" where
  "badvpn_write_be16 x p = p[0 := ucast (drop_bit 8 x), 1 := ucast (drop_bit 0 x)]"

definition badvpn_write_be32 :: "u32 \<Rightarrow> bytes \<Rightarrow> bytes" where
  "badvpn_write_be32 x p = p[0 := ucast (drop_bit 24 x), 1 := ucast (drop_bit 16 x),
     2 := ucast (drop_bit 8 x), 3 := ucast (drop_bit 0 x)]"

section \<open>Laws\<close>

lemmas host_order_defs =
  hton8_def htol8_def hton16_def hton32_def htol16_def htol32_def
  ntoh8_def ntoh16_def ntoh32_def ltoh8_def ltoh16_def ltoh32_def

lemma length_mem16 [simp]: "length (mem16 x) = 2"
  by (simp add: mem16_def)

lemma length_mem32 [simp]: "length (mem32 x) = 4"
  by (simp add: mem32_def)

lemma unat_host16 [word_conv]: "unat (host16 (a # b # r)) = unat a + 256 * unat b"
  by (simp add: host16_def word_conv)

lemma unat_host32 [word_conv]:
  "unat (host32 (a # b # c # d # r)) =
    unat a + 256 * unat b + 65536 * unat c + 16777216 * unat d"
  by (simp add: host32_def word_conv)

lemma unat_read_be16 [word_conv]:
  "unat (badvpn_read_be16 (a # b # r)) = 256 * unat a + unat b"
  by (simp add: badvpn_read_be16_def or.commute word_conv)

lemma unat_read_be32 [word_conv]:
  "unat (badvpn_read_be32 (a # b # c # d # r)) =
    16777216 * unat a + 65536 * unat b + 256 * unat c + unat d"
  using unat_four_bytes [of d c b a] by (simp add: badvpn_read_be32_def ac_simps)

lemma unat_read_le16 [word_conv]:
  "unat (badvpn_read_le16 (a # b # r)) = unat a + 256 * unat b"
  by (simp add: badvpn_read_le16_def or.commute word_conv)

lemma unat_read_le32 [word_conv]:
  "unat (badvpn_read_le32 (a # b # c # d # r)) =
    unat a + 256 * unat b + 65536 * unat c + 16777216 * unat d"
  using unat_four_bytes [of a b c d] by (simp add: badvpn_read_le32_def ac_simps)

lemma base256_2: "(n::nat) < 65536 \<Longrightarrow> n mod 256 + 256 * (n div 256 mod 256) = n"
  using mod_mult_div_eq [of n 256] by (simp add: less_mult_imp_div_less)

lemma base256_4:
  assumes "(n::nat) < 4294967296"
  shows "n mod 256 + 256 * (n div 256 mod 256) + 65536 * (n div 65536 mod 256) +
    16777216 * (n div 16777216) = n"
proof -
  have e: "n div 65536 = n div 256 div 256" "n div 16777216 = n div 256 div 256 div 256"
    by (simp_all flip: div_mult2_eq)
  have "n mod 256 + 256 * (n div 256) = n"
    "n div 256 mod 256 + 256 * (n div 256 div 256) = n div 256"
    "n div 256 div 256 mod 256 + 256 * (n div 256 div 256 div 256) = n div 256 div 256"
    by (rule mod_mult_div_eq)+
  then show ?thesis
    unfolding e by linarith
qed

lemma base256_top [simp]: "unat (x :: u32) div 16777216 mod 256 = unat x div 16777216"
  using unat_u32_less [of x] by (simp add: less_mult_imp_div_less del: unat_u32_less)

lemma host16_mem16 [simp]: "host16 (mem16 x) = x"
  by (simp add: mem16_def word_unat_eq_iff word_conv base256_2)

lemma host32_mem32 [simp]: "host32 (mem32 x) = x"
  using base256_4 [OF unat_u32_less [of x]] by (simp add: mem32_def word_unat_eq_iff word_conv)

lemma mem16_host16: "length p = 2 \<Longrightarrow> mem16 (host16 p) = p"
  by (auto simp: mem16_def word_unat_eq_iff word_conv length_2_conv)

lemma digits256_2: "a < 256 \<Longrightarrow> ((a::nat) + 256 * q) mod 256 = a \<and> (a + 256 * q) div 256 = q"
  by simp

lemma mem32_host32:
  assumes "length p = 4"
  shows "mem32 (host32 p) = p"
proof -
  obtain a b c d where p: "p = [a, b, c, d]"
    using assms by (auto simp: length_4_conv)
  define n where "n = unat a + 256 * unat b + 65536 * unat c + 16777216 * unat d"
  have n: "n = unat a + 256 * (unat b + 256 * (unat c + 256 * unat d))"
    by (simp add: n_def)
  have "n mod 256 = unat a" "n div 256 = unat b + 256 * (unat c + 256 * unat d)"
    unfolding n by (rule digits256_2 [THEN conjunct1] digits256_2 [THEN conjunct2], simp)+
  moreover from this have "n div 65536 = unat c + 256 * unat d"
    using div_mult2_eq [of n 256 256] digits256_2 [OF unat_u8_less, of b "unat c + 256 * unat d"]
    by simp
  moreover from this have "n div 16777216 = unat d"
    using div_mult2_eq [of n 65536 256] by simp
  ultimately show ?thesis
    using digits256_2 [OF unat_u8_less, of b "unat c + 256 * unat d"]
    by (simp add: p mem32_def word_unat_eq_iff word_conv flip: n_def)
qed

lemma mem16_eq_iff [simp]: "mem16 x = mem16 y \<longleftrightarrow> x = y"
  by (metis host16_mem16)

lemma mem32_eq_iff [simp]: "mem32 x = mem32 y \<longleftrightarrow> x = y"
  by (metis host32_mem32)

text \<open>A value in network order is laid out in memory with its high byte first.\<close>

lemma mem16_hton16: "mem16 (hton16 x) = [ucast (drop_bit 8 x), ucast x]"
  unfolding hton16_def badvpn_reverse16_def by (subst mem16_host16) (auto simp: mem16_def)

lemma mem32_hton32: "mem32 (hton32 x) = rev (mem32 x)"
  unfolding hton32_def badvpn_reverse32_def by (subst mem32_host32) (auto simp: mem32_def)

lemma ntoh16_host16 [word_conv]: "unat (ntoh16 (host16 (a # b # r))) = 256 * unat a + unat b"
  by (simp add: ntoh16_def hton16_def badvpn_reverse16_def mem16_def word_conv)

lemma ntoh16_hton16 [simp]: "ntoh16 (hton16 x) = x"
proof -
  have "hton16 x = host16 (mem16 (hton16 x))"
    by simp
  also have "mem16 (hton16 x) = [ucast (drop_bit 8 x), ucast x]"
    by (rule mem16_hton16)
  finally have "unat (ntoh16 (hton16 x)) = unat x mod 256 + 256 * (unat x div 256 mod 256)"
    by (simp add: word_conv)
  then show ?thesis by (simp add: word_unat_eq_iff base256_2)
qed

lemma hton16_ntoh16 [simp]: "hton16 (ntoh16 x) = x"
  using ntoh16_hton16 [of x] by (simp add: ntoh16_def)

lemma hton16_eq_iff [simp]: "hton16 x = hton16 y \<longleftrightarrow> x = y"
  by (metis ntoh16_hton16)

lemma read_be16_mem16 [simp]: "badvpn_read_be16 (mem16 (hton16 x)) = x"
  by (simp add: mem16_hton16 word_unat_eq_iff word_conv) (use base256_2 [of "unat x"] in simp)

text \<open> what badvpn_write_be16/be32/le16/le32 stores is what the matching read returns.\<close>

lemma read_write_int_roundtrip:
  assumes "4 \<le> length p"
  shows "badvpn_read_be16 (badvpn_write_be16 x p) = x"
    and "badvpn_read_le16 (badvpn_write_le16 x p) = x"
    and "badvpn_read_be32 (badvpn_write_be32 y p) = y"
    and "badvpn_read_le32 (badvpn_write_le32 y p) = y"
proof -
  obtain a b c d r where p: "p = a # b # c # d # r"
    using length_ge_4D [OF assms] by blast
  show "badvpn_read_be16 (badvpn_write_be16 x p) = x" "badvpn_read_le16 (badvpn_write_le16 x p) = x"
    using base256_2 [of "unat x"]
    by (simp_all add: p badvpn_write_be16_def badvpn_write_le16_def word_unat_eq_iff word_conv)
  show "badvpn_read_be32 (badvpn_write_be32 y p) = y" "badvpn_read_le32 (badvpn_write_le32 y p) = y"
    using base256_4 [OF unat_u32_less [of y]]
    by (simp_all add: p badvpn_write_be32_def badvpn_write_le32_def word_unat_eq_iff word_conv)
qed

end
