(* ===== verification/Net_Proto.thy ===== *)
theory Net_Proto
  imports Byte_Order
begin

unbundle bit_operations_syntax

text \<open>
  Model of misc/ipv4_proto.h, misc/ipv6_proto.h and misc/udp_proto.h: the packed headers, the
  Internet checksum as the code computes it (32-bit accumulator, end-around carry loop) and
  the header checks that yield the payload of a packet.

  A packed struct is a record whose multi-byte fields hold the value the field has in host
  memory (so a field in network order is \<open>hton16\<close> of the number it carries); the functions
  \<open>ipv4_header_bytes\<close>, \<open>udp_header_bytes\<close>, \<open>ipv6_header_bytes\<close> give its bytes in memory, and
  the functions ending in \<open>_of\<close> are the memcpy out of a buffer.  A data pointer with its length is a list
  of bytes, and a check returns the header and the payload, or None for the C result 0.
\<close>

section \<open>The IPv4 header and its checksum\<close>

record ipv4_header =
  ip4_version4_ihl4 :: u8
  ip4_ds :: u8
  ip4_total_length :: u16
  ip4_identification :: u16
  ip4_flags3_fragmentoffset13 :: u16
  ip4_ttl :: u8
  ip4_protocol :: u8
  ip4_checksum :: u16
  ip4_source_address :: u32
  ip4_destination_address :: u32

abbreviation sizeof_ipv4_header :: nat where "sizeof_ipv4_header \<equiv> 20"

definition ipv4_header_bytes :: "ipv4_header \<Rightarrow> bytes" where
  "ipv4_header_bytes h =
     [ip4_version4_ihl4 h, ip4_ds h] @ mem16 (ip4_total_length h) @
     mem16 (ip4_identification h) @ mem16 (ip4_flags3_fragmentoffset13 h) @
     [ip4_ttl h, ip4_protocol h] @ mem16 (ip4_checksum h) @
     mem32 (ip4_source_address h) @ mem32 (ip4_destination_address h)"

definition ipv4_header_of :: "bytes \<Rightarrow> ipv4_header" where
  "ipv4_header_of p =
     \<lparr>ip4_version4_ihl4 = p ! 0, ip4_ds = p ! 1, ip4_total_length = host16 (read_at p 2 2),
      ip4_identification = host16 (read_at p 4 2),
      ip4_flags3_fragmentoffset13 = host16 (read_at p 6 2),
      ip4_ttl = p ! 8, ip4_protocol = p ! 9, ip4_checksum = host16 (read_at p 10 2),
      ip4_source_address = host32 (read_at p 12 4),
      ip4_destination_address = host32 (read_at p 16 4)\<rparr>"

definition IPV4_PROTOCOL_UDP :: u8 where "IPV4_PROTOCOL_UDP = 17"

definition IPV4_GET_VERSION :: "ipv4_header \<Rightarrow> u8" where
  "IPV4_GET_VERSION h = drop_bit 4 (ip4_version4_ihl4 h AND 0xF0)"

definition IPV4_GET_IHL :: "ipv4_header \<Rightarrow> u8" where
  "IPV4_GET_IHL h = drop_bit 0 (ip4_version4_ihl4 h AND 0x0F)"

definition IPV4_MAKE_VERSION_IHL :: "nat \<Rightarrow> u8" where
  "IPV4_MAKE_VERSION_IHL sz = word_of_nat (sz div 4 + 4 * 16)"

text \<open>The summation loops: \<open>n\<close> big-endian 16-bit words from the start of \<open>p\<close> are added to \<open>t\<close>.\<close>

fun add_be16_words :: "nat \<Rightarrow> bytes \<Rightarrow> u32 \<Rightarrow> u32" where
  "add_be16_words 0 p t = t"
| "add_be16_words (Suc n) p t = add_be16_words n (drop 2 p) (t + ucast (badvpn_read_be16 p))"

text \<open>The loop \<^verbatim>\<open>while (t >> 16) t = (t & 0xFFFF) + (t >> 16)\<close>.\<close>

function fold_carries :: "u32 \<Rightarrow> u32" where
  "fold_carries t = (if drop_bit 16 t \<noteq> 0 then fold_carries ((t AND 0xFFFF) + drop_bit 16 t) else t)"
  by pat_completeness auto

lemma unat_and_ffff: "unat (t AND 0xFFFF :: u32) = unat t mod 65536"
proof -
  have "t AND 0xFFFF = take_bit 16 t"
    by (simp add: take_bit_eq_mask mask_eq_exp_minus_1)
  then show ?thesis
    by (simp add: take_bit_eq_mod unat_mod_distrib)
qed

lemma unat_carry_step:
  "unat ((t AND 0xFFFF) + drop_bit 16 t :: u32) = unat t mod 65536 + unat t div 65536"
proof -
  have "unat t div 65536 < 65536"
    using unat_u32_less [of t] by (simp add: less_mult_imp_div_less del: unat_u32_less)
  then have "unat t mod 65536 + unat t div 65536 < 4294967296"
    using mod_less_divisor [of 65536 "unat t"] by linarith
  then show ?thesis
    by (simp add: unat_word_ariths unat_and_ffff word_conv)
qed

lemma no_carry_iff: "drop_bit 16 t = 0 \<longleftrightarrow> unat (t :: u32) < 65536"
  by (simp add: word_unat_eq_iff word_conv div_eq_0_iff)

termination fold_carries
proof (relation "measure unat")
  fix t :: u32
  assume "drop_bit 16 t \<noteq> 0"
  then have "0 < unat t div 65536"
    by (simp add: no_carry_iff div_greater_zero_iff)
  then have "unat t mod 65536 + unat t div 65536 < unat t"
    using mod_mult_div_eq [of "unat t" 65536] by linarith
  then show "((t AND 0xFFFF) + drop_bit 16 t, t) \<in> measure unat"
    by (simp only: in_measure unat_carry_step)
qed simp

declare fold_carries.simps [simp del]

definition ipv4_checksum :: "ipv4_header \<Rightarrow> bytes \<Rightarrow> u16 \<Rightarrow> u16" where
  "ipv4_checksum header extra extra_len =
     (let t = add_be16_words (sizeof_ipv4_header div 2) (ipv4_header_bytes header) 0;
          t = add_be16_words (unat extra_len div 2) extra t;
          t = fold_carries t
      in hton16 (ucast (NOT t)))"

definition ipv4_check :: "bytes \<Rightarrow> (ipv4_header \<times> bytes) option" where
  "ipv4_check data =
     (if length data < sizeof_ipv4_header then None
      else let out_header = ipv4_header_of data in
      if IPV4_GET_VERSION out_header \<noteq> 4 then None
      else let header_len = (ucast (IPV4_GET_IHL out_header) * 4 :: u16) in
      if unat header_len < sizeof_ipv4_header then None
      else if length data < unat header_len then None
      else let total_length = ntoh16 (ip4_total_length out_header) in
      if total_length < header_len then None
      else if length data < unat total_length then None
      else let checksum_in_packet = ip4_checksum out_header;
               checksum_computed =
                 ipv4_checksum (out_header\<lparr>ip4_checksum := hton16 0\<rparr>)
                   (drop sizeof_ipv4_header data) (header_len - 20) in
      if checksum_in_packet \<noteq> checksum_computed then None
      else Some (out_header, read_at data (unat header_len) (unat (total_length - header_len))))"

section \<open>The IPv6 header\<close>

record ipv6_header =
  ip6_version4_tc4 :: u8
  ip6_tc4_fl4 :: u8
  ip6_fl :: u16
  ip6_payload_length :: u16
  ip6_next_header :: u8
  ip6_hop_limit :: u8
  ip6_source_address :: bytes
  ip6_destination_address :: bytes

abbreviation sizeof_ipv6_header :: nat where "sizeof_ipv6_header \<equiv> 40"

definition IPV6_NEXT_UDP :: u8 where "IPV6_NEXT_UDP = 17"

definition ipv6_header_bytes :: "ipv6_header \<Rightarrow> bytes" where
  "ipv6_header_bytes h =
     [ip6_version4_tc4 h, ip6_tc4_fl4 h] @ mem16 (ip6_fl h) @ mem16 (ip6_payload_length h) @
     [ip6_next_header h, ip6_hop_limit h] @ ip6_source_address h @ ip6_destination_address h"

definition ipv6_header_of :: "bytes \<Rightarrow> ipv6_header" where
  "ipv6_header_of p =
     \<lparr>ip6_version4_tc4 = p ! 0, ip6_tc4_fl4 = p ! 1, ip6_fl = host16 (read_at p 2 2),
      ip6_payload_length = host16 (read_at p 4 2), ip6_next_header = p ! 6,
      ip6_hop_limit = p ! 7, ip6_source_address = read_at p 8 16,
      ip6_destination_address = read_at p 24 16\<rparr>"

definition ipv6_check :: "bytes \<Rightarrow> (ipv6_header \<times> bytes) option" where
  "ipv6_check data =
     (if length data < sizeof_ipv6_header then None
      else let out_header = ipv6_header_of data in
      if drop_bit 4 (ntoh8 (ip6_version4_tc4 out_header)) \<noteq> 6 then None
      else let payload_length = ntoh16 (ip6_payload_length out_header) in
      if length data - sizeof_ipv6_header < unat payload_length then None
      else Some (out_header, read_at data sizeof_ipv6_header (unat payload_length)))"

section \<open>The UDP header and its checksum\<close>

record udp_header =
  udp_source_port :: u16
  udp_dest_port :: u16
  udp_length :: u16
  udp_cksum :: u16

abbreviation sizeof_udp_header :: nat where "sizeof_udp_header \<equiv> 8"

definition udp_header_bytes :: "udp_header \<Rightarrow> bytes" where
  "udp_header_bytes h =
     mem16 (udp_source_port h) @ mem16 (udp_dest_port h) @ mem16 (udp_length h) @
     mem16 (udp_cksum h)"

definition udp_header_of :: "bytes \<Rightarrow> udp_header" where
  "udp_header_of p =
     \<lparr>udp_source_port = host16 (read_at p 0 2), udp_dest_port = host16 (read_at p 2 2),
      udp_length = host16 (read_at p 4 2), udp_cksum = host16 (read_at p 6 2)\<rparr>"

definition udp_checksum_summer :: "bytes \<Rightarrow> nat \<Rightarrow> u32" where
  "udp_checksum_summer data len = add_be16_words (len div 2) data 0"

text \<open>
  Both checksum functions end with the same tail: payload (the odd last byte padded with a zero
  byte), end-around carries, and the replacement of a zero sum.
\<close>

definition udp_sum_payload :: "bytes \<Rightarrow> u16 \<Rightarrow> u32" where
  "udp_sum_payload payload payload_len =
     (if unat payload_len mod 2 = 0 then udp_checksum_summer payload (unat payload_len)
      else udp_checksum_summer payload (unat payload_len - 1) +
           udp_checksum_summer
             (mem16 (hton16 (push_bit 8 (ucast (payload ! (unat payload_len - 1)))))) 2)"

definition udp_finish_sum :: "u32 \<Rightarrow> u16" where
  "udp_finish_sum t =
     (let t = fold_carries t;
          t = (if t = 0 then 0xFFFF else t)
      in hton16 (ucast (NOT t)))"

definition udp_checksum :: "udp_header \<Rightarrow> bytes \<Rightarrow> u16 \<Rightarrow> u32 \<Rightarrow> u32 \<Rightarrow> u16" where
  "udp_checksum header payload payload_len source_addr dest_addr =
     udp_finish_sum
       (udp_checksum_summer (mem32 source_addr) 4 + udp_checksum_summer (mem32 dest_addr) 4 +
        udp_checksum_summer (mem16 (hton16 (ucast IPV4_PROTOCOL_UDP))) 2 +
        udp_checksum_summer (mem16 (hton16 (8 + payload_len))) 2 +
        udp_checksum_summer (udp_header_bytes header) sizeof_udp_header +
        udp_sum_payload payload payload_len)"

definition udp_ip6_checksum :: "udp_header \<Rightarrow> bytes \<Rightarrow> u16 \<Rightarrow> bytes \<Rightarrow> bytes \<Rightarrow> u16" where
  "udp_ip6_checksum header payload payload_len source_addr dest_addr =
     udp_finish_sum
       (udp_checksum_summer source_addr 16 + udp_checksum_summer dest_addr 16 +
        udp_checksum_summer (mem32 (hton32 (8 + ucast payload_len))) 4 +
        udp_checksum_summer (mem32 (hton32 (ucast IPV6_NEXT_UDP))) 4 +
        udp_checksum_summer (udp_header_bytes header) sizeof_udp_header +
        udp_sum_payload payload payload_len)"

definition udp_check :: "bytes \<Rightarrow> (udp_header \<times> bytes) option" where
  "udp_check data =
     (if length data < sizeof_udp_header then None
      else let out_header = udp_header_of data;
               data' = drop sizeof_udp_header data;
               len = unat (ntoh16 (udp_length out_header)) in
      if len < sizeof_udp_header then None
      else if sizeof_udp_header + length data' < len then None
      else Some (out_header, take (len - sizeof_udp_header) data'))"

section \<open>The checksum as a sum in the natural numbers\<close>

fun be16_sum :: "nat \<Rightarrow> bytes \<Rightarrow> nat" where
  "be16_sum 0 p = 0"
| "be16_sum (Suc n) p = unat (badvpn_read_be16 p) + be16_sum n (drop 2 p)"

definition ones_sum :: "nat \<Rightarrow> nat" where
  "ones_sum s = (if s = 0 then 0 else Suc ((s - 1) mod 65535))"

lemma be16_sum_le: "be16_sum n p \<le> n * 65535"
proof (induction n arbitrary: p)
  case (Suc n)
  have "unat (badvpn_read_be16 p) \<le> 65535"
    using unat_u16_less [of "badvpn_read_be16 p"] by linarith
  with Suc [of "drop 2 p"] show ?case by simp
qed simp

lemma unat_add_be16_words:
  "unat t + n * 65535 < 4294967296 \<Longrightarrow> unat (add_be16_words n p t) = unat t + be16_sum n p"
proof (induction n arbitrary: p t)
  case (Suc n)
  have "unat (badvpn_read_be16 p) \<le> 65535"
    using unat_u16_less [of "badvpn_read_be16 p"] by linarith
  with Suc.prems have *: "unat (t + ucast (badvpn_read_be16 p)) = unat t + unat (badvpn_read_be16 p)"
    by (simp add: unat_word_ariths word_conv)
  with Suc.IH [of "t + ucast (badvpn_read_be16 p)" "drop 2 p"] Suc.prems
    \<open>unat (badvpn_read_be16 p) \<le> 65535\<close> show ?case
    by simp
qed simp

lemma unat_fold_carries: "unat (fold_carries t) = ones_sum (unat t)"
proof (induction t rule: fold_carries.induct)
  case (1 t)
  show ?case
  proof (cases "unat t < 65536")
    case True
    then have "fold_carries t = t"
      by (subst fold_carries.simps) (simp add: no_carry_iff)
    with True show ?thesis
      by (simp add: ones_sum_def)
  next
    case False
    define m where "m = unat t mod 65536 + unat t div 65536"
    have pos: "0 < unat t div 65536"
      using False by (simp add: div_greater_zero_iff)
    have "fold_carries t = fold_carries ((t AND 0xFFFF) + drop_bit 16 t)"
      using False by (subst fold_carries.simps) (simp add: no_carry_iff)
    then have "unat (fold_carries t) = ones_sum m"
      using "1.IH" False by (simp add: no_carry_iff unat_carry_step m_def)
    moreover have "unat t - 1 = m - 1 + 65535 * (unat t div 65536)"
      using mod_mult_div_eq [of "unat t" 65536] pos unfolding m_def by linarith
    then have "(unat t - 1) mod 65535 = (m - 1) mod 65535"
      by (simp only: mod_mult_self2)
    moreover have "m \<noteq> 0" "unat t \<noteq> 0"
      using False pos by (auto simp: m_def)
    ultimately show ?thesis
      by (simp add: ones_sum_def)
  qed
qed

lemma ones_sum_le: "ones_sum s \<le> 65535"
  by (simp add: ones_sum_def Suc_le_eq)

lemma ones_sum_add: "ones_sum (s + (65535 - ones_sum s)) = 65535"
proof (cases "s = 0")
  case False
  have "ones_sum s = Suc ((s - 1) mod 65535)"
    using False by (simp add: ones_sum_def)
  moreover have "(s - 1) mod 65535 + 65535 * ((s - 1) div 65535) = s - 1"
    by (rule mod_mult_div_eq)
  ultimately have "s + (65535 - ones_sum s) = Suc (65534 + 65535 * ((s - 1) div 65535))"
    using False mod_less_divisor [of 65535 "s - 1"] by linarith
  then show ?thesis
    by (simp only: ones_sum_def [of "Suc _"] diff_Suc_1 mod_mult_self2) simp
qed (simp add: ones_sum_def)

lemma unat_not_u16: "unat (ucast (NOT t) :: u16) = 65535 - unat t" if "unat (t :: u32) \<le> 65535"
proof -
  have "unat (- 1 - t) = unat (- 1 :: u32) - unat t"
    by (rule unat_sub) simp
  moreover have "NOT t = - 1 - t"
    by (simp add: not_eq_complement)
  moreover have "unat (- 1 :: u32) = 4294967295"
    by (simp add: unsigned_minus_1_eq_mask mask_eq_exp_minus_1)
  ultimately have "unat (NOT t) = 65535 - unat t + 65535 * 65536"
    using that by simp
  then show ?thesis
    using that by (simp only: word_conv mod_mult_self2 mod_mult_self1) simp
qed

lemma read_be16_mem: "badvpn_read_be16 (mem16 x @ r) = ntoh16 x"
proof -
  have "ntoh16 x = ntoh16 (host16 (mem16 x))" by simp
  then show ?thesis
    by (simp add: mem16_def word_unat_eq_iff word_conv del: host16_mem16)
qed


lemma be16_sum_numeral [simp]:
  "be16_sum (numeral k) p = unat (badvpn_read_be16 p) + be16_sum (pred_numeral k) (drop 2 p)"
  by (simp add: numeral_eq_Suc)

lemma read_be16_mem32:
  "unat (badvpn_read_be16 (mem32 x @ r)) + unat (badvpn_read_be16 (drop 2 (mem32 x @ r))) =
    be16_sum 2 (mem32 x)"
  by (simp add: mem32_def numeral_2_eq_2 word_conv)

lemma drop2_mem16 [simp]: "drop 2 (mem16 x @ r) = r"
  by (simp add: mem16_def)

lemma be16_sum_mem16 [simp]: "be16_sum (Suc n) (mem16 x @ r) = unat (ntoh16 x) + be16_sum n r"
  by (simp add: read_be16_mem)

lemma be16_sum_mem32 [simp]:
  "be16_sum (Suc (Suc n)) (mem32 x @ r) = be16_sum 2 (mem32 x) + be16_sum n r"
  by (simp add: mem32_def numeral_2_eq_2 word_conv)

lemma be16_sum_two [simp]:
  "be16_sum (Suc n) (a # b # r) = 256 * unat a + unat b + be16_sum n r"
  by (simp add: word_conv)

lemma be16_sum_ipv4_header:
  "be16_sum 10 (ipv4_header_bytes h) =
     256 * unat (ip4_version4_ihl4 h) + unat (ip4_ds h) + unat (ntoh16 (ip4_total_length h)) +
     unat (ntoh16 (ip4_identification h)) + unat (ntoh16 (ip4_flags3_fragmentoffset13 h)) +
     256 * unat (ip4_ttl h) + unat (ip4_protocol h) + unat (ntoh16 (ip4_checksum h)) +
     be16_sum 2 (mem32 (ip4_source_address h)) + be16_sum 2 (mem32 (ip4_destination_address h))"
proof -
  have ten: "(10::nat) = Suc (Suc (Suc (Suc (Suc (Suc (Suc (Suc (Suc (Suc 0)))))))))"
    by simp
  show ?thesis
    using be16_sum_mem32 [of 0 "ip4_destination_address h" "[]"]
    unfolding ipv4_header_bytes_def ten by (simp del: be16_sum.simps(2) be16_sum_numeral)
qed

lemma be16_sum_udp_header:
  "be16_sum 4 (udp_header_bytes h) =
     unat (ntoh16 (udp_source_port h)) + unat (ntoh16 (udp_dest_port h)) +
     unat (ntoh16 (udp_length h)) + unat (ntoh16 (udp_cksum h))"
proof -
  have four: "(4::nat) = Suc (Suc (Suc (Suc 0)))"
    by simp
  show ?thesis
    using be16_sum_mem16 [of 0 "udp_cksum h" "[]"]
    unfolding udp_header_bytes_def four by (simp del: be16_sum.simps(2) be16_sum_numeral)
qed

lemma length_ipv4_header_bytes [simp]: "length (ipv4_header_bytes h) = 20"
  by (simp add: ipv4_header_bytes_def)

lemma length_udp_header_bytes [simp]: "length (udp_header_bytes h) = 8"
  by (simp add: udp_header_bytes_def)

lemma length_ipv6_header_bytes [simp]:
  "length (ip6_source_address h) = 16 \<Longrightarrow> length (ip6_destination_address h) = 16 \<Longrightarrow>
    length (ipv6_header_bytes h) = 40"
  by (simp add: ipv6_header_bytes_def)

lemma ipv4_header_of_bytes [simp]: "ipv4_header_of (ipv4_header_bytes h @ r) = h"
  by (simp add: ipv4_header_of_def ipv4_header_bytes_def buffer_simps nth_append)

lemma udp_header_of_bytes [simp]: "udp_header_of (udp_header_bytes h @ r) = h"
  by (simp add: udp_header_of_def udp_header_bytes_def buffer_simps)

lemma ipv6_header_of_bytes [simp]:
  "length (ip6_source_address h) = 16 \<Longrightarrow> length (ip6_destination_address h) = 16 \<Longrightarrow>
    ipv6_header_of (ipv6_header_bytes h @ r) = h"
  by (simp add: ipv6_header_of_def ipv6_header_bytes_def buffer_simps nth_append)

lemma ipv4_checksum_value:
  "unat (ntoh16 (ipv4_checksum h extra n)) =
     65535 - ones_sum (be16_sum 10 (ipv4_header_bytes h) + be16_sum (unat n div 2) extra)"
proof -
  let ?t = "add_be16_words 10 (ipv4_header_bytes h) 0"
  have a: "unat ?t = be16_sum 10 (ipv4_header_bytes h)"
    by (subst unat_add_be16_words) simp_all
  have "unat ?t \<le> 655350"
    using be16_sum_le [of 10 "ipv4_header_bytes h"] unfolding a by simp
  moreover have "unat n div 2 \<le> 32767"
    using unat_u16_less [of n] by linarith
  ultimately have "unat (add_be16_words (unat n div 2) extra ?t) =
      be16_sum 10 (ipv4_header_bytes h) + be16_sum (unat n div 2) extra"
    using unat_add_be16_words [of ?t "unat n div 2" extra] a by linarith
  then show ?thesis
    by (simp add: ipv4_checksum_def Let_def unat_not_u16 unat_fold_carries ones_sum_le)
qed

text \<open>
  C19: the checksum that ipv4_checksum computes makes the header verify: summing the same header
  with the returned value in its checksum field gives a computed checksum of zero (all ones
  before the complement), for every header and every block of options.
\<close>

theorem ipv4_checksum_verifies:
  "ipv4_checksum (h\<lparr>ip4_checksum := ipv4_checksum (h\<lparr>ip4_checksum := hton16 0\<rparr>) extra n\<rparr>) extra n = hton16 0"
proof -
  let ?h0 = "h\<lparr>ip4_checksum := hton16 0\<rparr>"
  let ?s = "be16_sum 10 (ipv4_header_bytes ?h0) + be16_sum (unat n div 2) extra"
  let ?c = "ipv4_checksum ?h0 extra n"
  have c: "unat (ntoh16 ?c) = 65535 - ones_sum ?s"
    by (rule ipv4_checksum_value)
  have "be16_sum 10 (ipv4_header_bytes (h\<lparr>ip4_checksum := ?c\<rparr>)) =
      be16_sum 10 (ipv4_header_bytes ?h0) + unat (ntoh16 ?c)"
    by (simp add: be16_sum_ipv4_header del: be16_sum_numeral)
  then have "unat (ntoh16 (ipv4_checksum (h\<lparr>ip4_checksum := ?c\<rparr>) extra n)) =
      65535 - ones_sum (?s + (65535 - ones_sum ?s))"
    by (simp add: ipv4_checksum_value c ac_simps del: be16_sum_numeral)
  also have "\<dots> = 0"
    by (simp only: ones_sum_add)
  finally have "ntoh16 (ipv4_checksum (h\<lparr>ip4_checksum := ?c\<rparr>) extra n) = ntoh16 (hton16 0)"
    by (simp add: word_unat_eq_iff)
  then show ?thesis by (metis hton16_ntoh16)
qed

section \<open>The UDP checksum\<close>

definition udp_payload_sum :: "bytes \<Rightarrow> nat \<Rightarrow> nat" where
  "udp_payload_sum payload n =
     be16_sum (n div 2) payload + (if even n then 0 else 256 * unat (payload ! (n - 1)))"

definition udp_pseudo_sum :: "u32 \<Rightarrow> u32 \<Rightarrow> u16 \<Rightarrow> nat" where
  "udp_pseudo_sum source_addr dest_addr payload_len =
     be16_sum 2 (mem32 source_addr) + be16_sum 2 (mem32 dest_addr) + 17 + unat (8 + payload_len)"

lemma unat_summer:
  "len < 131074 \<Longrightarrow> unat (udp_checksum_summer p len) = be16_sum (len div 2) p"
  unfolding udp_checksum_summer_def by (subst unat_add_be16_words) simp_all

lemma unat_summer_mem16: "unat (udp_checksum_summer (mem16 (hton16 x)) 2) = unat x"
  using be16_sum_mem16 [of 0 "hton16 x" "[]"] by (simp add: unat_summer del: be16_sum.simps(2))

lemma unat_push_byte: "unat (push_bit 8 (ucast (b :: u8)) :: u16) = 256 * unat b"
proof -
  have "256 * unat b < 65536"
    using unat_u8_less [of b] by linarith
  then show ?thesis
    by (simp add: push_bit_eq_mult unat_word_ariths word_conv)
qed

lemma unat_udp_sum_payload:
  "unat (udp_sum_payload payload n) = udp_payload_sum payload (unat n)"
proof -
  have b: "unat n < 131074" "unat n - 1 < 131074"
    using unat_u16_less [of n] by linarith+
  have "unat n div 2 \<le> 32767"
    using unat_u16_less [of n] by linarith
  then have le: "be16_sum (unat n div 2) payload \<le> 32767 * 65535"
    using be16_sum_le [of "unat n div 2" payload] mult_le_mono1 [of "unat n div 2" 32767 65535]
    by linarith
  show ?thesis
  proof (cases "even (unat n)")
    case True
    then show ?thesis
      by (simp add: udp_sum_payload_def udp_payload_sum_def unat_summer b)
  next
    case False
    then have "(unat n - 1) div 2 = unat n div 2"
      by presburger
    moreover have "256 * unat (payload ! (unat n - 1)) < 65536"
      using unat_u8_less [of "payload ! (unat n - 1)"] by linarith
    moreover from this have "be16_sum (unat n div 2) payload +
        256 * unat (payload ! (unat n - 1)) < 4294967296"
      using le by linarith
    ultimately show ?thesis
      using False b unfolding udp_sum_payload_def udp_payload_sum_def
      by (simp add: unat_word_ariths unat_summer unat_summer_mem16 unat_push_byte mod2_eq_if)
  qed
qed

lemma udp_payload_sum_le: "n < 65536 \<Longrightarrow> udp_payload_sum payload n \<le> 32767 * 65535 + 65280"
proof -
  assume "n < 65536"
  then have "n div 2 \<le> 32767"
    by linarith
  then have "be16_sum (n div 2) payload \<le> 32767 * 65535"
    using be16_sum_le [of "n div 2" payload] mult_le_mono1 [of "n div 2" 32767 65535] by linarith
  moreover have "256 * unat (payload ! (n - 1)) \<le> 65280"
    using unat_u8_less [of "payload ! (n - 1)"] by linarith
  ultimately show ?thesis
    unfolding udp_payload_sum_def by auto
qed

lemma udp_finish_sum_value:
  "t \<noteq> 0 \<Longrightarrow> unat (ntoh16 (udp_finish_sum t)) = 65535 - ones_sum (unat t)"
proof -
  assume "t \<noteq> 0"
  then have "0 < ones_sum (unat t)"
    by (simp add: ones_sum_def unat_gt_0)
  then have "fold_carries t \<noteq> 0"
    by (metis unat_0 unat_fold_carries less_numeral_extra(3))
  then show ?thesis
    by (simp add: udp_finish_sum_def Let_def unat_not_u16 unat_fold_carries ones_sum_le)
qed

lemma udp_checksum_value:
  "unat (ntoh16 (udp_checksum h payload n src dst)) =
     65535 - ones_sum (udp_pseudo_sum src dst n + be16_sum 4 (udp_header_bytes h) +
       udp_payload_sum payload (unat n))"
proof -
  define t where "t =
    udp_checksum_summer (mem32 src) 4 + udp_checksum_summer (mem32 dst) 4 +
    udp_checksum_summer (mem16 (hton16 (ucast IPV4_PROTOCOL_UDP))) 2 +
    udp_checksum_summer (mem16 (hton16 (8 + n))) 2 +
    udp_checksum_summer (udp_header_bytes h) sizeof_udp_header + udp_sum_payload payload n"
  have "be16_sum 2 (mem32 src) \<le> 131070" "be16_sum 2 (mem32 dst) \<le> 131070"
    "be16_sum 4 (udp_header_bytes h) \<le> 262140"
    using be16_sum_le [of 2 "mem32 src"] be16_sum_le [of 2 "mem32 dst"]
      be16_sum_le [of 4 "udp_header_bytes h"] by linarith+
  moreover have "udp_payload_sum payload (unat n) \<le> 32767 * 65535 + 65280" "unat (8 + n) < 65536"
    using udp_payload_sum_le [OF unat_u16_less] unat_u16_less by blast+
  ultimately have "unat t = udp_pseudo_sum src dst n + be16_sum 4 (udp_header_bytes h) +
      udp_payload_sum payload (unat n)"
    unfolding t_def udp_pseudo_sum_def
    by (simp add: unat_word_ariths unat_summer unat_summer_mem16 unat_udp_sum_payload
        IPV4_PROTOCOL_UDP_def del: be16_sum_numeral)
  moreover from this have "t \<noteq> 0"
    unfolding udp_pseudo_sum_def by (auto simp: word_unat_eq_iff)
  ultimately show ?thesis
    using udp_finish_sum_value [of t] by (simp add: udp_checksum_def t_def del: be16_sum_numeral)
qed

text \<open>
  C20: udp_checksum never returns 0xFFFF.  RFC 768 transmits a computed checksum of zero as all
  ones, but the code tests the sum for zero before complementing it, so a packet whose computed
  checksum is zero is given the value 0 ("no checksum"), and a received packet that carries the
  mandated 0xFFFF cannot match.
\<close>

theorem udp_checksum_never_all_ones:
  "udp_checksum h payload n src dst \<noteq> 0xFFFF"
proof
  assume "udp_checksum h payload n src dst = 0xFFFF"
  then have "unat (ntoh16 0xFFFF) = 65535 - ones_sum (udp_pseudo_sum src dst n +
      be16_sum 4 (udp_header_bytes h) + udp_payload_sum payload (unat n))"
    by (metis udp_checksum_value)
  moreover have "unat (ntoh16 0xFFFF) = 65535"
    by (simp add: ntoh16_def hton16_def badvpn_reverse16_def mem16_def word_conv)
  ultimately have "ones_sum (udp_pseudo_sum src dst n + be16_sum 4 (udp_header_bytes h) +
      udp_payload_sum payload (unat n)) = 0"
    using ones_sum_le [of "udp_pseudo_sum src dst n + be16_sum 4 (udp_header_bytes h) +
      udp_payload_sum payload (unat n)"] by linarith
  then show False
    by (simp add: ones_sum_def udp_pseudo_sum_def split: if_splits)
qed

end
