(* ===== verification/Sizes.thy ===== *)
theory Sizes
  imports Prelude
begin

text \<open>
  Size arithmetic: misc/balign.h, misc/bsize.h and misc/balloc.h.  A size_t is a word of any width
  \<open>'w\<close>, so that the results hold on the 32 and 64 bit targets alike, and SIZE_MAX is the largest
  word.  malloc is a parameter that maps a size to a block or None.

  The lemmas show that a bsize_t either carries the mathematically exact size or is marked as
  overflowed, and that the allocation functions ask malloc for the exact size or fail.
\<close>

definition INT_MAX :: int where "INT_MAX = 2147483647"

text \<open>Conversion to a 32 bit C int.\<close>

definition to_int :: "int \<Rightarrow> int" where
  "to_int x = (x + 2147483648) mod 4294967296 - 2147483648"

lemma to_int_id: "- 2147483648 \<le> x \<Longrightarrow> x \<le> INT_MAX \<Longrightarrow> to_int x = x"
  by (simp add: to_int_def INT_MAX_def)

abbreviation SIZE_MAX :: "'w::len word" where "SIZE_MAX \<equiv> - 1"

section \<open>misc/balign.h\<close>

definition balign_up_overflows :: "'w::len word \<Rightarrow> 'w word \<Rightarrow> bool" where
  "balign_up_overflows x n = (let r = x mod n in r \<noteq> 0 \<and> x > SIZE_MAX - (n - r))"

definition balign_up :: "'w::len word \<Rightarrow> 'w word \<Rightarrow> 'w word" where
  "balign_up x n = (let r = x mod n in if r \<noteq> 0 then x + (n - r) else x)"

definition balign_down :: "'w::len word \<Rightarrow> 'w word \<Rightarrow> 'w word" where
  "balign_down x n = x - x mod n"

text \<open>Quotients do not overflow, so the arguments, converted from nonnegative ints, are integers.\<close>

definition bdivide_up :: "int \<Rightarrow> int \<Rightarrow> int" where
  "bdivide_up a b = (let r = a mod b in if r > 0 then a div b + 1 else a div b)"

section \<open>misc/bsize.h\<close>

record 's bsize_t =
  is_overflow :: bool
  bvalue :: 's

definition bsize_fromsize :: "'w::len word \<Rightarrow> 'w word bsize_t" where
  "bsize_fromsize v = \<lparr>is_overflow = False, bvalue = v\<rparr>"

text \<open>The comparison of a nonnegative int with SIZE_MAX is made in size_t and never holds.\<close>

definition bsize_fromint :: "int \<Rightarrow> 'w::len word bsize_t" where
  "bsize_fromint v = \<lparr>is_overflow = (v < 0 \<or> (word_of_int v :: 'w word) > SIZE_MAX), bvalue = word_of_int v\<rparr>"

definition bsize_overflow :: "'w::len word bsize_t" where
  "bsize_overflow = \<lparr>is_overflow = True, bvalue = 0\<rparr>"

definition bsize_tosize :: "'w::len word bsize_t \<Rightarrow> 'w word option" where
  "bsize_tosize s = (if is_overflow s then None else Some (bvalue s))"

definition bsize_toint :: "'w::len word bsize_t \<Rightarrow> int option" where
  "bsize_toint s = (if is_overflow s \<or> uint (bvalue s) > INT_MAX then None else Some (uint (bvalue s)))"

definition bsize_add :: "'w::len word bsize_t \<Rightarrow> 'w word bsize_t \<Rightarrow> 'w word bsize_t" where
  "bsize_add s1 s2 =
     \<lparr>is_overflow = (is_overflow s1 \<or> is_overflow s2 \<or> bvalue s2 > SIZE_MAX - bvalue s1),
      bvalue = bvalue s1 + bvalue s2\<rparr>"

definition bsize_max :: "'w::len word bsize_t \<Rightarrow> 'w word bsize_t \<Rightarrow> 'w word bsize_t" where
  "bsize_max s1 s2 =
     \<lparr>is_overflow = (is_overflow s1 \<or> is_overflow s2),
      bvalue = of_bool (bvalue s1 > bvalue s2) * bvalue s1 + of_bool (bvalue s1 \<le> bvalue s2) * bvalue s2\<rparr>"

definition bsize_mul :: "'w::len word bsize_t \<Rightarrow> 'w word bsize_t \<Rightarrow> 'w word bsize_t" where
  "bsize_mul s1 s2 =
     \<lparr>is_overflow = (is_overflow s1 \<or> is_overflow s2 \<or>
        (bvalue s1 \<noteq> 0 \<and> bvalue s2 > SIZE_MAX div bvalue s1)),
      bvalue = bvalue s1 * bvalue s2\<rparr>"

section \<open>misc/balloc.h\<close>

definition BAlloc :: "('w::len word \<Rightarrow> 'm option) \<Rightarrow> 'w word \<Rightarrow> 'm option" where
  "BAlloc malloc n = (if n = 0 then malloc 1 else malloc n)"

definition BAllocSize :: "('w::len word \<Rightarrow> 'm option) \<Rightarrow> 'w word bsize_t \<Rightarrow> 'm option" where
  "BAllocSize malloc s = (if is_overflow s then None else BAlloc malloc (bvalue s))"

definition BAllocArray :: "('w::len word \<Rightarrow> 'm option) \<Rightarrow> 'w word \<Rightarrow> 'w word \<Rightarrow> 'm option" where
  "BAllocArray malloc count n =
     (if count = 0 \<or> n = 0 then malloc 1
      else if count > SIZE_MAX div n then None
      else BAlloc malloc (count * n))"

definition BAllocArray2 ::
    "('w::len word \<Rightarrow> 'm option) \<Rightarrow> 'w word \<Rightarrow> 'w word \<Rightarrow> 'w word \<Rightarrow> 'm option" where
  "BAllocArray2 malloc count2 count1 n =
     (if count2 = 0 \<or> count1 = 0 \<or> n = 0 then malloc 1
      else if count1 > SIZE_MAX div n then None
      else if count2 > SIZE_MAX div (count1 * n) then None
      else BAlloc malloc (count2 * (count1 * n)))"

definition BSizeAdd :: "'w::len word \<Rightarrow> 'w word \<Rightarrow> 'w word option" where
  "BSizeAdd s add = (if add > SIZE_MAX - s then None else Some (s + add))"

definition BSizeAlign :: "'w::len word \<Rightarrow> 'w word \<Rightarrow> 'w word option" where
  "BSizeAlign s align =
     (let m = s mod align in
      if m > 0 then (if align - m > SIZE_MAX - s then None else Some (s + (align - m))) else Some s)"

section \<open>The sizes are exact or marked\<close>

lemma unat_SIZE_MAX: "unat (SIZE_MAX :: 'w::len word) = 2 ^ LENGTH('w) - 1"
  by (simp add: unsigned_minus_1_eq_mask mask_eq_exp_minus_1)

lemma unat_less_exp: "unat (x :: 'w::len word) < 2 ^ LENGTH('w)"
  using unsigned_less [of x, where ?'a = nat] by simp

text \<open>The overflow tests, in unbounded arithmetic.\<close>

lemma size_add_test:
  fixes x y :: "'w::len word"
  shows "y > SIZE_MAX - x \<longleftrightarrow> unat x + unat y \<ge> 2 ^ LENGTH('w)"
proof -
  have "unat (SIZE_MAX - x) = 2 ^ LENGTH('w) - 1 - unat x"
    using unat_sub [of x "SIZE_MAX"] by (simp add: unat_SIZE_MAX)
  moreover have "N - 1 - u < v \<longleftrightarrow> u + v \<ge> N" if "u < N" for N u v :: nat
    using that by arith
  ultimately show ?thesis
    using unat_less_exp [of x] by (simp only: word_less_nat_alt)
qed

lemma size_mul_test:
  fixes x y :: "'w::len word"
  assumes "x \<noteq> 0"
  shows "y > SIZE_MAX div x \<longleftrightarrow> unat x * unat y \<ge> 2 ^ LENGTH('w)"
proof -
  have x: "unat x > 0"
    using assms by (simp add: unat_gt_0)
  have "y > SIZE_MAX div x \<longleftrightarrow> unat y > (2 ^ LENGTH('w) - 1) div unat x"
    by (simp add: word_less_nat_alt unat_div_distrib unat_SIZE_MAX)
  also have "\<dots> \<longleftrightarrow> unat y * unat x > 2 ^ LENGTH('w) - 1"
    using x by (simp add: div_less_iff_less_mult)
  also have "\<dots> \<longleftrightarrow> unat x * unat y \<ge> 2 ^ LENGTH('w)"
  proof -
    have "N - 1 < k \<longleftrightarrow> N \<le> k" if "0 < N" for N k :: nat
      using that by arith
    from this [of "2 ^ LENGTH('w)" "unat y * unat x"] show ?thesis
      by (simp only: mult.commute zero_less_power zero_less_numeral)
  qed
  finally show ?thesis .
qed

text \<open>The mathematical size: None once an intermediate result does not fit into a size_t.\<close>

definition bsize_nat :: "'w::len word bsize_t \<Rightarrow> nat option" where
  "bsize_nat s = (if is_overflow s then None else Some (unat (bvalue s)))"

definition fit :: "nat \<Rightarrow> nat \<Rightarrow> nat option" where
  "fit w n = (if n < 2 ^ w then Some n else None)"

lemma bsize_nat_add:
  fixes s1 s2 :: "'w::len word bsize_t"
  shows "bsize_nat (bsize_add s1 s2) =
    Option.bind (bsize_nat s1) (\<lambda>m. Option.bind (bsize_nat s2) (\<lambda>n. fit LENGTH('w) (m + n)))"
  by (auto simp: bsize_nat_def bsize_add_def fit_def size_add_test unat_word_ariths unat_less_exp)

lemma bsize_nat_mul:
  fixes s1 s2 :: "'w::len word bsize_t"
  shows "bsize_nat (bsize_mul s1 s2) =
    Option.bind (bsize_nat s1) (\<lambda>m. Option.bind (bsize_nat s2) (\<lambda>n. fit LENGTH('w) (m * n)))"
  by (cases "bvalue s1 = 0")
    (auto simp: bsize_nat_def bsize_mul_def fit_def size_mul_test unat_word_ariths unat_less_exp)

lemma bsize_nat_max:
  "bsize_nat (bsize_max s1 s2) =
    Option.bind (bsize_nat s1) (\<lambda>m. Option.bind (bsize_nat s2) (\<lambda>n. Some (max m n)))"
  by (auto simp: bsize_nat_def bsize_max_def word_less_nat_alt word_le_nat_alt max_def)

lemma bsize_nat_fromsize: "bsize_nat (bsize_fromsize v) = Some (unat v)"
  by (simp add: bsize_nat_def bsize_fromsize_def)

lemma bsize_tosize_nat: "bsize_tosize s = map_option of_nat (bsize_nat s)"
  by (simp add: bsize_tosize_def bsize_nat_def)

lemma BAllocArray_exact:
  assumes "count \<noteq> 0" "n \<noteq> 0"
  shows "BAllocArray malloc (count :: 'w::len word) n =
    (if unat count * unat n < 2 ^ LENGTH('w) then malloc (of_nat (unat count * unat n)) else None)"
proof -
  have "count * n \<noteq> 0" if "unat count * unat n < 2 ^ LENGTH('w)"
  proof
    assume "count * n = 0"
    then have "unat count * unat n = 0"
      using that unat_word_ariths(2) [of count n] by simp
    with assms show False
      by (simp add: unat_eq_0)
  qed
  then show ?thesis
    using assms size_mul_test [of n count]
    by (auto simp: BAllocArray_def BAlloc_def mult.commute)
qed

text \<open>An expression over sizes, as the callers build it from bsize_add, bsize_max and bsize_mul.\<close>

datatype 's size_expr =
    Size 's
  | Plus "'s size_expr" "'s size_expr"
  | Times "'s size_expr" "'s size_expr"
  | Max "'s size_expr" "'s size_expr"

primrec bsize_eval :: "'w::len word size_expr \<Rightarrow> 'w word bsize_t" where
  "bsize_eval (Size v) = bsize_fromsize v"
| "bsize_eval (Plus a b) = bsize_add (bsize_eval a) (bsize_eval b)"
| "bsize_eval (Times a b) = bsize_mul (bsize_eval a) (bsize_eval b)"
| "bsize_eval (Max a b) = bsize_max (bsize_eval a) (bsize_eval b)"

primrec nat_eval :: "'w::len word size_expr \<Rightarrow> nat" where
  "nat_eval (Size v) = unat v"
| "nat_eval (Plus a b) = nat_eval a + nat_eval b"
| "nat_eval (Times a b) = nat_eval a * nat_eval b"
| "nat_eval (Max a b) = max (nat_eval a) (nat_eval b)"

lemma bind_fit_SomeD:
  "Option.bind a (\<lambda>m. Option.bind b (\<lambda>n. fit w (f m n))) = Some k \<Longrightarrow>
    \<exists>m n. a = Some m \<and> b = Some n \<and> k = f m n"
  by (cases a; cases b) (auto simp: fit_def split: if_splits)

lemma bsize_nat_eval: "bsize_nat (bsize_eval e) = Some n \<Longrightarrow> n = nat_eval e"
proof (induction e arbitrary: n)
  case (Size v)
  then show ?case
    by (simp add: bsize_nat_fromsize)
next
  case (Plus a b)
  obtain i j where "bsize_nat (bsize_eval a) = Some i" "bsize_nat (bsize_eval b) = Some j" "n = i + j"
    using bind_fit_SomeD [OF Plus.prems [unfolded bsize_eval.simps bsize_nat_add]] by blast
  then show ?case
    using Plus.IH by simp
next
  case (Times a b)
  obtain i j where "bsize_nat (bsize_eval a) = Some i" "bsize_nat (bsize_eval b) = Some j" "n = i * j"
    using bind_fit_SomeD [OF Times.prems [unfolded bsize_eval.simps bsize_nat_mul]] by blast
  then show ?case
    using Times.IH by simp
next
  case (Max a b)
  then show ?case
    by (cases "bsize_nat (bsize_eval a)"; cases "bsize_nat (bsize_eval b)") (auto simp: bsize_nat_max)
qed

text \<open>C21: A size computed with bsize_fromsize, bsize_add, bsize_mul and bsize_max never wraps around:
  whenever bsize_tosize or bsize_toint returns a value, it is the exact value of the expression over the
  natural numbers, for every width of size_t.\<close>
theorem bsize_never_wraps:
  "(\<forall>v. bsize_tosize (bsize_eval e) = Some v \<longrightarrow> unat v = nat_eval e) \<and>
   (\<forall>i. bsize_toint (bsize_eval e) = Some i \<longrightarrow> i = int (nat_eval e))"
proof (cases "is_overflow (bsize_eval e)")
  case True
  then show ?thesis
    by (simp add: bsize_tosize_def bsize_toint_def)
next
  case False
  then have "unat (bvalue (bsize_eval e)) = nat_eval e"
    by (intro bsize_nat_eval) (simp add: bsize_nat_def)
  then have "uint (bvalue (bsize_eval e)) = int (nat_eval e)"
    by (simp flip: \<open>unat (bvalue (bsize_eval e)) = nat_eval e\<close>)
  with \<open>unat (bvalue (bsize_eval e)) = nat_eval e\<close> False show ?thesis
    by (simp add: bsize_tosize_def bsize_toint_def)
qed

theorem bsize_never_wraps_witness:
  "bsize_toint (bsize_eval (Plus (Size 3) (Times (Size 4) (Size (5 :: u32))))) = Some 23 \<and>
   nat_eval (Plus (Size 3) (Times (Size 4) (Size (5 :: u32)))) = 23"
  using bsize_never_wraps [of "Plus (Size 3) (Times (Size 4) (Size (5 :: u32)))"]
  by (simp add: bsize_toint_def bsize_add_def bsize_mul_def bsize_fromsize_def INT_MAX_def)

end
