(* ===== verification/Chunk_Buffer.thy ===== *)
theory Chunk_Buffer
  imports Byte_Order Sizes
begin

text \<open>
  structure/ChunkBuffer2.h, the ring buffer under PacketBuffer and SinglePacketBuffer.  The buffer is an array of blocks of
  sizeof(struct ChunkBuffer2_block) = 4 bytes; a packet is a header block holding its length and its
  data rounded up to blocks.  The array is a byte list, and the pointers input_dest and output_dest are
  byte offsets into it (None is NULL).  The C int fields are unbounded integers; the one product that is
  computed in size_t and stored in an int is wrapped by \<open>to_int\<close>.

  The lemmas show that the buffer is a FIFO queue of packets, that it never refuses a packet of MTU size when
  empty, and that ChunkBuffer2_calc_blocks reserves room for the number of packets asked for.
\<close>

section \<open>The buffer\<close>

record chunk_buffer2 =
  cb_mem :: bytes
  cb_size :: int
  cb_wrap :: int
  cb_start :: int
  cb_used :: int
  cb_mtu :: int
  cb_input_dest :: "nat option"
  cb_input_avail :: int
  cb_output_dest :: "nat option"
  cb_output_avail :: int

definition block_len :: "bytes \<Rightarrow> int \<Rightarrow> int" where
  "block_len m i = sint (host32 (read_at m (nat (4 * i)) 4))"

definition set_block_len :: "bytes \<Rightarrow> int \<Rightarrow> int \<Rightarrow> bytes" where
  "set_block_len m i len = write_at m (nat (4 * i)) (mem32 (word_of_int len))"

definition ChunkBuffer2_end :: "chunk_buffer2 \<Rightarrow> int" where
  "ChunkBuffer2_end buf =
     (if cb_used buf \<ge> cb_wrap buf - cb_start buf
      then cb_used buf - (cb_wrap buf - cb_start buf)
      else cb_start buf + cb_used buf)"

definition ChunkBuffer2_assert_buffer :: "chunk_buffer2 \<Rightarrow> bool" where
  "ChunkBuffer2_assert_buffer buf \<longleftrightarrow> cb_size buf > 0 \<and> cb_wrap buf > 0 \<and> cb_wrap buf \<le> cb_size buf \<and>
     cb_start buf \<ge> 0 \<and> cb_start buf < cb_wrap buf \<and> cb_used buf \<ge> 0 \<and> cb_used buf \<le> cb_wrap buf \<and>
     (cb_wrap buf = cb_size buf \<or> cb_used buf \<ge> cb_wrap buf - cb_start buf) \<and> cb_mtu buf \<ge> 0"

definition ChunkBuffer2_update_input :: "chunk_buffer2 \<Rightarrow> chunk_buffer2" where
  "ChunkBuffer2_update_input buf =
     (let end' = ChunkBuffer2_end buf in
      if cb_size buf - end' - 1 < cb_mtu buf
      then buf\<lparr>cb_input_dest := None, cb_input_avail := -1\<rparr>
      else let free = (if cb_used buf \<ge> cb_wrap buf - cb_start buf then cb_start buf - end'
                       else cb_size buf - end')
           in if free > 0
              then buf\<lparr>cb_input_dest := Some (nat (4 * (end' + 1))), cb_input_avail := to_int ((free - 1) * 4)\<rparr>
              else buf\<lparr>cb_input_dest := None, cb_input_avail := -1\<rparr>)"

definition ChunkBuffer2_update_output :: "chunk_buffer2 \<Rightarrow> chunk_buffer2" where
  "ChunkBuffer2_update_output buf =
     (if cb_used buf > 0
      then let datalen = block_len (cb_mem buf) (cb_start buf)
           in buf\<lparr>cb_output_dest := Some (nat (4 * (cb_start buf + 1))), cb_output_avail := datalen\<rparr>
      else buf\<lparr>cb_output_dest := None, cb_output_avail := -1\<rparr>)"

definition ChunkBuffer2_assert_io :: "chunk_buffer2 \<Rightarrow> bool" where
  "ChunkBuffer2_assert_io buf \<longleftrightarrow>
     (let end' = ChunkBuffer2_end buf in
      if cb_size buf - end' - 1 < cb_mtu buf then cb_input_dest buf = None \<and> cb_input_avail buf = -1
      else let free = (if cb_used buf \<ge> cb_wrap buf - cb_start buf then cb_start buf - end'
                       else cb_size buf - end')
           in if free > 0
              then cb_input_dest buf = Some (nat (4 * (end' + 1))) \<and> cb_input_avail buf = (free - 1) * 4
              else cb_input_dest buf = None \<and> cb_input_avail buf = -1) \<and>
     (if cb_used buf > 0
      then let datalen = block_len (cb_mem buf) (cb_start buf); blocklen = bdivide_up datalen 4
           in datalen \<ge> 0 \<and> blocklen \<le> cb_used buf - 1 \<and> blocklen \<le> cb_wrap buf - cb_start buf - 1 \<and>
              cb_output_dest buf = Some (nat (4 * (cb_start buf + 1))) \<and> cb_output_avail buf = datalen
      else cb_output_dest buf = None \<and> cb_output_avail buf = -1)"

definition ChunkBuffer2_calc_blocks :: "int \<Rightarrow> int \<Rightarrow> int" where
  "ChunkBuffer2_calc_blocks chunk_len num =
     (let chunk_data_blocks = bdivide_up chunk_len 4 in
      if chunk_data_blocks > INT_MAX - 1 then -1
      else let chunk_blocks = 1 + chunk_data_blocks in
      if num > INT_MAX - 1 then -1
      else let num_chunks = num + 1 in
      if chunk_blocks > INT_MAX div num_chunks then -1
      else chunk_blocks * num_chunks)"

definition ChunkBuffer2_Init :: "bytes \<Rightarrow> int \<Rightarrow> int \<Rightarrow> chunk_buffer2" where
  "ChunkBuffer2_Init buffer blocks mtu =
     (let buf = \<lparr>cb_mem = buffer, cb_size = blocks, cb_wrap = blocks, cb_start = 0, cb_used = 0,
          cb_mtu = bdivide_up mtu 4, cb_input_dest = None, cb_input_avail = 0, cb_output_dest = None,
          cb_output_avail = 0\<rparr>
      in ChunkBuffer2_update_output (ChunkBuffer2_update_input buf))"

definition ChunkBuffer2_SubmitPacket :: "chunk_buffer2 \<Rightarrow> int \<Rightarrow> chunk_buffer2" where
  "ChunkBuffer2_SubmitPacket buf len =
     (let end' = ChunkBuffer2_end buf;
          blocklen = bdivide_up len 4;
          buf = buf\<lparr>cb_mem := set_block_len (cb_mem buf) end' len\<rparr>;
          buf = buf\<lparr>cb_used := cb_used buf + (1 + blocklen)\<rparr>;
          buf = (if cb_used buf \<le> cb_wrap buf - cb_start buf \<and>
                    cb_mtu buf > cb_size buf - (end' + 1 + blocklen) - 1
                 then buf\<lparr>cb_wrap := end' + 1 + blocklen\<rparr> else buf);
          buf = ChunkBuffer2_update_input buf
      in if cb_used buf = 1 + blocklen then ChunkBuffer2_update_output buf else buf)"

definition ChunkBuffer2_ConsumePacket :: "chunk_buffer2 \<Rightarrow> chunk_buffer2" where
  "ChunkBuffer2_ConsumePacket buf =
     (let blocklen = bdivide_up (block_len (cb_mem buf) (cb_start buf)) 4;
          data_wrapped = (cb_used buf \<ge> cb_wrap buf - cb_start buf);
          buf = buf\<lparr>cb_start := cb_start buf + (1 + blocklen)\<rparr>;
          buf = buf\<lparr>cb_used := cb_used buf - (1 + blocklen)\<rparr>;
          buf = (if cb_start buf = cb_wrap buf then buf\<lparr>cb_start := 0, cb_wrap := cb_size buf\<rparr> else buf);
          buf = (if data_wrapped then ChunkBuffer2_update_input buf else buf)
      in ChunkBuffer2_update_output buf)"

section \<open>Packets in the array\<close>

definition blocks_of :: "bytes \<Rightarrow> int" where
  "blocks_of p = 1 + bdivide_up (int (length p)) 4"

fun chunks :: "bytes \<Rightarrow> int \<Rightarrow> bytes list \<Rightarrow> int \<Rightarrow> bool" where
  "chunks m s [] e \<longleftrightarrow> s = e"
| "chunks m s (p # ps) e \<longleftrightarrow> block_len m s = int (length p) \<and>
     read_at m (nat (4 * (s + 1))) (length p) = p \<and> chunks m (s + blocks_of p) ps e"

lemma bdivide_up_bounds: "0 \<le> n \<Longrightarrow> 0 \<le> bdivide_up n 4 \<and> n \<le> 4 * bdivide_up n 4 \<and> 4 * bdivide_up n 4 < n + 4"
  unfolding bdivide_up_def Let_def by presburger

lemma blocks_of_bounds: "1 \<le> blocks_of p" "int (length p) \<le> 4 * (blocks_of p - 1)"
  using bdivide_up_bounds [of "int (length p)"] by (simp_all add: blocks_of_def)

lemma chunks_le: "chunks m s ps e \<Longrightarrow> s \<le> e"
proof (induction ps arbitrary: s)
  case (Cons p ps)
  then show ?case
    using blocks_of_bounds [of p] by fastforce
qed simp

lemma chunks_less:
  assumes "chunks m s ps e"
  shows "s < e \<longleftrightarrow> ps \<noteq> []"
proof (cases ps)
  case (Cons p qs)
  then show ?thesis
    using assms blocks_of_bounds [of p] chunks_le [of m "s + blocks_of p" qs e] by simp
qed (use assms in simp)

lemma chunks_append: "chunks m s (ps @ qs) e \<longleftrightarrow> (\<exists>t. chunks m s ps t \<and> chunks m t qs e)"
  by (induction ps arbitrary: s) auto

lemma read_at_cong:
  assumes "length m = length m'" "off + n \<le> length m" "\<And>k. off \<le> k \<Longrightarrow> k < off + n \<Longrightarrow> m ! k = m' ! k"
  shows "read_at m off n = read_at m' off n"
  using assms by (intro nth_equalityI) (auto simp: read_at_def)

text \<open>Only the blocks of the packets matter.\<close>

lemma chunks_cong:
  assumes "length m = length m'" "0 \<le> s" "4 * e \<le> int (length m)"
    and "\<And>k. 4 * s \<le> int k \<Longrightarrow> int k < 4 * e \<Longrightarrow> m ! k = m' ! k"
  shows "chunks m s ps e \<longleftrightarrow> chunks m' s ps e"
  using assms
proof (induction ps arbitrary: s)
  case (Cons p ps)
  show ?case
  proof (cases "s + blocks_of p \<le> e")
    case True
    note b = blocks_of_bounds [of p]
    have "block_len m s = block_len m' s"
      unfolding block_len_def using Cons.prems True b
      by (intro arg_cong [where f = "\<lambda>x. sint (host32 x)"] read_at_cong) auto
    moreover have "read_at m (nat (4 * (s + 1))) (length p) = read_at m' (nat (4 * (s + 1))) (length p)"
      using Cons.prems True b by (intro read_at_cong) auto
    moreover have "chunks m (s + blocks_of p) ps e \<longleftrightarrow> chunks m' (s + blocks_of p) ps e"
      using Cons.prems b by (intro Cons.IH) auto
    ultimately show ?thesis
      by simp
  next
    case False
    then show ?thesis
      using chunks_le [of m "s + blocks_of p" ps e] chunks_le [of m' "s + blocks_of p" ps e] by auto
  qed
qed simp

text \<open>Writing the data of a packet and then its header block at block \<open>e\<close>.\<close>

definition put_chunk :: "bytes \<Rightarrow> int \<Rightarrow> bytes \<Rightarrow> bytes" where
  "put_chunk m e p = set_block_len (write_at m (nat (4 * (e + 1))) p) e (int (length p))"

lemma put_chunk_bounds:
  assumes "0 \<le> e" "4 * (e + blocks_of p) \<le> int (length m)"
  shows "nat (4 * (e + 1)) + length p \<le> length m" "nat (4 * e) + 4 = nat (4 * (e + 1))"
proof -
  have "4 * (e + 1) + int (length p) \<le> int (length m)"
    using assms blocks_of_bounds [of p] by simp
  then have "int (nat (4 * (e + 1)) + length p) \<le> int (length m)"
    using assms(1) by simp
  then show "nat (4 * (e + 1)) + length p \<le> length m"
    by (rule of_nat_le_iff [THEN iffD1])
  have "int (nat (4 * e) + 4) = int (nat (4 * (e + 1)))"
    using assms(1) by simp
  then show "nat (4 * e) + 4 = nat (4 * (e + 1))"
    by (rule of_nat_eq_iff [THEN iffD1])
qed

lemma put_chunk_length:
  assumes "0 \<le> e" "4 * (e + blocks_of p) \<le> int (length m)"
  shows "length (put_chunk m e p) = length m"
  using put_chunk_bounds [OF assms] by (simp add: put_chunk_def set_block_len_def del: of_int_of_nat_eq)

lemma put_chunk_other:
  assumes "0 \<le> e" "4 * (e + blocks_of p) \<le> int (length m)" "k < length m"
    and "int k < 4 * e \<or> 4 * (e + blocks_of p) \<le> int k"
  shows "put_chunk m e p ! k = m ! k"
  using assms blocks_of_bounds [of p] by (auto simp: put_chunk_def set_block_len_def nth_write_at)

lemma sint_word_of_int: "- 2147483648 \<le> x \<Longrightarrow> x \<le> INT_MAX \<Longrightarrow> sint (word_of_int x :: u32) = x"
  by (simp add: sint_sbintrunc' signed_take_bit_int_eq_self INT_MAX_def)

lemma put_chunk_chunk:
  assumes "0 \<le> e" "4 * (e + blocks_of p) \<le> int (length m)" "int (length p) \<le> INT_MAX"
  shows "chunks (put_chunk m e p) e [p] (e + blocks_of p)"
proof -
  note b = blocks_of_bounds [of p]
  let ?w = "write_at m (nat (4 * (e + 1))) p"
  have "read_at (put_chunk m e p) (nat (4 * e)) 4 = mem32 (word_of_int (int (length p)))"
    unfolding put_chunk_def set_block_len_def
    using put_chunk_bounds [OF assms(1,2)] by (intro read_write_same) simp_all
  then have "block_len (put_chunk m e p) e = int (length p)"
    using assms sint_word_of_int [of "int (length p)"] by (simp add: block_len_def)
  moreover have "read_at (put_chunk m e p) (nat (4 * (e + 1))) (length p) = p"
    unfolding put_chunk_def set_block_len_def
    using put_chunk_bounds [OF assms(1,2)] by (subst read_write_after) (simp_all add: read_write_same)
  ultimately show ?thesis
    by simp
qed

lemma chunks_put_before:
  assumes "chunks m s ps t" "0 \<le> s" "t \<le> e" "4 * (e + blocks_of p) \<le> int (length m)"
  shows "chunks (put_chunk m e p) s ps t"
proof -
  have "0 \<le> e" and b: "0 \<le> blocks_of p"
    using assms(2,3) chunks_le [OF assms(1)] blocks_of_bounds [of p] by auto
  with assms show ?thesis
    by (subst chunks_cong [where m' = m]) (auto simp: put_chunk_length put_chunk_other)
qed

lemma chunks_put_after:
  assumes "chunks m s ps t" "0 \<le> e" "e + blocks_of p \<le> s" "4 * t \<le> int (length m)"
  shows "chunks (put_chunk m e p) s ps t"
proof -
  have "s \<le> t" "0 \<le> blocks_of p"
    using chunks_le [OF assms(1)] blocks_of_bounds [of p] by auto
  with assms show ?thesis
    by (subst chunks_cong [where m' = m]) (auto simp: put_chunk_length put_chunk_other)
qed

section \<open>The buffer represents a queue of packets\<close>

definition cb_wrapped :: "chunk_buffer2 \<Rightarrow> bool" where
  "cb_wrapped buf \<longleftrightarrow> cb_used buf \<ge> cb_wrap buf - cb_start buf"

text \<open>The packets lie behind one another from start, and after the wrap mark from the beginning of the array.
  An MTU packet always fits behind the last packet (data not wrapped) or in the place of the last packet before
  the wrap mark (data wrapped); this is what keeps the writer from getting stuck.\<close>

definition cb_layout :: "chunk_buffer2 \<Rightarrow> bytes list \<Rightarrow> bool" where
  "cb_layout buf ps \<longleftrightarrow>
     (if cb_wrapped buf
      then (\<exists>qs q rs t. ps = qs @ q # rs \<and> chunks (cb_mem buf) (cb_start buf) qs t \<and>
              chunks (cb_mem buf) t [q] (cb_wrap buf) \<and> cb_mtu buf \<le> cb_size buf - t - 1 \<and>
              chunks (cb_mem buf) 0 rs (ChunkBuffer2_end buf)) \<and>
           ChunkBuffer2_end buf \<le> cb_start buf
      else chunks (cb_mem buf) (cb_start buf) ps (ChunkBuffer2_end buf) \<and>
           cb_mtu buf \<le> cb_size buf - ChunkBuffer2_end buf - 1)"

definition cb_core :: "chunk_buffer2 \<Rightarrow> bytes list \<Rightarrow> bool" where
  "cb_core buf ps \<longleftrightarrow> ChunkBuffer2_assert_buffer buf \<and> int (length (cb_mem buf)) = 4 * cb_size buf \<and>
     4 * cb_size buf \<le> INT_MAX \<and> cb_size buf - cb_mtu buf \<le> cb_wrap buf \<and> cb_layout buf ps"

definition cb_rep :: "chunk_buffer2 \<Rightarrow> bytes list \<Rightarrow> bool" where
  "cb_rep buf ps \<longleftrightarrow> cb_core buf ps \<and> ChunkBuffer2_assert_io buf"

text \<open>The two halves of the assertion on the pointers, each established by its update function.\<close>

definition cb_free :: "chunk_buffer2 \<Rightarrow> int" where
  "cb_free buf = (if cb_wrapped buf then cb_start buf - ChunkBuffer2_end buf
     else cb_size buf - ChunkBuffer2_end buf)"

definition cb_input_ok :: "chunk_buffer2 \<Rightarrow> bool" where
  "cb_input_ok buf \<longleftrightarrow>
     (if cb_mtu buf \<le> cb_size buf - ChunkBuffer2_end buf - 1 \<and> cb_free buf > 0
      then cb_input_dest buf = Some (nat (4 * (ChunkBuffer2_end buf + 1))) \<and>
        cb_input_avail buf = (cb_free buf - 1) * 4
      else cb_input_dest buf = None \<and> cb_input_avail buf = -1)"

definition cb_output_ok :: "chunk_buffer2 \<Rightarrow> bool" where
  "cb_output_ok buf \<longleftrightarrow>
     (if cb_used buf > 0
      then let datalen = block_len (cb_mem buf) (cb_start buf); blocklen = bdivide_up datalen 4
           in datalen \<ge> 0 \<and> blocklen \<le> cb_used buf - 1 \<and> blocklen \<le> cb_wrap buf - cb_start buf - 1 \<and>
              cb_output_dest buf = Some (nat (4 * (cb_start buf + 1))) \<and> cb_output_avail buf = datalen
      else cb_output_dest buf = None \<and> cb_output_avail buf = -1)"

lemma assert_io_split: "ChunkBuffer2_assert_io buf \<longleftrightarrow> cb_input_ok buf \<and> cb_output_ok buf"
  by (auto simp: ChunkBuffer2_assert_io_def cb_input_ok_def cb_output_ok_def cb_free_def cb_wrapped_def
      Let_def)

lemma update_input_fields [simp]:
  "cb_mem (ChunkBuffer2_update_input b) = cb_mem b" "cb_size (ChunkBuffer2_update_input b) = cb_size b"
  "cb_wrap (ChunkBuffer2_update_input b) = cb_wrap b" "cb_start (ChunkBuffer2_update_input b) = cb_start b"
  "cb_used (ChunkBuffer2_update_input b) = cb_used b" "cb_mtu (ChunkBuffer2_update_input b) = cb_mtu b"
  "cb_output_dest (ChunkBuffer2_update_input b) = cb_output_dest b"
  "cb_output_avail (ChunkBuffer2_update_input b) = cb_output_avail b"
  by (simp_all add: ChunkBuffer2_update_input_def Let_def)

lemma update_output_fields [simp]:
  "cb_mem (ChunkBuffer2_update_output b) = cb_mem b" "cb_size (ChunkBuffer2_update_output b) = cb_size b"
  "cb_wrap (ChunkBuffer2_update_output b) = cb_wrap b" "cb_start (ChunkBuffer2_update_output b) = cb_start b"
  "cb_used (ChunkBuffer2_update_output b) = cb_used b" "cb_mtu (ChunkBuffer2_update_output b) = cb_mtu b"
  "cb_input_dest (ChunkBuffer2_update_output b) = cb_input_dest b"
  "cb_input_avail (ChunkBuffer2_update_output b) = cb_input_avail b"
  by (simp_all add: ChunkBuffer2_update_output_def Let_def)

lemmas cb_state_defs = ChunkBuffer2_end_def cb_wrapped_def

lemma update_input_state [simp]:
  "ChunkBuffer2_end (ChunkBuffer2_update_input b) = ChunkBuffer2_end b"
  "cb_free (ChunkBuffer2_update_input b) = cb_free b"
  by (simp_all add: ChunkBuffer2_end_def cb_free_def cb_wrapped_def)

lemma cb_core_cong:
  assumes "cb_core b ps" "cb_mem b' = cb_mem b" "cb_size b' = cb_size b" "cb_wrap b' = cb_wrap b"
    and "cb_start b' = cb_start b" "cb_used b' = cb_used b" "cb_mtu b' = cb_mtu b"
  shows "cb_core b' ps"
proof -
  have "ChunkBuffer2_end b' = ChunkBuffer2_end b" "cb_wrapped b' = cb_wrapped b"
    using assms by (simp_all add: cb_state_defs)
  with assms show ?thesis
    by (auto simp: cb_core_def cb_layout_def ChunkBuffer2_assert_buffer_def split: if_splits)
qed

text \<open>The two shapes of a well-formed buffer.\<close>

lemma cb_core_plain:
  assumes "\<not> cb_wrapped b"
  shows "cb_core b ps \<longleftrightarrow> 0 < cb_size b \<and> 0 \<le> cb_start b \<and> 0 \<le> cb_used b \<and> 0 \<le> cb_mtu b \<and>
    cb_wrap b = cb_size b \<and> int (length (cb_mem b)) = 4 * cb_size b \<and> 4 * cb_size b \<le> INT_MAX \<and>
    chunks (cb_mem b) (cb_start b) ps (cb_start b + cb_used b) \<and>
    cb_mtu b \<le> cb_size b - (cb_start b + cb_used b) - 1"
  using assms by (auto simp: cb_core_def cb_layout_def cb_state_defs ChunkBuffer2_assert_buffer_def)

lemma cb_core_wrapped:
  assumes "cb_wrapped b"
  shows "cb_core b ps \<longleftrightarrow> 0 < cb_size b \<and> 0 \<le> cb_start b \<and> 0 \<le> cb_mtu b \<and>
    cb_start b < cb_wrap b \<and> cb_wrap b \<le> cb_size b \<and> cb_size b - cb_mtu b \<le> cb_wrap b \<and>
    int (length (cb_mem b)) = 4 * cb_size b \<and> 4 * cb_size b \<le> INT_MAX \<and> cb_used b \<le> cb_wrap b \<and>
    (\<exists>qs q rs t. ps = qs @ q # rs \<and> chunks (cb_mem b) (cb_start b) qs t \<and>
       chunks (cb_mem b) t [q] (cb_wrap b) \<and> cb_mtu b \<le> cb_size b - t - 1 \<and>
       chunks (cb_mem b) 0 rs (cb_used b - (cb_wrap b - cb_start b)))"
  using assms by (auto simp: cb_core_def cb_layout_def cb_state_defs ChunkBuffer2_assert_buffer_def)

lemma cb_core_wrappedI:
  assumes "cb_wrapped b" "0 < cb_size b" "0 \<le> cb_start b" "0 \<le> cb_mtu b" "cb_start b < cb_wrap b"
    and "cb_wrap b \<le> cb_size b" "cb_size b - cb_mtu b \<le> cb_wrap b"
    and "int (length (cb_mem b)) = 4 * cb_size b" "4 * cb_size b \<le> INT_MAX" "cb_used b \<le> cb_wrap b"
    and "chunks (cb_mem b) (cb_start b) qs t" "chunks (cb_mem b) t [q] (cb_wrap b)"
    and "chunks (cb_mem b) 0 rs (cb_used b - (cb_wrap b - cb_start b))"
    and "cb_mtu b \<le> cb_size b - t - 1" "ps = qs @ q # rs"
  shows "cb_core b ps"
  using assms unfolding cb_core_wrapped [OF assms(1)] by blast

lemma cb_core_wrappedE:
  assumes "cb_core b ps" "cb_wrapped b"
  obtains qs q rs t where "ps = qs @ q # rs" "chunks (cb_mem b) (cb_start b) qs t"
    "chunks (cb_mem b) t [q] (cb_wrap b)" "cb_mtu b \<le> cb_size b - t - 1"
    "chunks (cb_mem b) 0 rs (cb_used b - (cb_wrap b - cb_start b))"
    "0 < cb_size b" "0 \<le> cb_start b" "0 \<le> cb_mtu b" "cb_start b < cb_wrap b"
    "cb_wrap b \<le> cb_size b" "cb_size b - cb_mtu b \<le> cb_wrap b" "cb_start b \<le> t"
    "int (length (cb_mem b)) = 4 * cb_size b" "4 * cb_size b \<le> INT_MAX" "cb_used b \<le> cb_wrap b"
  using assms(1) chunks_le unfolding cb_core_wrapped [OF assms(2)] by blast

lemma cb_end_bounds: "cb_core b ps \<Longrightarrow> 0 \<le> ChunkBuffer2_end b \<and> ChunkBuffer2_end b \<le> cb_size b"
  by (auto simp: cb_core_def cb_layout_def cb_state_defs ChunkBuffer2_assert_buffer_def split: if_splits)

lemma update_input_ok:
  assumes "cb_core b ps"
  shows "cb_input_ok (ChunkBuffer2_update_input b)"
proof -
  have "cb_free b \<le> cb_size b" "0 < cb_size b" "4 * cb_size b \<le> INT_MAX"
    using assms cb_end_bounds [OF assms]
    by (auto simp: cb_core_def cb_free_def ChunkBuffer2_assert_buffer_def)
  then have conv: "cb_free b > 0 \<Longrightarrow> to_int ((cb_free b - 1) * 4) = (cb_free b - 1) * 4"
    by (intro to_int_id) (auto simp: INT_MAX_def)
  then show ?thesis
    by (auto simp: cb_input_ok_def ChunkBuffer2_update_input_def cb_free_def cb_state_defs Let_def)
qed

text \<open>The first packet starts at start, and lies within the used blocks before the wrap mark.\<close>

lemma cb_first:
  assumes "cb_core b (p # ps)"
  shows "block_len (cb_mem b) (cb_start b) = int (length p)"
    "read_at (cb_mem b) (nat (4 * (cb_start b + 1))) (length p) = p"
    "blocks_of p \<le> cb_used b" "blocks_of p \<le> cb_wrap b - cb_start b"
proof -
  consider (wrapped) qs rs where "cb_wrapped b" "p # ps = qs @ rs"
      "chunks (cb_mem b) (cb_start b) qs (cb_wrap b)" "cb_start b < cb_wrap b"
    | (plain) "\<not> cb_wrapped b" "chunks (cb_mem b) (cb_start b) (p # ps) (cb_start b + cb_used b)"
  proof (cases "cb_wrapped b")
    case True
    with assms obtain qs q rs t where "p # ps = qs @ q # rs" "chunks (cb_mem b) (cb_start b) qs t"
        "chunks (cb_mem b) t [q] (cb_wrap b)" "cb_start b < cb_wrap b"
      by (rule cb_core_wrappedE)
    moreover have "chunks (cb_mem b) (cb_start b) (qs @ [q]) (cb_wrap b)"
      using calculation chunks_append by blast
    ultimately show thesis
      using wrapped [of "qs @ [q]" rs] True by simp
  next
    case False
    with assms plain show thesis
      by (simp add: cb_core_plain)
  qed
  then have "block_len (cb_mem b) (cb_start b) = int (length p) \<and>
    read_at (cb_mem b) (nat (4 * (cb_start b + 1))) (length p) = p \<and>
    blocks_of p \<le> cb_used b \<and> blocks_of p \<le> cb_wrap b - cb_start b"
  proof cases
    case wrapped
    then obtain qs' where qs: "qs = p # qs'"
      using chunks_less by (cases qs) auto
    with wrapped chunks_le [of "cb_mem b" "cb_start b + blocks_of p" qs' "cb_wrap b"] show ?thesis
      by (auto simp: cb_wrapped_def)
  next
    case plain
    with chunks_le [of "cb_mem b" "cb_start b + blocks_of p" ps "cb_start b + cb_used b"] show ?thesis
      by (auto simp: cb_wrapped_def)
  qed
  then show "block_len (cb_mem b) (cb_start b) = int (length p)"
    "read_at (cb_mem b) (nat (4 * (cb_start b + 1))) (length p) = p"
    "blocks_of p \<le> cb_used b" "blocks_of p \<le> cb_wrap b - cb_start b"
    by auto
qed

lemma cb_used_pos: "cb_core b ps \<Longrightarrow> cb_used b > 0 \<longleftrightarrow> ps \<noteq> []"
proof (cases ps)
  case Nil
  moreover assume "cb_core b ps"
  ultimately show ?thesis
    by (auto simp: cb_core_def cb_layout_def cb_state_defs ChunkBuffer2_assert_buffer_def split: if_splits)
next
  case (Cons p qs)
  moreover assume "cb_core b ps"
  ultimately show ?thesis
    using cb_first(3) [of b p qs] blocks_of_bounds(1) [of p] by simp
qed

lemma update_output_ok:
  assumes "cb_core b ps"
  shows "cb_output_ok (ChunkBuffer2_update_output b)"
proof (cases ps)
  case Nil
  then show ?thesis
    using assms cb_used_pos [OF assms] by (simp add: cb_output_ok_def ChunkBuffer2_update_output_def)
next
  case (Cons p qs)
  then show ?thesis
    using assms cb_used_pos [OF assms] cb_first [of b p qs]
    by (simp add: cb_output_ok_def ChunkBuffer2_update_output_def Let_def blocks_of_def)
qed

lemma cb_rep_refresh:
  "cb_core b ps \<Longrightarrow> cb_rep (ChunkBuffer2_update_output (ChunkBuffer2_update_input b)) ps"
proof -
  let ?i = "ChunkBuffer2_update_input b"
  assume core: "cb_core b ps"
  then have "cb_core ?i ps" "cb_core (ChunkBuffer2_update_output ?i) ps"
    by (rule cb_core_cong; simp)+
  moreover have "cb_input_ok (ChunkBuffer2_update_output ?i)"
    using update_input_ok [OF core] by (simp add: cb_input_ok_def cb_free_def cb_state_defs)
  ultimately show ?thesis
    using update_output_ok by (simp add: cb_rep_def assert_io_split)
qed

lemma ChunkBuffer2_Init_rep:
  assumes "0 \<le> mtu" "bdivide_up mtu 4 < blocks" "int (length buffer) = 4 * blocks" "4 * blocks \<le> INT_MAX"
  shows "cb_rep (ChunkBuffer2_Init buffer blocks mtu) []"
  unfolding ChunkBuffer2_Init_def Let_def
  using assms bdivide_up_bounds [of mtu]
  by (intro cb_rep_refresh) (simp add: cb_core_def cb_layout_def cb_state_defs ChunkBuffer2_assert_buffer_def)

text \<open>Submitting a packet: the writer stores it at input_dest, then calls SubmitPacket.\<close>

definition cb_put :: "chunk_buffer2 \<Rightarrow> bytes \<Rightarrow> chunk_buffer2" where
  "cb_put b p = ChunkBuffer2_SubmitPacket
     (b\<lparr>cb_mem := write_at (cb_mem b) (the (cb_input_dest b)) p\<rparr>) (int (length p))"

text \<open>The buffer after SubmitPacket has written the header and advanced used and wrap.\<close>

definition cb_added :: "chunk_buffer2 \<Rightarrow> bytes \<Rightarrow> chunk_buffer2" where
  "cb_added b p =
     (let e = ChunkBuffer2_end b
      in b\<lparr>cb_mem := put_chunk (cb_mem b) e p, cb_used := cb_used b + blocks_of p,
           cb_wrap := (if cb_used b + blocks_of p \<le> cb_wrap b - cb_start b \<and>
                          cb_mtu b > cb_size b - (e + blocks_of p) - 1
                       then e + blocks_of p else cb_wrap b)\<rparr>)"

lemma cb_put_eq:
  assumes "cb_input_dest b = Some (nat (4 * (ChunkBuffer2_end b + 1)))"
  shows "cb_put b p = (let b' = ChunkBuffer2_update_input (cb_added b p)
    in if cb_used b = 0 then ChunkBuffer2_update_output b' else b')"
proof -
  have e: "ChunkBuffer2_end (b\<lparr>cb_mem := m\<rparr>) = ChunkBuffer2_end b" for m
    by (simp add: ChunkBuffer2_end_def)
  show ?thesis
    using assms by (auto simp: cb_put_def ChunkBuffer2_SubmitPacket_def cb_added_def e put_chunk_def
        blocks_of_def Let_def add.assoc)
qed

lemma cb_room:
  assumes "cb_rep b ps" "cb_input_dest b = Some d" "int (length p) \<le> cb_input_avail b"
  shows "d = nat (4 * (ChunkBuffer2_end b + 1))" "blocks_of p \<le> cb_free b"
    "int (length p) \<le> INT_MAX"
proof -
  have "cb_input_ok b" "cb_core b ps"
    using assms(1) by (auto simp: cb_rep_def assert_io_split)
  then have d: "d = nat (4 * (ChunkBuffer2_end b + 1))" "cb_free b > 0"
      "cb_input_avail b = (cb_free b - 1) * 4"
    using assms(2) by (auto simp: cb_input_ok_def split: if_splits)
  have "int (length p) \<le> 4 * (cb_free b - 1)"
    using assms(3) d(3) by simp
  then show "blocks_of p \<le> cb_free b"
    using bdivide_up_bounds [of "int (length p)"] by (simp add: blocks_of_def)
  have "cb_free b \<le> cb_size b" "4 * cb_size b \<le> INT_MAX"
    using \<open>cb_core b ps\<close> cb_end_bounds [OF \<open>cb_core b ps\<close>]
    by (auto simp: cb_core_def cb_free_def ChunkBuffer2_assert_buffer_def)
  with \<open>int (length p) \<le> 4 * (cb_free b - 1)\<close> show "int (length p) \<le> INT_MAX"
    by simp
  show "d = nat (4 * (ChunkBuffer2_end b + 1))"
    by (rule d(1))
qed

lemma cb_added_core_plain:
  assumes core: "cb_core b ps" and "\<not> cb_wrapped b" "blocks_of p \<le> cb_free b" "int (length p) \<le> INT_MAX"
  shows "cb_core (cb_added b p) (ps @ [p])"
proof -
  let ?e = "ChunkBuffer2_end b" and ?m = "cb_mem b"
  have e: "?e = cb_start b + cb_used b" "cb_wrap b = cb_size b" "0 \<le> cb_start b" "0 \<le> cb_used b" "0 \<le> cb_mtu b"
      "0 < cb_size b" "chunks ?m (cb_start b) ps ?e" "cb_mtu b \<le> cb_size b - ?e - 1"
      "int (length ?m) = 4 * cb_size b" "?e + blocks_of p \<le> cb_size b" "4 * cb_size b \<le> INT_MAX"
    using assms by (auto simp: cb_core_plain cb_free_def) (auto simp: cb_state_defs)
  have old: "chunks (put_chunk ?m ?e p) (cb_start b) ps ?e"
    using e by (intro chunks_put_before) auto
  have new: "chunks (put_chunk ?m ?e p) ?e [p] (?e + blocks_of p)"
    using e assms(4) by (intro put_chunk_chunk) auto
  have ch: "chunks (put_chunk ?m ?e p) (cb_start b) (ps @ [p]) (?e + blocks_of p)"
    using old new chunks_append by blast
  have len: "length (put_chunk ?m ?e p) = length ?m"
    using e by (intro put_chunk_length) auto
  note bl = blocks_of_bounds(1) [of p]
  show ?thesis
  proof (cases "cb_mtu b > cb_size b - (?e + blocks_of p) - 1")
    case True
    then have added: "cb_added b p = b\<lparr>cb_mem := put_chunk ?m ?e p, cb_used := cb_used b + blocks_of p,
        cb_wrap := ?e + blocks_of p\<rparr>"
      using e by (simp add: cb_added_def Let_def)
    then have "cb_wrapped (cb_added b p)"
      using e by (simp add: cb_wrapped_def)
    with e bl len old new True show ?thesis
      by (intro cb_core_wrappedI [where qs = ps and q = p and rs = "[]" and t = ?e])
        (simp_all add: added)
  next
    case False
    then have added: "cb_added b p = b\<lparr>cb_mem := put_chunk ?m ?e p, cb_used := cb_used b + blocks_of p\<rparr>"
      by (simp add: cb_added_def Let_def)
    then have "\<not> cb_wrapped (cb_added b p)"
      using e False by (simp add: cb_wrapped_def)
    with e bl len ch False show ?thesis
      by (auto simp: cb_core_plain added add.assoc)
  qed
qed

lemma cb_added_core_wrapped:
  assumes core: "cb_core b ps" and "cb_wrapped b" "blocks_of p \<le> cb_free b" "int (length p) \<le> INT_MAX"
  shows "cb_core (cb_added b p) (ps @ [p])"
proof -
  let ?e = "ChunkBuffer2_end b" and ?m = "cb_mem b"
  have e: "?e = cb_used b - (cb_wrap b - cb_start b)" "0 \<le> ?e" "?e + blocks_of p \<le> cb_start b"
    using assms(2,3) by (auto simp: cb_state_defs cb_free_def)
  from core assms(2) obtain qs q rs t where c: "ps = qs @ q # rs" "chunks ?m (cb_start b) qs t"
      "chunks ?m t [q] (cb_wrap b)" "cb_mtu b \<le> cb_size b - t - 1" "chunks ?m 0 rs ?e"
      "0 < cb_size b" "0 \<le> cb_start b" "0 \<le> cb_mtu b" "cb_start b < cb_wrap b" "cb_wrap b \<le> cb_size b"
      "cb_size b - cb_mtu b \<le> cb_wrap b" "cb_start b \<le> t"
      "int (length ?m) = 4 * cb_size b" "4 * cb_size b \<le> INT_MAX" "cb_used b \<le> cb_wrap b"
    unfolding e(1) by (rule cb_core_wrappedE)
  have t: "t < cb_wrap b"
    using chunks_less [OF c(3)] by simp
  have len: "length (put_chunk ?m ?e p) = length ?m"
    using c e by (intro put_chunk_length) auto
  have q: "chunks (put_chunk ?m ?e p) (cb_start b) qs t" "chunks (put_chunk ?m ?e p) t [q] (cb_wrap b)"
    using c e t chunks_put_after [OF c(2)] chunks_put_after [OF c(3)] by (auto simp del: chunks.simps)
  have "chunks (put_chunk ?m ?e p) 0 rs ?e"
    using c e by (intro chunks_put_before) auto
  moreover have "chunks (put_chunk ?m ?e p) ?e [p] (?e + blocks_of p)"
    using c e assms(4) by (intro put_chunk_chunk) auto
  ultimately have ch: "chunks (put_chunk ?m ?e p) 0 (rs @ [p]) (?e + blocks_of p)"
    using chunks_append by blast
  have added: "cb_added b p = b\<lparr>cb_mem := put_chunk ?m ?e p, cb_used := cb_used b + blocks_of p\<rparr>"
    using blocks_of_bounds(1) [of p] assms(2) by (auto simp: cb_added_def Let_def cb_wrapped_def)
  then have "cb_wrapped (cb_added b p)"
    using assms(2) blocks_of_bounds(1) [of p] by (simp add: cb_wrapped_def)
  moreover have eq: "?e + blocks_of p = cb_used b + blocks_of p - (cb_wrap b - cb_start b)"
    using e by simp
  ultimately show ?thesis
    using c e len ch [unfolded eq] q
    by (intro cb_core_wrappedI [where qs = qs and q = q and rs = "rs @ [p]" and t = t])
      (simp_all add: added)
qed

text \<open>SubmitPacket appends the packet to the queue.\<close>

lemma cb_put_rep:
  assumes rep: "cb_rep b ps" and "cb_input_dest b = Some d" "int (length p) \<le> cb_input_avail b"
  shows "cb_rep (cb_put b p) (ps @ [p])"
proof -
  have core: "cb_core b ps" and out: "cb_output_ok b"
    using rep by (auto simp: cb_rep_def assert_io_split)
  note room = cb_room [OF assms]
  let ?a = "cb_added b p" and ?i = "ChunkBuffer2_update_input (cb_added b p)"
  have a: "cb_core ?a (ps @ [p])"
    using cb_added_core_plain [OF core] cb_added_core_wrapped [OF core] room by blast
  then have i: "cb_core ?i (ps @ [p])"
    by (rule cb_core_cong) simp_all
  have put: "cb_put b p = (if cb_used b = 0 then ChunkBuffer2_update_output ?i else ?i)"
    using cb_put_eq room(1) assms(2) by (simp add: Let_def)
  show ?thesis
  proof (cases "ps")
    case Nil
    then have "cb_used b = 0"
      using cb_used_pos [OF core] core by (auto simp: cb_core_def ChunkBuffer2_assert_buffer_def)
    with put show ?thesis
      using cb_rep_refresh [OF a] by simp
  next
    case (Cons q qs)
    then have used: "cb_used b > 0"
      using cb_used_pos [OF core] by simp
    have "block_len (cb_mem ?i) (cb_start ?i) = int (length q)" "blocks_of q \<le> cb_used ?i"
        "blocks_of q \<le> cb_wrap ?i - cb_start ?i"
      using cb_first [of ?i q "qs @ [p]"] i Cons by simp_all
    moreover have "block_len (cb_mem b) (cb_start b) = int (length q)"
      using cb_first(1) [of b q qs] core Cons by simp
    moreover have "cb_start ?i = cb_start b" "cb_output_dest ?i = cb_output_dest b"
        "cb_output_avail ?i = cb_output_avail b" "cb_used ?i > 0"
      using used blocks_of_bounds(1) [of p] by (simp_all add: cb_added_def Let_def)
    ultimately have "cb_output_ok ?i"
      using out used by (simp add: cb_output_ok_def Let_def blocks_of_def)
    then have "cb_rep ?i (ps @ [p])"
      using i update_input_ok [OF a] by (simp add: cb_rep_def assert_io_split)
    with put used show ?thesis
      by simp
  qed
qed

text \<open>ConsumePacket removes the first packet.\<close>

definition cb_removed :: "chunk_buffer2 \<Rightarrow> int \<Rightarrow> chunk_buffer2" where
  "cb_removed b n =
     (if cb_start b + n = cb_wrap b then b\<lparr>cb_used := cb_used b - n, cb_start := 0, cb_wrap := cb_size b\<rparr>
      else b\<lparr>cb_start := cb_start b + n, cb_used := cb_used b - n\<rparr>)"

lemma cb_removed_fields [simp]:
  "cb_size (cb_removed b n) = cb_size b" "cb_mtu (cb_removed b n) = cb_mtu b"
  "cb_mem (cb_removed b n) = cb_mem b" "cb_input_dest (cb_removed b n) = cb_input_dest b"
  "cb_input_avail (cb_removed b n) = cb_input_avail b"
  by (simp_all add: cb_removed_def)

lemma consume_eq:
  assumes "block_len (cb_mem b) (cb_start b) = int (length p)"
  shows "ChunkBuffer2_ConsumePacket b = ChunkBuffer2_update_output
    (if cb_wrapped b then ChunkBuffer2_update_input (cb_removed b (blocks_of p))
     else cb_removed b (blocks_of p))"
  using assms by (simp add: ChunkBuffer2_ConsumePacket_def cb_removed_def blocks_of_def cb_wrapped_def Let_def)

lemma cb_removed_core_plain:
  assumes core: "cb_core b (p # ps)" and "\<not> cb_wrapped b"
  shows "cb_core (cb_removed b (blocks_of p)) ps" "\<not> cb_wrapped (cb_removed b (blocks_of p))"
    "ChunkBuffer2_end (cb_removed b (blocks_of p)) = ChunkBuffer2_end b"
proof -
  let ?n = "blocks_of p"
  note c = core [unfolded cb_core_plain [OF assms(2)]]
  have "?n \<le> cb_used b"
    using cb_first(3) [OF core] .
  then have rem: "cb_removed b ?n = b\<lparr>cb_start := cb_start b + ?n, cb_used := cb_used b - ?n\<rparr>"
    using assms(2) by (auto simp: cb_removed_def cb_wrapped_def)
  then show nw: "\<not> cb_wrapped (cb_removed b ?n)"
    using assms(2) by (simp add: cb_wrapped_def)
  show "ChunkBuffer2_end (cb_removed b ?n) = ChunkBuffer2_end b"
    using assms(2) nw by (simp add: cb_state_defs rem)
  show "cb_core (cb_removed b ?n) ps"
    unfolding cb_core_plain [OF nw] using c \<open>?n \<le> cb_used b\<close> blocks_of_bounds(1) [of p] by (simp add: rem)
qed

lemma cb_removed_core_wrapped:
  assumes core: "cb_core b (p # ps)" and w: "cb_wrapped b"
  shows "cb_core (cb_removed b (blocks_of p)) ps"
proof -
  let ?n = "blocks_of p" and ?e = "cb_used b - (cb_wrap b - cb_start b)" and ?m = "cb_mem b"
  from core w obtain qs q rs t where c: "p # ps = qs @ q # rs" "chunks ?m (cb_start b) qs t"
      "chunks ?m t [q] (cb_wrap b)" "cb_mtu b \<le> cb_size b - t - 1" "chunks ?m 0 rs ?e"
      "0 < cb_size b" "0 \<le> cb_start b" "0 \<le> cb_mtu b" "cb_start b < cb_wrap b" "cb_wrap b \<le> cb_size b"
      "cb_size b - cb_mtu b \<le> cb_wrap b" "cb_start b \<le> t"
      "int (length ?m) = 4 * cb_size b" "4 * cb_size b \<le> INT_MAX" "cb_used b \<le> cb_wrap b"
    by (rule cb_core_wrappedE)
  have t: "t < cb_wrap b"
    using chunks_less [OF c(3)] by simp
  show ?thesis
  proof (cases qs)
    case Nil
    then have p: "q = p" "rs = ps" "cb_start b + ?n = cb_wrap b"
      using c(1-3) by auto
    then have rem: "cb_removed b ?n = b\<lparr>cb_used := ?e, cb_start := 0, cb_wrap := cb_size b\<rparr>"
      by (simp add: cb_removed_def algebra_simps)
    have "?e \<le> cb_start b" "0 \<le> ?e"
      using c w by (auto simp: cb_wrapped_def)
    then have "\<not> cb_wrapped (cb_removed b ?n)"
      using c by (simp add: rem cb_wrapped_def)
    then show ?thesis
      using c p \<open>?e \<le> cb_start b\<close> \<open>0 \<le> ?e\<close> by (simp add: cb_core_plain rem)
  next
    case (Cons q' qs')
    then have p: "q' = p" "ps = qs' @ q # rs" "chunks ?m (cb_start b + ?n) qs' t"
      using c(1,2) by auto
    have n: "cb_start b + ?n \<le> t"
      using chunks_le [OF p(3)] .
    then have rem: "cb_removed b ?n = b\<lparr>cb_start := cb_start b + ?n, cb_used := cb_used b - ?n\<rparr>"
      using t by (auto simp: cb_removed_def)
    then have "cb_wrapped (cb_removed b ?n)"
      using w by (simp add: cb_wrapped_def)
    moreover have eq: "?e = cb_used b - ?n - (cb_wrap b - (cb_start b + ?n))"
      by simp
    ultimately show ?thesis
      using c(3,4) c(5) [unfolded eq] c(6-) p t n blocks_of_bounds(1) [of p]
      by (intro cb_core_wrappedI [where qs = qs' and q = q and rs = rs and t = t])
        (simp_all add: rem)
  qed
qed

lemma cb_consume_rep:
  assumes rep: "cb_rep b (p # ps)"
  shows "cb_rep (ChunkBuffer2_ConsumePacket b) ps"
proof -
  have core: "cb_core b (p # ps)" and inp: "cb_input_ok b"
    using rep by (auto simp: cb_rep_def assert_io_split)
  note eq = consume_eq [OF cb_first(1) [OF core]]
  let ?r = "cb_removed b (blocks_of p)"
  show ?thesis
  proof (cases "cb_wrapped b")
    case True
    then show ?thesis
      using cb_rep_refresh [OF cb_removed_core_wrapped [OF core]] by (simp add: eq)
  next
    case False
    note rem = cb_removed_core_plain [OF core False]
    have "cb_core (ChunkBuffer2_update_output ?r) ps"
      using rem(1) by (rule cb_core_cong) simp_all
    moreover have "cb_wrapped (ChunkBuffer2_update_output ?r) = cb_wrapped ?r"
        "ChunkBuffer2_end (ChunkBuffer2_update_output ?r) = ChunkBuffer2_end ?r"
      by (simp_all add: cb_state_defs)
    then have "cb_input_ok (ChunkBuffer2_update_output ?r)"
      using inp rem(2,3) False by (simp add: cb_input_ok_def cb_free_def)
    ultimately show ?thesis
      using update_output_ok [OF rem(1)] False by (simp add: eq cb_rep_def assert_io_split)
  qed
qed

text \<open>The reader's view: the first packet at output_dest.\<close>

lemma cb_output:
  assumes "cb_rep b (p # ps)"
  shows "\<exists>d. cb_output_dest b = Some d \<and> cb_output_avail b = int (length p) \<and>
    read_at (cb_mem b) d (length p) = p"
  using assms cb_first [of b p ps] cb_used_pos [of b "p # ps"]
  by (simp add: cb_rep_def assert_io_split cb_output_ok_def Let_def)

lemma cb_output_empty: "cb_rep b [] \<Longrightarrow> cb_output_dest b = None"
  using cb_used_pos [of b "[]"] by (simp add: cb_rep_def assert_io_split cb_output_ok_def)

text \<open>Room for an MTU packet: an empty buffer always has it.\<close>

definition cb_has_room :: "chunk_buffer2 \<Rightarrow> bool" where
  "cb_has_room b \<longleftrightarrow> cb_input_dest b \<noteq> None \<and> cb_input_avail b \<ge> 4 * cb_mtu b"

lemma cb_room_plain: "cb_rep b ps \<Longrightarrow> \<not> cb_wrapped b \<Longrightarrow> cb_has_room b"
  by (auto simp: cb_has_room_def cb_rep_def assert_io_split cb_core_plain cb_input_ok_def cb_free_def
      cb_state_defs)

lemma cb_empty_room:
  assumes "cb_rep b []"
  shows "cb_has_room b"
proof -
  have "\<not> cb_wrapped b"
    using assms by (auto simp: cb_rep_def elim: cb_core_wrappedE)
  with assms show ?thesis
    by (rule cb_room_plain)
qed

text \<open>The blocks in use are those of the packets.\<close>

lemma chunks_size: "chunks m s ps e \<Longrightarrow> e - s = (\<Sum>p\<leftarrow>ps. blocks_of p)"
  by (induction ps arbitrary: s) fastforce+

lemma cb_used_sum:
  assumes "cb_core b ps"
  shows "cb_used b = (\<Sum>p\<leftarrow>ps. blocks_of p)"
proof (cases "cb_wrapped b")
  case True
  with assms obtain qs q rs t where c: "ps = qs @ q # rs" "chunks (cb_mem b) (cb_start b) qs t"
      "chunks (cb_mem b) t [q] (cb_wrap b)" "chunks (cb_mem b) 0 rs (cb_used b - (cb_wrap b - cb_start b))"
    by (rule cb_core_wrappedE)
  then show ?thesis
    using chunks_size [OF c(2)] chunks_size [OF c(3)] chunks_size [OF c(4)] by simp
next
  case False
  with assms show ?thesis
    using chunks_size [of "cb_mem b" "cb_start b" ps "cb_start b + cb_used b"] by (simp add: cb_core_plain)
qed

lemma cb_room_small:
  assumes rep: "cb_rep b ps" and "(\<Sum>p\<leftarrow>ps. blocks_of p) + 2 * cb_mtu b < cb_size b"
  shows "cb_has_room b"
proof (cases "cb_wrapped b")
  case True
  have core: "cb_core b ps" and inp: "cb_input_ok b"
    using rep by (auto simp: cb_rep_def assert_io_split)
  have used: "cb_used b + 2 * cb_mtu b < cb_size b"
    using assms(2) cb_used_sum [OF core] by simp
  from core True have w: "cb_size b - cb_mtu b \<le> cb_wrap b" "0 \<le> cb_mtu b" "cb_start b < cb_wrap b"
      "cb_wrap b \<le> cb_size b" "cb_used b \<le> cb_wrap b"
    by (auto elim: cb_core_wrappedE)
  have free: "cb_free b = cb_wrap b - cb_used b"
    using True by (simp add: cb_free_def cb_state_defs)
  moreover have "cb_mtu b \<le> cb_size b - ChunkBuffer2_end b - 1"
    using core True by (elim cb_core_wrappedE) (auto simp: cb_state_defs)
  ultimately show ?thesis
    using inp w used by (auto simp: cb_has_room_def cb_input_ok_def)
qed (use rep cb_room_plain in blast)

section \<open>Pointers handed out stay valid\<close>

lemma cb_avail_dest: "cb_rep b ps \<Longrightarrow> 0 \<le> cb_input_avail b \<Longrightarrow> \<exists>d. cb_input_dest b = Some d"
  by (auto simp: cb_rep_def assert_io_split cb_input_ok_def split: if_splits)

lemma cb_output_avail_iff: "cb_rep b ps \<Longrightarrow> 0 \<le> cb_output_avail b \<longleftrightarrow> ps \<noteq> []"
proof (cases ps)
  case Nil
  moreover assume "cb_rep b ps"
  ultimately show ?thesis
    using cb_used_pos [of b "[]"] by (simp add: cb_rep_def assert_io_split cb_output_ok_def)
next
  case (Cons p qs)
  moreover assume "cb_rep b ps"
  ultimately show ?thesis
    using cb_output [of b p qs] by auto
qed

text \<open>Submitting a packet to a nonempty buffer leaves the reader's pointer alone.\<close>

lemma cb_put_output:
  assumes "cb_rep b (q # ps)" "cb_input_dest b = Some d" "int (length p) \<le> cb_input_avail b"
  shows "cb_output_dest (cb_put b p) = cb_output_dest b" "cb_output_avail (cb_put b p) = cb_output_avail b"
proof -
  have "cb_used b > 0"
    using assms(1) cb_used_pos [of b "q # ps"] by (simp add: cb_rep_def)
  moreover have "cb_put b p = (let b' = ChunkBuffer2_update_input (cb_added b p)
      in if cb_used b = 0 then ChunkBuffer2_update_output b' else b')"
    using cb_room(1) [OF assms] assms(2) by (intro cb_put_eq) simp
  ultimately show "cb_output_dest (cb_put b p) = cb_output_dest b"
      "cb_output_avail (cb_put b p) = cb_output_avail b"
    by (simp_all add: cb_added_def Let_def)
qed

text \<open>Consuming a packet leaves the writer's pointer alone, with no less room behind it.\<close>

lemma cb_removed_end:
  assumes core: "cb_core b (p # ps)" and w: "cb_wrapped b"
  shows "ChunkBuffer2_end (cb_removed b (blocks_of p)) = ChunkBuffer2_end b"
    "cb_free b \<le> cb_free (cb_removed b (blocks_of p))"
proof -
  let ?n = "blocks_of p"
  have n: "?n \<le> cb_wrap b - cb_start b" "1 \<le> ?n"
    using cb_first(4) [OF core] blocks_of_bounds(1) by auto
  have c: "0 \<le> cb_start b" "cb_start b < cb_wrap b" "cb_wrap b \<le> cb_size b" "cb_used b \<le> cb_wrap b"
    using core w by (auto elim: cb_core_wrappedE)
  have u: "cb_wrap b - cb_start b \<le> cb_used b"
    using w by (simp add: cb_wrapped_def)
  show "ChunkBuffer2_end (cb_removed b ?n) = ChunkBuffer2_end b"
    using n c u by (auto simp: ChunkBuffer2_end_def cb_removed_def)
  then show "cb_free b \<le> cb_free (cb_removed b ?n)"
    using n c u w by (auto simp: cb_free_def cb_wrapped_def cb_removed_def)
qed

lemma cb_consume_input:
  assumes rep: "cb_rep b (p # ps)" and d: "cb_input_dest b = Some d"
  shows "cb_input_dest (ChunkBuffer2_ConsumePacket b) = Some d"
    "cb_input_avail b \<le> cb_input_avail (ChunkBuffer2_ConsumePacket b)"
proof -
  have core: "cb_core b (p # ps)" and inp: "cb_input_ok b"
    using rep by (auto simp: cb_rep_def assert_io_split)
  note eq = consume_eq [OF cb_first(1) [OF core]]
  let ?r = "cb_removed b (blocks_of p)"
  have "cb_input_dest (ChunkBuffer2_ConsumePacket b) = Some d \<and>
    cb_input_avail b \<le> cb_input_avail (ChunkBuffer2_ConsumePacket b)"
  proof (cases "cb_wrapped b")
    case True
    let ?i = "ChunkBuffer2_update_input ?r"
    have ok: "cb_input_ok ?i"
      by (rule update_input_ok [OF cb_removed_core_wrapped [OF core True]])
    have "ChunkBuffer2_end ?i = ChunkBuffer2_end b" "cb_free b \<le> cb_free ?i"
      using cb_removed_end [OF core True] by simp_all
    then show ?thesis
      using ok inp d True by (auto simp: eq cb_input_ok_def split: if_splits)
  next
    case False
    then show ?thesis
      using d by (simp add: eq)
  qed
  then show "cb_input_dest (ChunkBuffer2_ConsumePacket b) = Some d"
    "cb_input_avail b \<le> cb_input_avail (ChunkBuffer2_ConsumePacket b)"
    by auto
qed

section \<open>The queue interface\<close>

text \<open>What the users of a packet queue rely on: a packet that fits is appended, and the reader sees and removes
  the first packet.\<close>

datatype fifo_op = Fifo_put bytes | Fifo_take

fun fifo_run :: "('q \<Rightarrow> bytes \<Rightarrow> bool) \<Rightarrow> ('q \<Rightarrow> bytes \<Rightarrow> 'q) \<Rightarrow> ('q \<Rightarrow> bytes option) \<Rightarrow> ('q \<Rightarrow> 'q) \<Rightarrow>
    fifo_op list \<Rightarrow> 'q \<Rightarrow> bytes list \<times> bytes list \<times> 'q" where
  "fifo_run fits put out tk [] q = ([], [], q)"
| "fifo_run fits put out tk (Fifo_put p # ops) q =
     (if fits q p
      then let (acc, got, q') = fifo_run fits put out tk ops (put q p) in (p # acc, got, q')
      else fifo_run fits put out tk ops q)"
| "fifo_run fits put out tk (Fifo_take # ops) q =
     (case out q of
        None \<Rightarrow> fifo_run fits put out tk ops q
      | Some p \<Rightarrow> let (acc, got, q') = fifo_run fits put out tk ops (tk q) in (acc, p # got, q'))"

locale packet_fifo =
  fixes rep :: "'q \<Rightarrow> bytes list \<Rightarrow> bool"
    and fits :: "'q \<Rightarrow> bytes \<Rightarrow> bool"
    and put :: "'q \<Rightarrow> bytes \<Rightarrow> 'q"
    and out :: "'q \<Rightarrow> bytes option"
    and tk :: "'q \<Rightarrow> 'q"
  assumes rep_put: "rep q ps \<Longrightarrow> fits q p \<Longrightarrow> rep (put q p) (ps @ [p])"
    and rep_take: "rep q (p # ps) \<Longrightarrow> rep (tk q) ps"
    and out_first: "rep q (p # ps) \<Longrightarrow> out q = Some p"
    and out_empty: "rep q [] \<Longrightarrow> out q = None"
begin

lemma out_cases: "rep q ps \<Longrightarrow> out q = (case ps of [] \<Rightarrow> None | p # _ \<Rightarrow> Some p)"
  by (cases ps) (auto simp: out_first out_empty)

text \<open>Whatever is done with the queue, the packets taken out are the packets put in, in order.\<close>

lemma fifo_order:
  assumes "rep q ps" "fifo_run fits put out tk ops q = (acc, got, q')"
  shows "\<exists>rest. ps @ acc = got @ rest \<and> rep q' rest"
  using assms
proof (induction ops arbitrary: q ps acc got)
  case (Cons op ops)
  show ?case
  proof (cases op)
    case (Fifo_put p)
    show ?thesis
    proof (cases "fits q p")
      case True
      with Cons.prems Fifo_put obtain acc' where
        acc: "acc = p # acc'" "fifo_run fits put out tk ops (put q p) = (acc', got, q')"
        by (auto simp: Let_def split: prod.splits)
      show ?thesis
        using Cons.IH [OF rep_put [OF Cons.prems(1) True] acc(2)] acc(1) by simp
    qed (use Cons Fifo_put in simp)
  next
    case Fifo_take
    show ?thesis
    proof (cases ps)
      case Nil
      then show ?thesis
        using Cons.IH [of q "[]" acc got] Cons.prems Fifo_take out_empty [of q] by simp
    next
      case (Cons p ps')
      then obtain got' where
        got: "got = p # got'" "fifo_run fits put out tk ops (tk q) = (acc, got', q')"
        using Cons.prems Fifo_take out_first [of q p ps'] \<open>rep q ps\<close>
          \<open>fifo_run fits put out tk (op # ops) q = (acc, got, q')\<close>
        by (auto simp: Let_def split: prod.splits)
      then show ?thesis
        using Cons.IH [of "tk q" ps' acc got'] rep_take \<open>rep q ps\<close> Cons by auto
    qed
  qed
qed auto

end

text \<open>A writer may submit a packet when input_dest is not NULL and the packet is not longer than
  input_avail; the reader looks at output_dest and output_avail.\<close>

definition cb_fits :: "chunk_buffer2 \<Rightarrow> bytes \<Rightarrow> bool" where
  "cb_fits b p \<longleftrightarrow> cb_input_dest b \<noteq> None \<and> int (length p) \<le> cb_input_avail b"

definition cb_out :: "chunk_buffer2 \<Rightarrow> bytes option" where
  "cb_out b = (case cb_output_dest b of None \<Rightarrow> None
     | Some d \<Rightarrow> Some (read_at (cb_mem b) d (nat (cb_output_avail b))))"

interpretation cb: packet_fifo cb_rep cb_fits cb_put cb_out ChunkBuffer2_ConsumePacket
proof
  show "cb_rep (cb_put b p) (ps @ [p])" if "cb_rep b ps" "cb_fits b p" for b ps p
    using that cb_put_rep by (auto simp: cb_fits_def)
  show "cb_rep (ChunkBuffer2_ConsumePacket b) ps" if "cb_rep b (p # ps)" for b p ps
    using that by (rule cb_consume_rep)
  show "cb_out b = Some p" if "cb_rep b (p # ps)" for b p ps
    using cb_output [OF that] by (auto simp: cb_out_def)
  show "cb_out b = None" if "cb_rep b []" for b
    using cb_output_empty [OF that] by (simp add: cb_out_def)
qed

section \<open>Order and capacity\<close>

lemma cb_put_fields [simp]: "cb_size (cb_put b p) = cb_size b" "cb_mtu (cb_put b p) = cb_mtu b"
  by (simp_all add: cb_put_def ChunkBuffer2_SubmitPacket_def Let_def)

lemma cb_consume_fields [simp]:
  "cb_size (ChunkBuffer2_ConsumePacket b) = cb_size b" "cb_mtu (ChunkBuffer2_ConsumePacket b) = cb_mtu b"
  by (simp_all add: ChunkBuffer2_ConsumePacket_def Let_def)

definition cb_run :: "fifo_op list \<Rightarrow> chunk_buffer2 \<Rightarrow> bytes list \<times> bytes list \<times> chunk_buffer2" where
  "cb_run = fifo_run cb_fits cb_put cb_out ChunkBuffer2_ConsumePacket"

lemma cb_run_fields:
  "cb_run ops b = (acc, got, b') \<Longrightarrow> cb_size b' = cb_size b \<and> cb_mtu b' = cb_mtu b"
  unfolding cb_run_def
proof (induction ops arbitrary: b acc got)
  case (Cons op ops)
  then show ?case
    by (cases op) (fastforce simp: Let_def split: if_splits prod.splits option.splits)+
qed simp

lemma Init_fields [simp]:
  "cb_size (ChunkBuffer2_Init m blocks mtu) = blocks"
  "cb_mtu (ChunkBuffer2_Init m blocks mtu) = bdivide_up mtu 4"
  by (simp_all add: ChunkBuffer2_Init_def Let_def)

lemma bdivide_up_mono: "0 \<le> a \<Longrightarrow> a \<le> b \<Longrightarrow> bdivide_up a 4 \<le> bdivide_up b 4"
  using bdivide_up_bounds [of a] bdivide_up_bounds [of b] by linarith

lemma calc_blocks_eq:
  assumes "ChunkBuffer2_calc_blocks n num \<noteq> -1"
  shows "ChunkBuffer2_calc_blocks n num = (1 + bdivide_up n 4) * (num + 1)"
  using assms by (auto simp: ChunkBuffer2_calc_blocks_def Let_def split: if_splits)

lemma sum_blocks_le:
  assumes "\<forall>p \<in> set ps. int (length p) \<le> n" "0 \<le> n"
  shows "(\<Sum>p\<leftarrow>ps. blocks_of p) \<le> int (length ps) * (1 + bdivide_up n 4)"
  using assms(1)
proof (induction ps)
  case (Cons p ps)
  then have "blocks_of p \<le> 1 + bdivide_up n 4"
    using bdivide_up_mono [of "int (length p)" n] by (simp add: blocks_of_def)
  with Cons show ?case
    by (simp add: algebra_simps)
qed simp

text \<open>A buffer sized by ChunkBuffer2_calc_blocks has room for an MTU packet as long as it holds fewer than the
  requested number of packets.\<close>

lemma calc_blocks_room:
  assumes "0 \<le> mtu" "ChunkBuffer2_calc_blocks mtu num \<noteq> -1"
    and "cb_size b = ChunkBuffer2_calc_blocks mtu num" "cb_mtu b = bdivide_up mtu 4"
    and "cb_rep b ps" "\<forall>p \<in> set ps. int (length p) \<le> mtu" "int (length ps) < num"
  shows "cb_has_room b"
proof (rule cb_room_small [OF assms(5)])
  let ?c = "1 + bdivide_up mtu 4"
  have c: "1 \<le> ?c"
    using bdivide_up_bounds [OF assms(1)] by simp
  have "int (length ps) * ?c \<le> (num - 1) * ?c"
    using assms(7) c by (intro mult_right_mono) auto
  then have "(\<Sum>p\<leftarrow>ps. blocks_of p) + 2 * ?c \<le> (num + 1) * ?c"
    using sum_blocks_le [OF assms(6,1)] by (simp add: algebra_simps)
  then show "(\<Sum>p\<leftarrow>ps. blocks_of p) + 2 * cb_mtu b < cb_size b"
    using calc_blocks_eq [OF assms(2)] assms(3,4) by (simp add: mult.commute)
qed

text \<open>C10: Initialise a ChunkBuffer2 with the block count ChunkBuffer2_calc_blocks gives for an MTU and a number of
  packets, at most INT_MAX bytes, and submit and consume packets in any order.  The buffer and pointer
  assertions of the code hold at the end, the packets taken out followed by those still held are
  exactly the packets accepted, in order and byte for byte, and while fewer packets than requested are
  held (packets no longer than the MTU) the writer is offered room for an MTU packet.\<close>
theorem chunk_buffer_is_fifo:
  assumes "0 \<le> mtu" "1 \<le> num" "ChunkBuffer2_calc_blocks mtu num = blocks" "blocks \<noteq> -1"
    and "4 * blocks \<le> INT_MAX" "int (length m) = 4 * blocks"
    and "cb_run ops (ChunkBuffer2_Init m blocks mtu) = (acc, got, b)"
  shows "ChunkBuffer2_assert_buffer b \<and> ChunkBuffer2_assert_io b \<and>
    (\<exists>rest. acc = got @ rest \<and> cb_rep b rest \<and>
       (int (length rest) < num \<and> (\<forall>p \<in> set acc. int (length p) \<le> mtu) \<longrightarrow>
          cb_input_dest b \<noteq> None \<and> mtu \<le> cb_input_avail b))"
proof -
  have pos: "0 \<le> bdivide_up mtu 4" "mtu \<le> 4 * bdivide_up mtu 4"
    using bdivide_up_bounds [OF assms(1)] by auto
  have blocks: "blocks = (1 + bdivide_up mtu 4) * (num + 1)"
    using assms(3,4) calc_blocks_eq by blast
  have "bdivide_up mtu 4 * 1 \<le> bdivide_up mtu 4 * (num + 1)"
    using pos assms(2) by (intro mult_left_mono) auto
  then have "bdivide_up mtu 4 < blocks"
    using assms(2) by (simp add: blocks algebra_simps)
  then have "cb_rep (ChunkBuffer2_Init m blocks mtu) []"
    using assms by (intro ChunkBuffer2_Init_rep) auto
  then obtain rest where rest: "acc = got @ rest" "cb_rep b rest"
    using cb.fifo_order [of _ "[]" ops acc got b] assms(7) by (auto simp: cb_run_def)
  have "cb_size b = blocks" "cb_mtu b = bdivide_up mtu 4"
    using cb_run_fields [OF assms(7)] by auto
  then have "cb_has_room b" if "int (length rest) < num" "\<forall>p \<in> set acc. int (length p) \<le> mtu"
    using calc_blocks_room [of mtu num b rest] assms rest that by simp
  then show ?thesis
    using rest pos \<open>cb_mtu b = bdivide_up mtu 4\<close>
    by (auto simp: cb_rep_def cb_core_def cb_has_room_def)
qed

theorem chunk_buffer_is_fifo_witness:
  "let (acc, got, b) = cb_run [Fifo_put [1, 2], Fifo_put [3], Fifo_take] (ChunkBuffer2_Init (replicate 24 0) 6 5)
   in ChunkBuffer2_assert_io b \<and> (\<exists>rest. acc = got @ rest \<and> cb_rep b rest)"
proof -
  obtain acc got b where run:
      "cb_run [Fifo_put [1, 2], Fifo_put [3], Fifo_take] (ChunkBuffer2_Init (replicate 24 0) 6 5) = (acc, got, b)"
    by (metis prod_cases3)
  moreover have "ChunkBuffer2_assert_io b \<and> (\<exists>rest. acc = got @ rest \<and> cb_rep b rest)"
    using chunk_buffer_is_fifo [of 5 1 6 "replicate 24 0", OF _ _ _ _ _ _ run]
    by (auto simp: ChunkBuffer2_calc_blocks_def bdivide_up_def INT_MAX_def)
  ultimately show ?thesis
    by simp
qed

text \<open>The bound of INT_MAX bytes is needed: ChunkBuffer2_calc_blocks only keeps the number of blocks within an int,
  while input_avail counts bytes.\<close>

lemma input_avail_overflow:
  "ChunkBuffer2_calc_blocks 4 536870911 = 1073741824 \<and>
   cb_input_avail (ChunkBuffer2_Init m 1073741824 4) = -4"
  by (simp add: ChunkBuffer2_calc_blocks_def bdivide_up_def INT_MAX_def ChunkBuffer2_Init_def
      ChunkBuffer2_update_input_def ChunkBuffer2_end_def to_int_def)

end
