(* ===== verification/Linked_Lists.thy ===== *)
theory Linked_Lists
  imports Prelude
begin

text \<open>
  Pointer-level models of the intrusive linked lists: structure/LinkedList1.h (doubly linked, used
  for the clients of tun2socks.c, the connections of UdpGwClient.c and the flows of
  PacketPassFairQueue.c) and structure/SLinkedList_impl.h (used for the job list of
  base/BPending.c).

  A node is identified by its address, a natural number; NULL is None.  The p and n fields of
  all nodes are two functions on addresses, so an operation that writes through a pointer is a function
  update.  \<open>seg p n a xs z\<close> says that the addresses \<open>xs\<close> are linked in this order, entered
  from \<open>a\<close> and left to \<open>z\<close>; \<open>l1_rep\<close> and \<open>sl_rep\<close> say that a list object
  represents the list \<open>xs\<close>.  Every operation is shown to implement the list operation its
  callers rely on.
\<close>

type_synonym addr = nat

section \<open>structure/LinkedList1.h\<close>

record linked_list1 =
  l1_first :: "addr option"
  l1_last :: "addr option"
  l1_p :: "addr \<Rightarrow> addr option"
  l1_n :: "addr \<Rightarrow> addr option"

definition LinkedList1_Init :: "linked_list1 \<Rightarrow> linked_list1" where
  "LinkedList1_Init l = l\<lparr>l1_first := None, l1_last := None\<rparr>"

definition LinkedList1_IsEmpty :: "linked_list1 \<Rightarrow> bool" where
  "LinkedList1_IsEmpty l \<longleftrightarrow> l1_first l = None"

definition LinkedList1_GetFirst :: "linked_list1 \<Rightarrow> addr option" where
  "LinkedList1_GetFirst l = l1_first l"

definition LinkedList1_GetLast :: "linked_list1 \<Rightarrow> addr option" where
  "LinkedList1_GetLast l = l1_last l"

definition LinkedList1_Prepend :: "linked_list1 \<Rightarrow> addr \<Rightarrow> linked_list1" where
  "LinkedList1_Prepend l node =
     (let l = l\<lparr>l1_p := (l1_p l)(node := None)\<rparr>;
          l = l\<lparr>l1_n := (l1_n l)(node := l1_first l)\<rparr>;
          l = (case l1_first l of
                 Some f \<Rightarrow> l\<lparr>l1_p := (l1_p l)(f := Some node)\<rparr>
               | None \<Rightarrow> l\<lparr>l1_last := Some node\<rparr>)
      in l\<lparr>l1_first := Some node\<rparr>)"

definition LinkedList1_Append :: "linked_list1 \<Rightarrow> addr \<Rightarrow> linked_list1" where
  "LinkedList1_Append l node =
     (let l = l\<lparr>l1_p := (l1_p l)(node := l1_last l)\<rparr>;
          l = l\<lparr>l1_n := (l1_n l)(node := None)\<rparr>;
          l = (case l1_last l of
                 Some t \<Rightarrow> l\<lparr>l1_n := (l1_n l)(t := Some node)\<rparr>
               | None \<Rightarrow> l\<lparr>l1_first := Some node\<rparr>)
      in l\<lparr>l1_last := Some node\<rparr>)"

definition LinkedList1_InsertBefore :: "linked_list1 \<Rightarrow> addr \<Rightarrow> addr \<Rightarrow> linked_list1" where
  "LinkedList1_InsertBefore l node target =
     (let l = l\<lparr>l1_p := (l1_p l)(node := l1_p l target)\<rparr>;
          l = l\<lparr>l1_n := (l1_n l)(node := Some target)\<rparr>;
          l = (case l1_p l target of
                 Some q \<Rightarrow> l\<lparr>l1_n := (l1_n l)(q := Some node)\<rparr>
               | None \<Rightarrow> l\<lparr>l1_first := Some node\<rparr>)
      in l\<lparr>l1_p := (l1_p l)(target := Some node)\<rparr>)"

definition LinkedList1_InsertAfter :: "linked_list1 \<Rightarrow> addr \<Rightarrow> addr \<Rightarrow> linked_list1" where
  "LinkedList1_InsertAfter l node target =
     (let l = l\<lparr>l1_p := (l1_p l)(node := Some target)\<rparr>;
          l = l\<lparr>l1_n := (l1_n l)(node := l1_n l target)\<rparr>;
          l = (case l1_n l target of
                 Some q \<Rightarrow> l\<lparr>l1_p := (l1_p l)(q := Some node)\<rparr>
               | None \<Rightarrow> l\<lparr>l1_last := Some node\<rparr>)
      in l\<lparr>l1_n := (l1_n l)(target := Some node)\<rparr>)"

definition LinkedList1_Remove :: "linked_list1 \<Rightarrow> addr \<Rightarrow> linked_list1" where
  "LinkedList1_Remove l node =
     (let l = (case l1_p l node of
                 Some q \<Rightarrow> l\<lparr>l1_n := (l1_n l)(q := l1_n l node)\<rparr>
               | None \<Rightarrow> l\<lparr>l1_first := l1_n l node\<rparr>)
      in case l1_n l node of
           Some q \<Rightarrow> l\<lparr>l1_p := (l1_p l)(q := l1_p l node)\<rparr>
         | None \<Rightarrow> l\<lparr>l1_last := l1_p l node\<rparr>)"

definition LinkedList1_InsertListAfter ::
    "linked_list1 \<Rightarrow> addr option \<Rightarrow> addr option \<Rightarrow> addr option \<Rightarrow> linked_list1" where
  "LinkedList1_InsertListAfter l ins_first ins_last target =
     (case ins_first of
        None \<Rightarrow> l
      | Some f \<Rightarrow>
          let t_next = (case target of Some t \<Rightarrow> l1_n l t | None \<Rightarrow> l1_first l);
              l = l\<lparr>l1_p := (l1_p l)(f := target)\<rparr>;
              l = l\<lparr>l1_n := (l1_n l)(the ins_last := t_next)\<rparr>;
              l = (case target of
                     Some t \<Rightarrow> l\<lparr>l1_n := (l1_n l)(t := ins_first)\<rparr>
                   | None \<Rightarrow> l\<lparr>l1_first := ins_first\<rparr>)
          in case t_next of
               Some q \<Rightarrow> l\<lparr>l1_p := (l1_p l)(q := ins_last)\<rparr>
             | None \<Rightarrow> l\<lparr>l1_last := ins_last\<rparr>)"

definition LinkedList1Node_Next :: "linked_list1 \<Rightarrow> addr \<Rightarrow> addr option" where
  "LinkedList1Node_Next l node = l1_n l node"

definition LinkedList1Node_Prev :: "linked_list1 \<Rightarrow> addr \<Rightarrow> addr option" where
  "LinkedList1Node_Prev l node = l1_p l node"

section \<open>structure/SLinkedList_impl.h\<close>

text \<open>
  The parameter \<open>fl\<close> is the preprocessor constant SLINKEDLIST_PARAM_FEATURE_LAST.  The prev
  field of the first entry is never set.
\<close>

record slinked_list =
  sl_first :: "addr option"
  sl_last :: "addr option"
  sl_next :: "addr \<Rightarrow> addr option"
  sl_prev :: "addr \<Rightarrow> addr option"

definition SLinkedListMarkRemoved :: "slinked_list \<Rightarrow> addr \<Rightarrow> slinked_list" where
  "SLinkedListMarkRemoved l entry = l\<lparr>sl_next := (sl_next l)(entry := Some entry)\<rparr>"

definition SLinkedListIsRemoved :: "slinked_list \<Rightarrow> addr \<Rightarrow> bool" where
  "SLinkedListIsRemoved l entry \<longleftrightarrow> Some entry = sl_next l entry"

definition SLinkedList_Init :: "slinked_list \<Rightarrow> slinked_list" where
  "SLinkedList_Init l = l\<lparr>sl_first := None\<rparr>"

definition SLinkedList_Next :: "slinked_list \<Rightarrow> addr \<Rightarrow> addr option" where
  "SLinkedList_Next l entry = sl_next l entry"

definition SLinkedList_Prev :: "slinked_list \<Rightarrow> addr \<Rightarrow> addr option" where
  "SLinkedList_Prev l entry = (if Some entry = sl_first l then None else sl_prev l entry)"

definition SLinkedList_Prepend :: "bool \<Rightarrow> slinked_list \<Rightarrow> addr \<Rightarrow> slinked_list" where
  "SLinkedList_Prepend fl l entry =
     (let l = l\<lparr>sl_next := (sl_next l)(entry := sl_first l)\<rparr>;
          l = (case sl_first l of
                 Some f \<Rightarrow> l\<lparr>sl_prev := (sl_prev l)(f := Some entry)\<rparr>
               | None \<Rightarrow> if fl then l\<lparr>sl_last := Some entry\<rparr> else l)
      in l\<lparr>sl_first := Some entry\<rparr>)"

definition SLinkedList_Append :: "slinked_list \<Rightarrow> addr \<Rightarrow> slinked_list" where
  "SLinkedList_Append l entry =
     (let l = l\<lparr>sl_next := (sl_next l)(entry := None)\<rparr>;
          l = (case sl_first l of
                 Some f \<Rightarrow>
                   let l = l\<lparr>sl_prev := (sl_prev l)(entry := sl_last l)\<rparr>
                   in l\<lparr>sl_next := (sl_next l)(the (sl_last l) := Some entry)\<rparr>
               | None \<Rightarrow> l\<lparr>sl_first := Some entry\<rparr>)
      in l\<lparr>sl_last := Some entry\<rparr>)"

definition SLinkedList_InsertBefore :: "slinked_list \<Rightarrow> addr \<Rightarrow> addr \<Rightarrow> slinked_list" where
  "SLinkedList_InsertBefore l entry before_entry =
     (let l = l\<lparr>sl_next := (sl_next l)(entry := Some before_entry)\<rparr>;
          l = (if Some before_entry \<noteq> sl_first l
               then let l = l\<lparr>sl_prev := (sl_prev l)(entry := sl_prev l before_entry)\<rparr>
                    in l\<lparr>sl_next := (sl_next l)(the (sl_prev l before_entry) := Some entry)\<rparr>
               else l\<lparr>sl_first := Some entry\<rparr>)
      in l\<lparr>sl_prev := (sl_prev l)(before_entry := Some entry)\<rparr>)"

definition SLinkedList_InsertAfter ::
    "bool \<Rightarrow> slinked_list \<Rightarrow> addr \<Rightarrow> addr \<Rightarrow> slinked_list" where
  "SLinkedList_InsertAfter fl l entry after_entry =
     (let l = l\<lparr>sl_next := (sl_next l)(entry := sl_next l after_entry)\<rparr>;
          l = l\<lparr>sl_prev := (sl_prev l)(entry := Some after_entry)\<rparr>;
          l = (case sl_next l after_entry of
                 Some q \<Rightarrow> l\<lparr>sl_prev := (sl_prev l)(q := Some entry)\<rparr>
               | None \<Rightarrow> if fl then l\<lparr>sl_last := Some entry\<rparr> else l)
      in l\<lparr>sl_next := (sl_next l)(after_entry := Some entry)\<rparr>)"

definition SLinkedList_Remove :: "bool \<Rightarrow> slinked_list \<Rightarrow> addr \<Rightarrow> slinked_list" where
  "SLinkedList_Remove fl l entry =
     (if Some entry \<noteq> sl_first l
      then let l = l\<lparr>sl_next := (sl_next l)(the (sl_prev l entry) := sl_next l entry)\<rparr>
           in case sl_next l entry of
                Some q \<Rightarrow> l\<lparr>sl_prev := (sl_prev l)(q := sl_prev l entry)\<rparr>
              | None \<Rightarrow> if fl then l\<lparr>sl_last := sl_prev l entry\<rparr> else l
      else l\<lparr>sl_first := sl_next l entry\<rparr>)"

definition SLinkedList_RemoveFirst :: "slinked_list \<Rightarrow> slinked_list" where
  "SLinkedList_RemoveFirst l = l\<lparr>sl_first := sl_next l (the (sl_first l))\<rparr>"

definition SLinkedList_RemoveLast :: "slinked_list \<Rightarrow> slinked_list" where
  "SLinkedList_RemoveLast l =
     (if sl_last l = sl_first l then l\<lparr>sl_first := None\<rparr>
      else let l = l\<lparr>sl_next := (sl_next l)(the (sl_prev l (the (sl_last l))) := None)\<rparr>
           in l\<lparr>sl_last := sl_prev l (the (sl_last l))\<rparr>)"

definition SLinkedList_First :: "slinked_list \<Rightarrow> addr option" where
  "SLinkedList_First l = sl_first l"

definition SLinkedList_Last :: "slinked_list \<Rightarrow> addr option" where
  "SLinkedList_Last l = (if sl_first l = None then None else sl_last l)"

definition SLinkedList_IsEmpty :: "slinked_list \<Rightarrow> bool" where
  "SLinkedList_IsEmpty l \<longleftrightarrow> sl_first l = None"

section \<open>Chains of nodes\<close>

definition hd_or :: "addr list \<Rightarrow> addr option \<Rightarrow> addr option" where
  "hd_or xs z = (case xs of [] \<Rightarrow> z | x # _ \<Rightarrow> Some x)"

definition last_or :: "addr option \<Rightarrow> addr list \<Rightarrow> addr option" where
  "last_or a xs = (if xs = [] then a else Some (last xs))"

fun seg :: "(addr \<Rightarrow> addr option) \<Rightarrow> (addr \<Rightarrow> addr option) \<Rightarrow> addr option \<Rightarrow> addr list \<Rightarrow>
    addr option \<Rightarrow> bool" where
  "seg p n a [] z = True"
| "seg p n a (x # xs) z = (p x = a \<and> n x = hd_or xs z \<and> seg p n (Some x) xs z)"

lemma hd_or_simps [simp]: "hd_or [] z = z" "hd_or (x # xs) z = Some x"
  by (simp_all add: hd_or_def)

lemma last_or_simps [simp]: "last_or a [] = a" "last_or a (xs @ [x]) = Some x"
  by (simp_all add: last_or_def)

lemma last_or_Cons [simp]: "last_or a (x # xs) = last_or (Some x) xs"
  by (simp add: last_or_def)

lemma hd_or_append [simp]: "hd_or (xs @ ys) z = hd_or xs (hd_or ys z)"
  by (cases xs) simp_all

lemma last_or_append [simp]: "last_or a (xs @ ys) = last_or (last_or a xs) ys"
  by (simp add: last_or_def)

lemma seg_append [simp]:
  "seg p n a (xs @ ys) z \<longleftrightarrow> seg p n a xs (hd_or ys z) \<and> seg p n (last_or a xs) ys z"
  by (induction xs arbitrary: a) auto

lemma seg_upd_p [simp]: "x \<notin> set xs \<Longrightarrow> seg (p(x := v)) n a xs z = seg p n a xs z"
  by (induction xs arbitrary: a) auto

lemma seg_upd_n [simp]: "x \<notin> set xs \<Longrightarrow> seg p (n(x := v)) a xs z = seg p n a xs z"
  by (induction xs arbitrary: a) auto

text \<open>Redirecting the entry of a chain is a write to the p field of its first node, and
  redirecting its exit a write to the n field of its last node.\<close>

lemma seg_set_entry:
  "distinct xs \<Longrightarrow> seg p n a xs z \<Longrightarrow> hd_or xs None = Some x \<Longrightarrow> seg (p(x := b)) n b xs z"
  by (cases xs) auto

lemma seg_set_exit:
  "distinct xs \<Longrightarrow> seg p n a xs z \<Longrightarrow> last_or None xs = Some x \<Longrightarrow> seg p (n(x := y)) a xs y"
  by (cases xs rule: rev_cases) auto

lemma hd_or_None [simp]: "hd_or xs None = None \<longleftrightarrow> xs = []"
  by (cases xs) auto

lemma last_or_None [simp]: "last_or None xs = None \<longleftrightarrow> xs = []"
  by (simp add: last_or_def)

lemma hd_or_Some_in: "hd_or xs None = Some x \<Longrightarrow> x \<in> set xs"
  by (cases xs) auto

lemma last_or_Some_in: "last_or None xs = Some x \<Longrightarrow> x \<in> set xs"
  by (auto simp: last_or_def split: if_splits)

lemma hd_or_Some_conv: "hd_or xs (Some y) = Some (hd (xs @ [y]))"
  by (cases xs) auto

lemma hd_or_neq [simp]: "x \<notin> set xs \<Longrightarrow> x \<noteq> y \<Longrightarrow> hd_or xs (Some y) \<noteq> Some x"
  by (cases xs) auto

lemma hd_or_neq' [simp]: "x \<notin> set xs \<Longrightarrow> x \<noteq> y \<Longrightarrow> Some x \<noteq> hd_or xs (Some y)"
  by (cases xs) auto

lemma last_or_ne [simp]: "xs \<noteq> [] \<Longrightarrow> last_or (Some a) xs = last_or None xs"
  by (simp add: last_or_def)

section \<open>LinkedList1 implements lists\<close>

definition l1_rep :: "linked_list1 \<Rightarrow> addr list \<Rightarrow> bool" where
  "l1_rep l xs \<longleftrightarrow> distinct xs \<and> l1_first l = hd_or xs None \<and> l1_last l = last_or None xs \<and>
     seg (l1_p l) (l1_n l) None xs None"

lemma LinkedList1_Init_rep: "l1_rep (LinkedList1_Init l) []"
  by (simp add: l1_rep_def LinkedList1_Init_def)

lemma LinkedList1_IsEmpty_rep: "l1_rep l xs \<Longrightarrow> LinkedList1_IsEmpty l \<longleftrightarrow> xs = []"
  by (simp add: l1_rep_def LinkedList1_IsEmpty_def)

lemma LinkedList1_GetFirst_rep: "l1_rep l xs \<Longrightarrow> LinkedList1_GetFirst l = hd_or xs None"
  by (simp add: l1_rep_def LinkedList1_GetFirst_def)

lemma LinkedList1_Prepend_rep:
  "l1_rep l xs \<Longrightarrow> x \<notin> set xs \<Longrightarrow> l1_rep (LinkedList1_Prepend l x) (x # xs)"
  by (cases xs) (auto simp: l1_rep_def LinkedList1_Prepend_def)

lemma LinkedList1_Append_rep:
  "l1_rep l xs \<Longrightarrow> x \<notin> set xs \<Longrightarrow> l1_rep (LinkedList1_Append l x) (xs @ [x])"
  by (cases xs rule: rev_cases) (auto simp: l1_rep_def LinkedList1_Append_def)

lemma LinkedList1_InsertBefore_rep:
  "l1_rep l (xs @ t # ys) \<Longrightarrow> x \<notin> set (xs @ t # ys) \<Longrightarrow>
    l1_rep (LinkedList1_InsertBefore l x t) (xs @ x # t # ys)"
  by (cases xs rule: rev_cases) (auto simp: l1_rep_def LinkedList1_InsertBefore_def)

lemma LinkedList1_InsertAfter_rep:
  "l1_rep l (xs @ t # ys) \<Longrightarrow> x \<notin> set (xs @ t # ys) \<Longrightarrow>
    l1_rep (LinkedList1_InsertAfter l x t) (xs @ t # x # ys)"
  by (cases ys; cases xs rule: rev_cases) (auto simp: l1_rep_def LinkedList1_InsertAfter_def)

lemma LinkedList1_Remove_rep_split:
  "l1_rep l (xs @ x # ys) \<Longrightarrow> l1_rep (LinkedList1_Remove l x) (xs @ ys)"
  by (cases xs rule: rev_cases; cases ys) (auto simp: l1_rep_def LinkedList1_Remove_def)

text \<open>The list spliced in by LinkedList1_InsertListAfter shares the p and n fields with the list it is
  spliced into.\<close>

lemma LinkedList1_InsertListAfter_rep:
  assumes "l1_rep l (xs @ ys)"
    and "distinct zs" "set zs \<inter> set (xs @ ys) = {}" "seg (l1_p l) (l1_n l) None zs None"
  shows "l1_rep (LinkedList1_InsertListAfter l (hd_or zs None) (last_or None zs) (last_or None xs))
    (xs @ zs @ ys)"
proof (cases "zs = []")
  case True
  then show ?thesis
    using assms(1) by (simp add: LinkedList1_InsertListAfter_def)
next
  case False
  then obtain z zs' where z: "zs = z # zs'"
    by (cases zs) auto
  have exit: "seg p (n(last zs := y)) a zs y" if "seg p n a zs w" for p n a y w
    using seg_set_exit [OF assms(2) that, of "last zs" y] False by (simp add: last_or_def)
  have entry: "seg (p(z := b)) n b zs y" if "seg p n a zs y" for p n a b y
    using that assms(2) by (simp add: z)
  have lst: "last_or None zs = Some (last zs)" "last zs \<in> set zs" "last_or b zs = Some (last zs)" for b
    using False by (simp_all add: last_or_def)
  have new: "last zs \<notin> set xs" "last zs \<notin> set ys"
    using lst(2) assms(3) by auto
  show ?thesis
    using assms exit [OF entry [OF assms(4)]] lst new
    by (cases xs rule: rev_cases; cases ys)
      (auto simp: l1_rep_def LinkedList1_InsertListAfter_def z Let_def)
qed

section \<open>SLinkedList implements lists\<close>

definition sl_rep :: "bool \<Rightarrow> slinked_list \<Rightarrow> addr list \<Rightarrow> bool" where
  "sl_rep fl l xs \<longleftrightarrow> distinct xs \<and> sl_first l = hd_or xs None \<and>
     (fl \<and> xs \<noteq> [] \<longrightarrow> sl_last l = last_or None xs) \<and> (\<exists>a. seg (sl_prev l) (sl_next l) a xs None)"

lemma SLinkedList_Init_rep: "sl_rep fl (SLinkedList_Init l) []"
  by (simp add: sl_rep_def SLinkedList_Init_def)

lemma SLinkedList_IsEmpty_rep: "sl_rep fl l xs \<Longrightarrow> SLinkedList_IsEmpty l \<longleftrightarrow> xs = []"
  by (simp add: sl_rep_def SLinkedList_IsEmpty_def)

lemma SLinkedList_First_rep: "sl_rep fl l xs \<Longrightarrow> SLinkedList_First l = hd_or xs None"
  by (simp add: sl_rep_def SLinkedList_First_def)

lemma SLinkedList_Last_rep: "sl_rep True l xs \<Longrightarrow> SLinkedList_Last l = last_or None xs"
  by (auto simp: sl_rep_def SLinkedList_Last_def)

lemma SLinkedList_Next_rep: "sl_rep fl l (xs @ x # ys) \<Longrightarrow> SLinkedList_Next l x = hd_or ys None"
  by (auto simp: sl_rep_def SLinkedList_Next_def)

lemma SLinkedList_Prev_rep: "sl_rep fl l (xs @ x # ys) \<Longrightarrow> SLinkedList_Prev l x = last_or None xs"
  by (cases xs rule: rev_cases) (auto simp: sl_rep_def SLinkedList_Prev_def)

lemma SLinkedList_Prepend_rep:
  "sl_rep fl l xs \<Longrightarrow> x \<notin> set xs \<Longrightarrow> sl_rep fl (SLinkedList_Prepend fl l x) (x # xs)"
  by (cases xs) (auto simp: sl_rep_def SLinkedList_Prepend_def Let_def)

lemma SLinkedList_Append_rep:
  "sl_rep True l xs \<Longrightarrow> x \<notin> set xs \<Longrightarrow> sl_rep True (SLinkedList_Append l x) (xs @ [x])"
  by (cases xs rule: rev_cases) (auto simp: sl_rep_def SLinkedList_Append_def Let_def hd_or_Some_conv)

lemma SLinkedList_InsertBefore_rep:
  "sl_rep fl l (xs @ t # ys) \<Longrightarrow> x \<notin> set (xs @ t # ys) \<Longrightarrow>
    sl_rep fl (SLinkedList_InsertBefore l x t) (xs @ x # t # ys)"
  by (cases xs rule: rev_cases) (auto simp: sl_rep_def SLinkedList_InsertBefore_def Let_def)

lemma SLinkedList_InsertAfter_rep:
  "sl_rep fl l (xs @ t # ys) \<Longrightarrow> x \<notin> set (xs @ t # ys) \<Longrightarrow>
    sl_rep fl (SLinkedList_InsertAfter fl l x t) (xs @ t # x # ys)"
  by (cases ys) (auto simp: sl_rep_def SLinkedList_InsertAfter_def Let_def)

lemma SLinkedList_Remove_rep_split:
  "sl_rep fl l (xs @ x # ys) \<Longrightarrow> sl_rep fl (SLinkedList_Remove fl l x) (xs @ ys)"
  by (cases xs rule: rev_cases; cases ys) (auto simp: sl_rep_def SLinkedList_Remove_def Let_def)

lemma SLinkedList_RemoveFirst_rep:
  "sl_rep fl l (x # xs) \<Longrightarrow> sl_rep fl (SLinkedList_RemoveFirst l) xs"
  by (auto simp: sl_rep_def SLinkedList_RemoveFirst_def)

lemma SLinkedList_RemoveLast_rep:
  "sl_rep True l (xs @ [x]) \<Longrightarrow> sl_rep True (SLinkedList_RemoveLast l) xs"
  by (cases xs rule: rev_cases) (auto simp: sl_rep_def SLinkedList_RemoveLast_def Let_def)

text \<open>A node of the list never carries the mark of SLinkedListMarkRemoved, which is a next field that
  points to the node itself; marking a node outside of the list leaves the list alone.\<close>

lemma seg_next_neq:
  assumes "distinct xs" "x \<in> set xs" "seg p n a xs None"
  shows "n x \<noteq> Some x"
proof -
  obtain ys zs where xs: "xs = ys @ x # zs"
    using split_list [OF assms(2)] by blast
  with assms show ?thesis
    by (cases zs) auto
qed

lemma sl_rep_not_removed: "sl_rep fl l xs \<Longrightarrow> x \<in> set xs \<Longrightarrow> \<not> SLinkedListIsRemoved l x"
  unfolding sl_rep_def SLinkedListIsRemoved_def by (metis seg_next_neq)

lemma SLinkedListMarkRemoved_rep:
  "sl_rep fl l xs \<Longrightarrow> x \<notin> set xs \<Longrightarrow> sl_rep fl (SLinkedListMarkRemoved l x) xs"
  by (auto simp: sl_rep_def SLinkedListMarkRemoved_def)

lemma SLinkedListIsRemoved_mark [simp]:
  "SLinkedListIsRemoved (SLinkedListMarkRemoved l x) y \<longleftrightarrow> y = x \<or> SLinkedListIsRemoved l y"
  by (simp add: SLinkedListIsRemoved_def SLinkedListMarkRemoved_def)

lemma SLinkedListIsRemoved_Prepend [simp]:
  "y \<noteq> x \<Longrightarrow> SLinkedListIsRemoved (SLinkedList_Prepend fl l x) y = SLinkedListIsRemoved l y"
  by (simp add: SLinkedListIsRemoved_def SLinkedList_Prepend_def Let_def split: option.split)

lemma SLinkedListIsRemoved_RemoveFirst [simp]:
  "SLinkedListIsRemoved (SLinkedList_RemoveFirst l) y = SLinkedListIsRemoved l y"
  by (simp add: SLinkedListIsRemoved_def SLinkedList_RemoveFirst_def)

lemma seg_prev_in:
  assumes "x \<in> set xs" "hd_or xs None \<noteq> Some x" "seg p n a xs z"
  shows "\<exists>q \<in> set xs. p x = Some q"
proof -
  obtain ys zs where xs: "xs = ys @ x # zs"
    using split_list [OF assms(1)] by blast
  with assms(2) have "ys \<noteq> []"
    by auto
  with xs assms(3) show ?thesis
    by (auto simp: last_or_def)
qed

lemma SLinkedListIsRemoved_Remove:
  assumes "sl_rep fl l xs" "x \<in> set xs" "y \<notin> set xs"
  shows "SLinkedListIsRemoved (SLinkedList_Remove fl l x) y = SLinkedListIsRemoved l y"
proof (cases "sl_first l = Some x")
  case False
  then obtain q where "q \<in> set xs" "sl_prev l x = Some q"
    using assms seg_prev_in by (fastforce simp: sl_rep_def)
  then show ?thesis
    using False assms(3)
    by (auto simp: SLinkedListIsRemoved_def SLinkedList_Remove_def Let_def split: option.split)
qed (simp add: SLinkedListIsRemoved_def SLinkedList_Remove_def)

section \<open>The list interface\<close>

text \<open>What the clients of both list implementations rely on: a list object represents a list of distinct
  nodes, a node can be added in front, removed from any place, and the first one looked up.\<close>

locale node_list =
  fixes rep :: "'l \<Rightarrow> addr list \<Rightarrow> bool"
    and prepend :: "'l \<Rightarrow> addr \<Rightarrow> 'l"
    and remove :: "'l \<Rightarrow> addr \<Rightarrow> 'l"
    and first :: "'l \<Rightarrow> addr option"
  assumes rep_distinct: "rep l xs \<Longrightarrow> distinct xs"
    and rep_unique: "rep l xs \<Longrightarrow> rep l ys \<Longrightarrow> xs = ys"
    and rep_prepend: "rep l xs \<Longrightarrow> x \<notin> set xs \<Longrightarrow> rep (prepend l x) (x # xs)"
    and rep_remove_split: "rep l (xs @ x # ys) \<Longrightarrow> rep (remove l x) (xs @ ys)"
    and first_rep: "rep l xs \<Longrightarrow> first l = hd_or xs None"
begin

lemma rep_remove:
  assumes "rep l xs" "x \<in> set xs"
  shows "rep (remove l x) (remove1 x xs)"
proof -
  obtain ys zs where xs: "xs = ys @ x # zs" "x \<notin> set ys"
    using split_list_first [OF assms(2)] by blast
  then have "remove1 x xs = ys @ zs"
    by (simp add: remove1_append)
  with assms(1) xs show ?thesis
    by (simp add: rep_remove_split)
qed

lemma rep_remove_first: "rep l (x # xs) \<Longrightarrow> rep (remove l x) xs"
  using rep_remove_split [of l "[]"] by simp

lemma rep_move_front:
  assumes "rep l xs" "x \<in> set xs"
  shows "rep (prepend (remove l x) x) (x # remove1 x xs)"
  using assms rep_distinct by (auto intro!: rep_prepend rep_remove)

lemma first_in: "rep l xs \<Longrightarrow> first l = Some x \<Longrightarrow> x \<in> set xs"
  by (simp add: first_rep hd_or_Some_in)

end

locale node_deque = node_list +
  fixes append :: "'a \<Rightarrow> addr \<Rightarrow> 'a"
  assumes rep_append: "rep l xs \<Longrightarrow> x \<notin> set xs \<Longrightarrow> rep (append l x) (xs @ [x])"
begin

lemma rep_move_back:
  assumes "rep l xs" "x \<in> set xs"
  shows "rep (append (remove l x) x) (remove1 x xs @ [x])"
  using assms rep_distinct by (auto intro!: rep_append rep_remove)

end

text \<open>The nodes of a chain are determined by its n fields.\<close>

lemma seg_unique:
  "seg p n a xs None \<Longrightarrow> seg p' n a' ys None \<Longrightarrow> hd_or xs None = hd_or ys None \<Longrightarrow> xs = ys"
proof (induction xs arbitrary: a a' ys)
  case (Cons x xs)
  then show ?case
    by (cases ys) auto
qed (auto simp: hd_or_def split: list.splits)

interpretation l1: node_deque l1_rep LinkedList1_Prepend LinkedList1_Remove LinkedList1_GetFirst
  LinkedList1_Append
proof
  show "distinct xs" if "l1_rep l xs" for l xs
    using that by (simp add: l1_rep_def)
  show "xs = ys" if "l1_rep l xs" "l1_rep l ys" for l xs ys
    using that seg_unique unfolding l1_rep_def by metis
qed (simp_all add: LinkedList1_Prepend_rep LinkedList1_Append_rep LinkedList1_Remove_rep_split
    LinkedList1_GetFirst_rep)

interpretation sl: node_list "sl_rep fl" "SLinkedList_Prepend fl" "SLinkedList_Remove fl"
  SLinkedList_First for fl
proof
  show "distinct xs" if "sl_rep fl l xs" for l xs
    using that by (simp add: sl_rep_def)
  show "xs = ys" if "sl_rep fl l xs" "sl_rep fl l ys" for l xs ys
    using that seg_unique unfolding sl_rep_def by metis
qed (simp_all add: SLinkedList_Prepend_rep SLinkedList_Remove_rep_split SLinkedList_First_rep)

interpretation sl_last: node_deque "sl_rep True" "SLinkedList_Prepend True"
  "SLinkedList_Remove True" SLinkedList_First SLinkedList_Append
  by unfold_locales (rule SLinkedList_Append_rep)

end
