(* ===== verification/Pending_Jobs.thy ===== *)
theory Pending_Jobs
  imports Linked_Lists
begin

text \<open>
  base/BPending.c: the queue of jobs every event handler of the engine goes through.  A group holds the
  jobs list (an SLinkedList without the LAST feature); a job object is its address.  The handler and
  user fields of the job objects are a function from addresses to a handler value \<open>'h\<close>.  The
  DebugCounter, DebugObject and pending fields exist in debug builds only.

  The group is shown to implement a stack of distinct jobs.  Setting a job moves it to the top, and
  ExecuteJob takes the top job off before its handler runs.
\<close>

record 'h pending_group =
  pg_jobs :: slinked_list
  pg_handler :: "addr \<Rightarrow> 'h"

definition BPendingGroup_Init :: "'h pending_group \<Rightarrow> 'h pending_group" where
  "BPendingGroup_Init g = g\<lparr>pg_jobs := SLinkedList_Init (pg_jobs g)\<rparr>"

definition BPendingGroup_HasJobs :: "'h pending_group \<Rightarrow> bool" where
  "BPendingGroup_HasJobs g \<longleftrightarrow> \<not> SLinkedList_IsEmpty (pg_jobs g)"

text \<open>The result of ExecuteJob is the group in which the handler runs, with the job and the handler that
  is called; None is the call with an empty list, which the function's assertion excludes.\<close>

definition BPendingGroup_ExecuteJob ::
    "'h pending_group \<Rightarrow> ('h pending_group \<times> addr \<times> 'h) option" where
  "BPendingGroup_ExecuteJob g =
     (case SLinkedList_First (pg_jobs g) of
        None \<Rightarrow> None
      | Some p \<Rightarrow>
          let g = g\<lparr>pg_jobs := SLinkedList_RemoveFirst (pg_jobs g)\<rparr>;
              g = g\<lparr>pg_jobs := SLinkedListMarkRemoved (pg_jobs g) p\<rparr>
          in Some (g, p, pg_handler g p))"

definition BPendingGroup_PeekJob :: "'h pending_group \<Rightarrow> addr option" where
  "BPendingGroup_PeekJob g = SLinkedList_First (pg_jobs g)"

definition BSmallPending_Init :: "addr \<Rightarrow> 'h \<Rightarrow> 'h pending_group \<Rightarrow> 'h pending_group" where
  "BSmallPending_Init p h g =
     (let g = g\<lparr>pg_handler := (pg_handler g)(p := h)\<rparr>
      in g\<lparr>pg_jobs := SLinkedListMarkRemoved (pg_jobs g) p\<rparr>)"

definition BSmallPending_Free :: "addr \<Rightarrow> 'h pending_group \<Rightarrow> 'h pending_group" where
  "BSmallPending_Free p g =
     (if \<not> SLinkedListIsRemoved (pg_jobs g) p
      then g\<lparr>pg_jobs := SLinkedList_Remove False (pg_jobs g) p\<rparr> else g)"

definition BSmallPending_SetHandler :: "addr \<Rightarrow> 'h \<Rightarrow> 'h pending_group \<Rightarrow> 'h pending_group" where
  "BSmallPending_SetHandler p h g = g\<lparr>pg_handler := (pg_handler g)(p := h)\<rparr>"

definition BSmallPending_Set :: "addr \<Rightarrow> 'h pending_group \<Rightarrow> 'h pending_group" where
  "BSmallPending_Set p g =
     (let g = (if \<not> SLinkedListIsRemoved (pg_jobs g) p
               then g\<lparr>pg_jobs := SLinkedList_Remove False (pg_jobs g) p\<rparr> else g)
      in g\<lparr>pg_jobs := SLinkedList_Prepend False (pg_jobs g) p\<rparr>)"

definition BSmallPending_Unset :: "addr \<Rightarrow> 'h pending_group \<Rightarrow> 'h pending_group" where
  "BSmallPending_Unset p g =
     (if \<not> SLinkedListIsRemoved (pg_jobs g) p
      then let g = g\<lparr>pg_jobs := SLinkedList_Remove False (pg_jobs g) p\<rparr>
           in g\<lparr>pg_jobs := SLinkedListMarkRemoved (pg_jobs g) p\<rparr>
      else g)"

definition BSmallPending_IsSet :: "addr \<Rightarrow> 'h pending_group \<Rightarrow> bool" where
  "BSmallPending_IsSet p g \<longleftrightarrow> \<not> SLinkedListIsRemoved (pg_jobs g) p"

text \<open>The BPending functions pass the group stored in the object to the functions above.\<close>

definition BPending_Init :: "addr \<Rightarrow> 'h \<Rightarrow> 'h pending_group \<Rightarrow> 'h pending_group" where
  "BPending_Init p h g = BSmallPending_Init p h g"

definition BPending_Free :: "addr \<Rightarrow> 'h pending_group \<Rightarrow> 'h pending_group" where
  "BPending_Free p g = BSmallPending_Free p g"

definition BPending_Set :: "addr \<Rightarrow> 'h pending_group \<Rightarrow> 'h pending_group" where
  "BPending_Set p g = BSmallPending_Set p g"

definition BPending_Unset :: "addr \<Rightarrow> 'h pending_group \<Rightarrow> 'h pending_group" where
  "BPending_Unset p g = BSmallPending_Unset p g"

definition BPending_IsSet :: "addr \<Rightarrow> 'h pending_group \<Rightarrow> bool" where
  "BPending_IsSet p g = BSmallPending_IsSet p g"

section \<open>The invariant\<close>

text \<open>\<open>R\<close> is the set of job objects that are initialised and not freed, \<open>xs\<close> the jobs
  that are set, the next one to run first.  A job object is marked exactly if it is not in the
  list, the assertion of BSmallPending_Set, Unset, IsSet and Free.\<close>

definition pg_rep :: "addr set \<Rightarrow> 'h pending_group \<Rightarrow> addr list \<Rightarrow> bool" where
  "pg_rep R g xs \<longleftrightarrow> sl_rep False (pg_jobs g) xs \<and> set xs \<subseteq> R \<and>
     (\<forall>x \<in> R. SLinkedListIsRemoved (pg_jobs g) x \<longleftrightarrow> x \<notin> set xs)"

lemma pg_rep_sl: "pg_rep R g xs \<Longrightarrow> sl_rep False (pg_jobs g) xs"
  by (simp add: pg_rep_def)

lemmas pg_rep_distinct = sl.rep_distinct [OF pg_rep_sl]

lemma pg_rep_Init: "pg_rep {} (BPendingGroup_Init g) []"
  by (simp add: pg_rep_def BPendingGroup_Init_def SLinkedList_Init_rep)

lemma pg_rep_BSmallPending_Init:
  "pg_rep R g xs \<Longrightarrow> p \<notin> R \<Longrightarrow> pg_rep (insert p R) (BSmallPending_Init p h g) xs"
  by (auto simp: pg_rep_def BSmallPending_Init_def Let_def intro!: SLinkedListMarkRemoved_rep)

lemma pg_rep_IsSet: "pg_rep R g xs \<Longrightarrow> p \<in> R \<Longrightarrow> BSmallPending_IsSet p g \<longleftrightarrow> p \<in> set xs"
  by (auto simp: pg_rep_def BSmallPending_IsSet_def)

lemma pg_rep_removed:
  "pg_rep R g xs \<Longrightarrow> p \<in> R \<Longrightarrow> SLinkedListIsRemoved (pg_jobs g) p \<longleftrightarrow> p \<notin> set xs"
  by (auto simp: pg_rep_def)

text \<open>Taking a job out of the list leaves a group that is well formed for the other jobs.\<close>

lemma pg_rep_remove:
  assumes "pg_rep R g xs" "p \<in> set xs"
  shows "pg_rep (R - {p}) (g\<lparr>pg_jobs := SLinkedList_Remove False (pg_jobs g) p\<rparr>) (remove1 p xs)"
proof -
  let ?l = "SLinkedList_Remove False (pg_jobs g) p"
  note rep = pg_rep_sl [OF assms(1)] and d = pg_rep_distinct [OF assms(1)]
  have rep': "sl_rep False ?l (remove1 p xs)"
    by (rule sl.rep_remove [OF rep assms(2)])
  have mark: "SLinkedListIsRemoved ?l x \<longleftrightarrow> x \<notin> set (remove1 p xs)" if "x \<in> R" "x \<noteq> p" for x
  proof (cases "x \<in> set xs")
    case True
    with that d show ?thesis
      using sl_rep_not_removed [OF rep', of x] by simp
  next
    case False
    with assms that d SLinkedListIsRemoved_Remove [OF rep assms(2) False] show ?thesis
      by (simp add: pg_rep_def)
  qed
  have "set (remove1 p xs) \<subseteq> R - {p}"
    using d assms(1) by (auto simp: pg_rep_def)
  with rep' mark show ?thesis
    by (simp add: pg_rep_def)
qed

lemma pg_rep_weaken: "pg_rep R g xs \<Longrightarrow> p \<notin> set xs \<Longrightarrow> pg_rep (R - {p}) g xs"
  by (auto simp: pg_rep_def)

lemma pg_rep_Free:
  "pg_rep R g xs \<Longrightarrow> p \<in> R \<Longrightarrow> pg_rep (R - {p}) (BSmallPending_Free p g) (remove1 p xs)"
  by (cases "p \<in> set xs") (simp_all add: BSmallPending_Free_def pg_rep_removed pg_rep_remove pg_rep_weaken remove1_idem)

lemma pg_rep_mark:
  "pg_rep (R - {p}) g xs \<Longrightarrow> p \<in> R \<Longrightarrow>
    pg_rep R (g\<lparr>pg_jobs := SLinkedListMarkRemoved (pg_jobs g) p\<rparr>) xs"
  by (auto simp: pg_rep_def intro!: SLinkedListMarkRemoved_rep)

lemma pg_rep_Unset:
  "pg_rep R g xs \<Longrightarrow> p \<in> R \<Longrightarrow> pg_rep R (BSmallPending_Unset p g) (remove1 p xs)"
  using pg_rep_mark [OF pg_rep_remove, of R g xs p]
  by (cases "p \<in> set xs") (simp_all add: BSmallPending_Unset_def pg_rep_removed Let_def remove1_idem)

lemma pg_rep_prepend:
  assumes "pg_rep (R - {p}) g xs" "p \<in> R"
  shows "pg_rep R (g\<lparr>pg_jobs := SLinkedList_Prepend False (pg_jobs g) p\<rparr>) (p # xs)"
proof -
  have "p \<notin> set xs" and rep: "sl_rep False (pg_jobs g) xs"
    using assms(1) by (auto simp: pg_rep_def)
  then have rep': "sl_rep False (SLinkedList_Prepend False (pg_jobs g) p) (p # xs)"
    by (rule_tac sl.rep_prepend)
  then have "\<forall>x \<in> set (p # xs). \<not> SLinkedListIsRemoved (SLinkedList_Prepend False (pg_jobs g) p) x"
    using sl_rep_not_removed by blast
  with rep' assms show ?thesis
    by (auto simp: pg_rep_def)
qed

lemma pg_rep_Set:
  assumes "pg_rep R g xs" "p \<in> R"
  shows "pg_rep R (BSmallPending_Set p g) (p # remove1 p xs)"
proof (cases "p \<in> set xs")
  case True
  then show ?thesis
    using pg_rep_prepend [OF pg_rep_remove [OF assms(1) True] assms(2)] assms
    by (simp add: BSmallPending_Set_def pg_rep_removed)
next
  case False
  then show ?thesis
    using pg_rep_prepend [OF pg_rep_weaken [OF assms(1) False] assms(2)] assms
    by (simp add: BSmallPending_Set_def pg_rep_removed remove1_idem)
qed

lemma pg_rep_ExecuteJob:
  assumes "pg_rep R g (p # xs)"
  shows "\<exists>g'. BPendingGroup_ExecuteJob g = Some (g', p, pg_handler g p) \<and> pg_rep R g' xs \<and>
    pg_handler g' = pg_handler g"
proof -
  let ?l = "SLinkedListMarkRemoved (SLinkedList_RemoveFirst (pg_jobs g)) p"
  have rep: "sl_rep False (pg_jobs g) (p # xs)" and d: "p \<notin> set xs"
    using pg_rep_sl [OF assms] pg_rep_distinct [OF assms] by auto
  then have "SLinkedList_First (pg_jobs g) = Some p" "sl_rep False ?l xs"
    using sl.first_rep [OF rep] by (auto intro: SLinkedListMarkRemoved_rep SLinkedList_RemoveFirst_rep)
  moreover have "pg_rep R (g\<lparr>pg_jobs := ?l\<rparr>) xs"
    using calculation(2) assms d by (auto simp: pg_rep_def)
  ultimately show ?thesis
    by (simp add: BPendingGroup_ExecuteJob_def Let_def)
qed

lemma pg_rep_ExecuteJob_Nil: "pg_rep R g [] \<Longrightarrow> BPendingGroup_ExecuteJob g = None"
  by (simp add: BPendingGroup_ExecuteJob_def sl.first_rep [OF pg_rep_sl])

lemma pg_rep_HasJobs: "pg_rep R g xs \<Longrightarrow> BPendingGroup_HasJobs g \<longleftrightarrow> xs \<noteq> []"
  by (simp add: BPendingGroup_HasJobs_def SLinkedList_IsEmpty_rep [OF pg_rep_sl])

text \<open>Most clients only care which jobs are set, not in which order.\<close>

definition pg_pending :: "addr set \<Rightarrow> 'h pending_group \<Rightarrow> addr set \<Rightarrow> bool" where
  "pg_pending R g S \<longleftrightarrow> (\<exists>xs. pg_rep R g xs \<and> set xs = S)"

lemma pg_pending_subset: "pg_pending R g S \<Longrightarrow> S \<subseteq> R"
  by (auto simp: pg_pending_def pg_rep_def)

lemma pg_pending_Set: "pg_pending R g S \<Longrightarrow> p \<in> R \<Longrightarrow> pg_pending R (BPending_Set p g) (insert p S)"
  unfolding pg_pending_def BPending_Set_def
  using pg_rep_Set pg_rep_distinct by (metis (no_types, lifting) insert_Diff_single list.simps(15) set_remove1_eq)

lemma pg_pending_Unset: "pg_pending R g S \<Longrightarrow> p \<in> R \<Longrightarrow> pg_pending R (BPending_Unset p g) (S - {p})"
  unfolding pg_pending_def BPending_Unset_def using pg_rep_Unset pg_rep_distinct set_remove1_eq by metis

lemma pg_pending_Execute:
  assumes "pg_pending R g S" "BPendingGroup_ExecuteJob g = Some (g', p, h)"
  shows "p \<in> S \<and> h = pg_handler g p \<and> pg_handler g' = pg_handler g \<and> pg_pending R g' (S - {p})"
proof -
  obtain xs where xs: "pg_rep R g xs" "set xs = S"
    using assms(1) by (auto simp: pg_pending_def)
  then obtain q ys where q: "xs = q # ys"
    using assms(2) pg_rep_ExecuteJob_Nil [of R g] by (cases xs) auto
  then show ?thesis
    using pg_rep_ExecuteJob [of R g q ys] xs assms(2) pg_rep_distinct [OF xs(1)]
    by (auto simp: pg_pending_def intro!: exI [of _ ys])
qed

lemma pg_pending_idle: "pg_pending R g S \<Longrightarrow> BPendingGroup_ExecuteJob g = None \<longleftrightarrow> S = {}"
proof (unfold pg_pending_def, elim exE conjE)
  fix xs
  assume "pg_rep R g xs" "set xs = S"
  then show ?thesis
    using pg_rep_ExecuteJob_Nil pg_rep_ExecuteJob by (cases xs) fastforce+
qed

lemma pg_pending_HasJobs: "pg_pending R g S \<Longrightarrow> BPendingGroup_HasJobs g \<longleftrightarrow> S \<noteq> {}"
  by (auto simp: pg_pending_def pg_rep_HasJobs)

lemma BPending_handlers [simp]:
  "pg_handler (BPending_Set p g) = pg_handler g"
  "pg_handler (BPending_Unset p g) = pg_handler g"
  "pg_handler (BPending_Init p h g) = (pg_handler g)(p := h)"
  by (simp_all add: BPending_Set_def BPending_Unset_def BPending_Init_def BSmallPending_Set_def
      BSmallPending_Unset_def BSmallPending_Init_def Let_def)

lemma pg_pending_Init:
  "pg_pending R g S \<Longrightarrow> p \<notin> R \<Longrightarrow> pg_pending (insert p R) (BPending_Init p h g) S"
  unfolding pg_pending_def BPending_Init_def using pg_rep_BSmallPending_Init by metis

lemma pg_pending_Group_Init: "pg_pending {} (BPendingGroup_Init g) {}"
  using pg_rep_Init by (auto simp: pg_pending_def)

section \<open>The group implements a stack of jobs\<close>

datatype 'h job_op =
    Job_Init addr 'h
  | Job_Free addr
  | Job_SetHandler addr 'h
  | Job_Set addr
  | Job_Unset addr
  | Job_Execute

text \<open>One call to the group, with the job it runs.\<close>

fun job_step :: "'h job_op \<Rightarrow> 'h pending_group \<Rightarrow> 'h pending_group \<times> (addr \<times> 'h) option" where
  "job_step (Job_Init p h) g = (BPending_Init p h g, None)"
| "job_step (Job_Free p) g = (BPending_Free p g, None)"
| "job_step (Job_SetHandler p h) g = (BSmallPending_SetHandler p h g, None)"
| "job_step (Job_Set p) g = (BPending_Set p g, None)"
| "job_step (Job_Unset p) g = (BPending_Unset p g, None)"
| "job_step Job_Execute g =
     (case BPendingGroup_ExecuteJob g of None \<Rightarrow> (g, None) | Some (g', p, h) \<Rightarrow> (g', Some (p, h)))"

fun job_run :: "'h job_op list \<Rightarrow> 'h pending_group \<Rightarrow> (addr \<times> 'h) option list" where
  "job_run [] g = []"
| "job_run (x # xs) g = (let (g', r) = job_step x g in r # job_run xs g')"

text \<open>The specification: the live job objects with their handlers, and a stack of jobs.\<close>

record 'h job_stack =
  js_live :: "addr \<rightharpoonup> 'h"
  js_stack :: "addr list"

fun stack_pre :: "'h job_op \<Rightarrow> 'h job_stack \<Rightarrow> bool" where
  "stack_pre (Job_Init p h) s \<longleftrightarrow> js_live s p = None"
| "stack_pre (Job_Free p) s \<longleftrightarrow> js_live s p \<noteq> None"
| "stack_pre (Job_SetHandler p h) s \<longleftrightarrow> js_live s p \<noteq> None"
| "stack_pre (Job_Set p) s \<longleftrightarrow> js_live s p \<noteq> None"
| "stack_pre (Job_Unset p) s \<longleftrightarrow> js_live s p \<noteq> None"
| "stack_pre Job_Execute s \<longleftrightarrow> True"

fun stack_step :: "'h job_op \<Rightarrow> 'h job_stack \<Rightarrow> 'h job_stack \<times> (addr \<times> 'h) option" where
  "stack_step (Job_Init p h) s = (s\<lparr>js_live := (js_live s)(p \<mapsto> h)\<rparr>, None)"
| "stack_step (Job_Free p) s =
     (s\<lparr>js_live := (js_live s)(p := None), js_stack := remove1 p (js_stack s)\<rparr>, None)"
| "stack_step (Job_SetHandler p h) s = (s\<lparr>js_live := (js_live s)(p \<mapsto> h)\<rparr>, None)"
| "stack_step (Job_Set p) s = (s\<lparr>js_stack := p # remove1 p (js_stack s)\<rparr>, None)"
| "stack_step (Job_Unset p) s = (s\<lparr>js_stack := remove1 p (js_stack s)\<rparr>, None)"
| "stack_step Job_Execute s =
     (case js_stack s of [] \<Rightarrow> (s, None)
      | p # ps \<Rightarrow> (s\<lparr>js_stack := ps\<rparr>, Some (p, the (js_live s p))))"

fun stack_ok :: "'h job_op list \<Rightarrow> 'h job_stack \<Rightarrow> bool" where
  "stack_ok [] s = True"
| "stack_ok (x # xs) s = (stack_pre x s \<and> stack_ok xs (fst (stack_step x s)))"

fun stack_run :: "'h job_op list \<Rightarrow> 'h job_stack \<Rightarrow> (addr \<times> 'h) option list" where
  "stack_run [] s = []"
| "stack_run (x # xs) s = (let (s', r) = stack_step x s in r # stack_run xs s')"

definition pg_abs :: "'h pending_group \<Rightarrow> 'h job_stack \<Rightarrow> bool" where
  "pg_abs g s \<longleftrightarrow> pg_rep (dom (js_live s)) g (js_stack s) \<and>
     (\<forall>p h. js_live s p = Some h \<longrightarrow> pg_handler g p = h)"

lemma BSmallPending_handlers [simp]:
  "pg_handler (BSmallPending_Free p g) = pg_handler g"
  "pg_handler (BSmallPending_Set p g) = pg_handler g"
  "pg_handler (BSmallPending_Unset p g) = pg_handler g"
  "pg_handler (BSmallPending_Init p h g) = (pg_handler g)(p := h)"
  by (simp_all add: BSmallPending_Free_def BSmallPending_Set_def BSmallPending_Unset_def
      BSmallPending_Init_def Let_def)

lemmas BPending_defs = BPending_Init_def BPending_Free_def BPending_Set_def BPending_Unset_def

text \<open>One call preserves the correspondence and runs the same job.\<close>

lemma job_step_simulates:
  assumes "pg_abs g s" "stack_pre x s"
  shows "pg_abs (fst (job_step x g)) (fst (stack_step x s)) \<and>
    snd (job_step x g) = snd (stack_step x s)"
proof (cases x)
  case (Job_Init p h)
  with assms show ?thesis
    using pg_rep_BSmallPending_Init [of "dom (js_live s)" g "js_stack s" p h]
    by (auto simp: pg_abs_def BPending_defs domIff)
next
  case (Job_Free p)
  with assms show ?thesis
    using pg_rep_Free [of "dom (js_live s)" g "js_stack s" p]
    by (auto simp: pg_abs_def BPending_defs domIff)
next
  case (Job_SetHandler p h)
  with assms show ?thesis
    by (auto simp: pg_abs_def BSmallPending_SetHandler_def pg_rep_def insert_absorb)
next
  case (Job_Set p)
  with assms show ?thesis
    using pg_rep_Set [of "dom (js_live s)" g "js_stack s" p] by (auto simp: pg_abs_def BPending_defs)
next
  case (Job_Unset p)
  with assms show ?thesis
    using pg_rep_Unset [of "dom (js_live s)" g "js_stack s" p] by (auto simp: pg_abs_def BPending_defs)
next
  case Job_Execute
  have rep: "pg_rep (dom (js_live s)) g (js_stack s)"
    using assms by (simp add: pg_abs_def)
  show ?thesis
  proof (cases "js_stack s")
    case Nil
    with rep assms Job_Execute show ?thesis
      by (simp add: pg_rep_ExecuteJob_Nil)
  next
    case (Cons p ps)
    then obtain g' where "BPendingGroup_ExecuteJob g = Some (g', p, pg_handler g p)"
      "pg_rep (dom (js_live s)) g' ps" "pg_handler g' = pg_handler g"
      using pg_rep_ExecuteJob rep by metis
    moreover have "p \<in> dom (js_live s)"
      using rep Cons by (simp add: pg_rep_def)
    ultimately show ?thesis
      using assms Cons Job_Execute by (auto simp: pg_abs_def)
  qed
qed

lemma job_run_simulates: "pg_abs g s \<Longrightarrow> stack_ok xs s \<Longrightarrow> job_run xs g = stack_run xs s"
proof (induction xs arbitrary: g s)
  case (Cons x xs)
  then show ?case
    using job_step_simulates [of g s x] by (auto simp: Let_def case_prod_beta)
qed simp

definition empty_stack :: "'h job_stack" where
  "empty_stack = \<lparr>js_live = Map.empty, js_stack = []\<rparr>"

lemma pg_abs_Init: "pg_abs (BPendingGroup_Init g) empty_stack"
  using pg_rep_Init by (simp add: pg_abs_def empty_stack_def)

text \<open>C5: Whatever memory a job group starts in, after BPendingGroup_Init every sequence of calls that respects the
  object life cycle runs exactly the jobs of a stack: setting a job moves it to the top even if it was
  already set, unsetting and freeing take it out, and each execution takes off and runs the top
  job with the handler it was last given.\<close>
theorem job_group_is_stack:
  "stack_ok calls empty_stack \<Longrightarrow> job_run calls (BPendingGroup_Init g) = stack_run calls empty_stack"
  by (rule job_run_simulates [OF pg_abs_Init])

theorem job_group_is_stack_witness:
  "job_run [Job_Init 1 ''a'', Job_Init 2 ''b'', Job_Set 1, Job_Set 2, Job_Set 1, Job_Execute, Job_Execute]
     (BPendingGroup_Init \<lparr>pg_jobs = \<lparr>sl_first = Some 7, sl_last = None, sl_next = (\<lambda>_. None),
        sl_prev = (\<lambda>_. None)\<rparr>, pg_handler = (\<lambda>_. [])\<rparr>) =
   [None, None, None, None, None, Some (1, ''a''), Some (2, ''b'')]"
  by (subst job_group_is_stack) (simp_all add: empty_stack_def)

end
