(* ===== verification/Packet_Pass_Interface.thy ===== *)
theory Packet_Pass_Interface
  imports Pending_Jobs "HOL-Library.Sublist"
begin

text \<open>
  flow/PacketPassInterface.h and flow/PacketPassInterface.c: the interface over which a sender hands
  one packet at a time to a provider.  Calls between the two sides never nest, each goes through a
  job of the pending group.  The functions take the interface object and the group and return both.
  None is a failed ASSERT.  A handler pointer is a flag that says whether it is set, and the address of
  a BPending member identifies the job.

  \<open>ppi_step\<close> is the system made of an interface, its group and the two sides; the lemmas show
  that the assertions inside the job functions cannot fail and that each packet sent is answered once.
\<close>

datatype ppi_state_t =
    PPI_STATE_NONE
  | PPI_STATE_OPERATION_PENDING
  | PPI_STATE_BUSY
  | PPI_STATE_DONE_PENDING

text \<open>The job functions the interface registers in the group, and those of other objects.\<close>

datatype ppi_handler =
    PPI_job_operation
  | PPI_job_requestcancel
  | PPI_job_done
  | Other_job nat

text \<open>The calls to the two sides: handler_operation, handler_requestcancel, handler_done.\<close>

datatype ppi_call =
    Call_operation bytes
  | Call_requestcancel
  | Call_done

record packet_pass_interface =
  ppi_mtu :: int
  ppi_handler_requestcancel :: bool
  ppi_handler_done :: bool
  ppi_job_operation :: addr
  ppi_job_operation_data :: bytes
  ppi_job_requestcancel :: addr
  ppi_job_done :: addr
  ppi_state :: ppi_state_t
  ppi_cancel_requested :: bool

type_synonym ppi_group = "ppi_handler pending_group"

definition PacketPassInterface_Init ::
    "packet_pass_interface \<Rightarrow> int \<Rightarrow> ppi_group \<Rightarrow> packet_pass_interface \<times> ppi_group" where
  "PacketPassInterface_Init i mtu g =
     (let i = i\<lparr>ppi_mtu := mtu, ppi_handler_requestcancel := False, ppi_handler_done := False\<rparr>;
          g = BPending_Init (ppi_job_operation i) PPI_job_operation g;
          g = BPending_Init (ppi_job_requestcancel i) PPI_job_requestcancel g;
          g = BPending_Init (ppi_job_done i) PPI_job_done g
      in (i\<lparr>ppi_state := PPI_STATE_NONE\<rparr>, g))"

definition PacketPassInterface_Free :: "packet_pass_interface \<Rightarrow> ppi_group \<Rightarrow> ppi_group" where
  "PacketPassInterface_Free i g =
     BPending_Free (ppi_job_operation i)
       (BPending_Free (ppi_job_requestcancel i) (BPending_Free (ppi_job_done i) g))"

definition PacketPassInterface_EnableCancel ::
    "packet_pass_interface \<Rightarrow> packet_pass_interface option" where
  "PacketPassInterface_EnableCancel i =
     (if ppi_handler_requestcancel i \<or> ppi_handler_done i then None
      else Some (i\<lparr>ppi_handler_requestcancel := True\<rparr>))"

definition PacketPassInterface_Done ::
    "packet_pass_interface \<Rightarrow> ppi_group \<Rightarrow> (packet_pass_interface \<times> ppi_group) option" where
  "PacketPassInterface_Done i g =
     (if ppi_state i \<noteq> PPI_STATE_BUSY then None
      else let g = BPending_Unset (ppi_job_requestcancel i) g;
               g = BPending_Set (ppi_job_done i) g
           in Some (i\<lparr>ppi_state := PPI_STATE_DONE_PENDING\<rparr>, g))"

definition PacketPassInterface_GetMTU :: "packet_pass_interface \<Rightarrow> int" where
  "PacketPassInterface_GetMTU i = ppi_mtu i"

definition PacketPassInterface_Sender_Init ::
    "packet_pass_interface \<Rightarrow> packet_pass_interface option" where
  "PacketPassInterface_Sender_Init i =
     (if ppi_handler_done i then None else Some (i\<lparr>ppi_handler_done := True\<rparr>))"

definition PacketPassInterface_Sender_Send ::
    "packet_pass_interface \<Rightarrow> bytes \<Rightarrow> ppi_group \<Rightarrow> (packet_pass_interface \<times> ppi_group) option" where
  "PacketPassInterface_Sender_Send i data g =
     (if int (length data) > ppi_mtu i \<or> ppi_state i \<noteq> PPI_STATE_NONE \<or> \<not> ppi_handler_done i then None
      else let i = i\<lparr>ppi_job_operation_data := data\<rparr>;
               g = BPending_Set (ppi_job_operation i) g
           in Some (i\<lparr>ppi_state := PPI_STATE_OPERATION_PENDING, ppi_cancel_requested := False\<rparr>, g))"

definition PacketPassInterface_Sender_RequestCancel ::
    "packet_pass_interface \<Rightarrow> ppi_group \<Rightarrow> (packet_pass_interface \<times> ppi_group) option" where
  "PacketPassInterface_Sender_RequestCancel i g =
     (if ppi_state i = PPI_STATE_NONE \<or> \<not> ppi_handler_requestcancel i then None
      else if ppi_cancel_requested i then Some (i, g)
      else let i = i\<lparr>ppi_cancel_requested := True\<rparr>
           in if ppi_state i = PPI_STATE_OPERATION_PENDING
              then let g = BPending_Unset (ppi_job_operation i) g;
                       g = BPending_Set (ppi_job_done i) g
                   in Some (i\<lparr>ppi_state := PPI_STATE_DONE_PENDING\<rparr>, g)
              else if ppi_state i = PPI_STATE_BUSY
              then Some (i, BPending_Set (ppi_job_requestcancel i) g)
              else Some (i, g))"

definition PacketPassInterface_HasCancel :: "packet_pass_interface \<Rightarrow> bool" where
  "PacketPassInterface_HasCancel i = ppi_handler_requestcancel i"

definition PacketPassInterface_job_operation ::
    "packet_pass_interface \<Rightarrow> (packet_pass_interface \<times> ppi_call) option" where
  "PacketPassInterface_job_operation i =
     (if ppi_state i \<noteq> PPI_STATE_OPERATION_PENDING then None
      else let i = i\<lparr>ppi_state := PPI_STATE_BUSY\<rparr>
           in Some (i, Call_operation (ppi_job_operation_data i)))"

definition PacketPassInterface_job_requestcancel ::
    "packet_pass_interface \<Rightarrow> (packet_pass_interface \<times> ppi_call) option" where
  "PacketPassInterface_job_requestcancel i =
     (if ppi_state i \<noteq> PPI_STATE_BUSY \<or> \<not> ppi_cancel_requested i \<or> \<not> ppi_handler_requestcancel i then None
      else Some (i, Call_requestcancel))"

definition PacketPassInterface_job_done ::
    "packet_pass_interface \<Rightarrow> (packet_pass_interface \<times> ppi_call) option" where
  "PacketPassInterface_job_done i =
     (if ppi_state i \<noteq> PPI_STATE_DONE_PENDING then None
      else Some (i\<lparr>ppi_state := PPI_STATE_NONE\<rparr>, Call_done))"

text \<open>The call of a job's handler field by BPendingGroup_ExecuteJob; the jobs of other objects do not
  touch the interface.\<close>

fun ppi_dispatch ::
    "ppi_handler \<Rightarrow> packet_pass_interface \<Rightarrow> (packet_pass_interface \<times> ppi_call list) option" where
  "ppi_dispatch PPI_job_operation i = map_option (\<lambda>(i, c). (i, [c])) (PacketPassInterface_job_operation i)"
| "ppi_dispatch PPI_job_requestcancel i =
     map_option (\<lambda>(i, c). (i, [c])) (PacketPassInterface_job_requestcancel i)"
| "ppi_dispatch PPI_job_done i = map_option (\<lambda>(i, c). (i, [c])) (PacketPassInterface_job_done i)"
| "ppi_dispatch (Other_job n) i = Some (i, [])"

section \<open>The interface, its users and the group as a system\<close>

datatype ppi_event =
    Ev_send bytes
  | Ev_cancel
  | Ev_done
  | Ev_call ppi_call

text \<open>The set \<open>R\<close> is the jobs of the group.  The sender and the provider call the interface
  whenever the assertions of the called function hold, the group runs its first job, and other objects
  set and unset their own jobs.\<close>

inductive ppi_step :: "addr set \<Rightarrow> packet_pass_interface \<times> ppi_group \<Rightarrow> ppi_event list \<Rightarrow>
    packet_pass_interface \<times> ppi_group \<Rightarrow> bool" for R where
  send: "PacketPassInterface_Sender_Send i data g = Some (i', g') \<Longrightarrow>
    ppi_step R (i, g) [Ev_send data] (i', g')"
| cancel: "PacketPassInterface_Sender_RequestCancel i g = Some (i', g') \<Longrightarrow>
    ppi_step R (i, g) [Ev_cancel] (i', g')"
| done_: "PacketPassInterface_Done i g = Some (i', g') \<Longrightarrow> ppi_step R (i, g) [Ev_done] (i', g')"
| execute: "BPendingGroup_ExecuteJob g = Some (g', p, h) \<Longrightarrow> ppi_dispatch h i = Some (i', cs) \<Longrightarrow>
    ppi_step R (i, g) (map Ev_call cs) (i', g')"
| other_set: "p \<in> R - {ppi_job_operation i, ppi_job_requestcancel i, ppi_job_done i} \<Longrightarrow>
    ppi_step R (i, g) [] (i, BPending_Set p g)"
| other_unset: "p \<in> R - {ppi_job_operation i, ppi_job_requestcancel i, ppi_job_done i} \<Longrightarrow>
    ppi_step R (i, g) [] (i, BPending_Unset p g)"

inductive ppi_reach :: "addr set \<Rightarrow> packet_pass_interface \<times> ppi_group \<Rightarrow> ppi_event list \<Rightarrow>
    packet_pass_interface \<times> ppi_group \<Rightarrow> bool" for R where
  start: "ppi_reach R s [] s"
| step: "ppi_reach R s tr s' \<Longrightarrow> ppi_step R s' es s'' \<Longrightarrow> ppi_reach R s (tr @ es) s''"

inductive_cases ppi_stepE: "ppi_step R s es s'"

text \<open>Which job is set follows the state, and the handlers are those of Init.\<close>

definition ppi_jobs :: "packet_pass_interface \<Rightarrow> addr set" where
  "ppi_jobs i = {ppi_job_operation i, ppi_job_requestcancel i, ppi_job_done i}"

definition ppi_jobs_ok :: "packet_pass_interface \<Rightarrow> addr set \<Rightarrow> bool" where
  "ppi_jobs_ok i S \<longleftrightarrow>
     (ppi_job_operation i \<in> S \<longleftrightarrow> ppi_state i = PPI_STATE_OPERATION_PENDING) \<and>
     (ppi_job_done i \<in> S \<longleftrightarrow> ppi_state i = PPI_STATE_DONE_PENDING) \<and>
     (ppi_job_requestcancel i \<in> S \<longrightarrow> ppi_state i = PPI_STATE_BUSY \<and> ppi_cancel_requested i \<and>
        ppi_handler_requestcancel i)"

definition ppi_handlers_ok :: "addr set \<Rightarrow> packet_pass_interface \<Rightarrow> ppi_group \<Rightarrow> bool" where
  "ppi_handlers_ok R i g \<longleftrightarrow>
     distinct [ppi_job_operation i, ppi_job_requestcancel i, ppi_job_done i] \<and> ppi_jobs i \<subseteq> R \<and>
     pg_handler g (ppi_job_operation i) = PPI_job_operation \<and>
     pg_handler g (ppi_job_requestcancel i) = PPI_job_requestcancel \<and>
     pg_handler g (ppi_job_done i) = PPI_job_done \<and>
     (\<forall>p \<in> R - ppi_jobs i. \<exists>n. pg_handler g p = Other_job n)"

definition ppi_inv :: "addr set \<Rightarrow> packet_pass_interface \<times> ppi_group \<Rightarrow> bool" where
  "ppi_inv R s \<longleftrightarrow> (case s of (i, g) \<Rightarrow>
     ppi_handlers_ok R i g \<and> (\<exists>S. pg_pending R g S \<and> ppi_jobs_ok i S))"

lemma ppi_handlers_okD:
  assumes "ppi_handlers_ok R i g"
  shows "ppi_job_operation i \<in> R" "ppi_job_requestcancel i \<in> R" "ppi_job_done i \<in> R"
    and "ppi_job_operation i \<noteq> ppi_job_requestcancel i" "ppi_job_operation i \<noteq> ppi_job_done i"
    and "ppi_job_requestcancel i \<noteq> ppi_job_done i"
  using assms by (auto simp: ppi_handlers_ok_def ppi_jobs_def)

lemma ppi_handlers_ok_cong:
  "ppi_handlers_ok R i g \<Longrightarrow> ppi_job_operation i' = ppi_job_operation i \<Longrightarrow>
    ppi_job_requestcancel i' = ppi_job_requestcancel i \<Longrightarrow> ppi_job_done i' = ppi_job_done i \<Longrightarrow>
    pg_handler g' = pg_handler g \<Longrightarrow> ppi_handlers_ok R i' g'"
  by (simp add: ppi_handlers_ok_def ppi_jobs_def)

lemma ppi_invI:
  "ppi_handlers_ok R i g \<Longrightarrow> pg_pending R g S \<Longrightarrow> ppi_jobs_ok i S \<Longrightarrow> ppi_inv R (i, g)"
  by (auto simp: ppi_inv_def)

lemma ppi_invE:
  assumes "ppi_inv R (i, g)"
  obtains S where "ppi_handlers_ok R i g" "pg_pending R g S" "ppi_jobs_ok i S"
  using assms by (auto simp: ppi_inv_def)

text \<open>Init establishes the invariant when the three jobs are new to the group.\<close>

lemma ppi_inv_Init:
  assumes "pg_pending R g S" "distinct [ppi_job_operation i, ppi_job_requestcancel i, ppi_job_done i]"
    and "ppi_jobs i \<inter> R = {}" "\<forall>p \<in> R. \<exists>n. pg_handler g p = Other_job n"
  shows "ppi_inv (R \<union> ppi_jobs i) (PacketPassInterface_Init i mtu g)"
proof -
  let ?g = "BPending_Init (ppi_job_done i) PPI_job_done (BPending_Init (ppi_job_requestcancel i)
    PPI_job_requestcancel (BPending_Init (ppi_job_operation i) PPI_job_operation g))"
  have "pg_pending (insert (ppi_job_done i) (insert (ppi_job_requestcancel i)
      (insert (ppi_job_operation i) R))) ?g S"
    using assms by (intro pg_pending_Init) (auto simp: ppi_jobs_def)
  moreover have "R \<union> ppi_jobs i = insert (ppi_job_done i) (insert (ppi_job_requestcancel i)
      (insert (ppi_job_operation i) R))"
    by (auto simp: ppi_jobs_def)
  moreover have "ppi_handlers_ok (R \<union> ppi_jobs i) i ?g"
    using assms(2-4) by (auto simp: ppi_handlers_ok_def ppi_jobs_def)
  moreover have "S \<subseteq> R"
    using assms(1) by (rule pg_pending_subset)
  ultimately show ?thesis
    using assms(3) unfolding PacketPassInterface_Init_def Let_def
    by (intro ppi_invI [where S = S]) (auto simp: ppi_jobs_ok_def ppi_jobs_def
        elim!: ppi_handlers_ok_cong)
qed

lemma ppi_inv_Send:
  assumes "ppi_inv R (i, g)" "PacketPassInterface_Sender_Send i data g = Some (i', g')"
  shows "ppi_inv R (i', g')"
  using assms(1)
proof (rule ppi_invE)
  fix S assume S: "ppi_handlers_ok R i g" "pg_pending R g S" "ppi_jobs_ok i S"
  note R = ppi_handlers_okD [OF S(1)]
  show ?thesis
    using assms(2) S R pg_pending_Set [OF S(2) R(1)]
    by (intro ppi_invI [where S = "insert (ppi_job_operation i) S"])
      (auto simp: ppi_jobs_ok_def PacketPassInterface_Sender_Send_def Let_def split: if_splits
        elim!: ppi_handlers_ok_cong)
qed

lemma ppi_inv_Done:
  assumes "ppi_inv R (i, g)" "PacketPassInterface_Done i g = Some (i', g')"
  shows "ppi_inv R (i', g')"
  using assms(1)
proof (rule ppi_invE)
  fix S assume S: "ppi_handlers_ok R i g" "pg_pending R g S" "ppi_jobs_ok i S"
  note R = ppi_handlers_okD [OF S(1)]
  show ?thesis
    using assms(2) S R pg_pending_Set [OF pg_pending_Unset [OF S(2) R(2)] R(3)]
    by (intro ppi_invI [where S = "insert (ppi_job_done i) (S - {ppi_job_requestcancel i})"])
      (auto simp: ppi_jobs_ok_def PacketPassInterface_Done_def Let_def split: if_splits
        elim!: ppi_handlers_ok_cong)
qed

lemma ppi_inv_RequestCancel:
  assumes "ppi_inv R (i, g)" "PacketPassInterface_Sender_RequestCancel i g = Some (i', g')"
  shows "ppi_inv R (i', g')"
  using assms(1)
proof (rule ppi_invE)
  fix S assume S: "ppi_handlers_ok R i g" "pg_pending R g S" "ppi_jobs_ok i S"
  note R = ppi_handlers_okD [OF S(1)]
  let ?S = "if ppi_cancel_requested i then S
    else if ppi_state i = PPI_STATE_OPERATION_PENDING
    then insert (ppi_job_done i) (S - {ppi_job_operation i})
    else if ppi_state i = PPI_STATE_BUSY then insert (ppi_job_requestcancel i) S else S"
  note cancel = assms(2) [unfolded PacketPassInterface_Sender_RequestCancel_def Let_def]
  show ?thesis
  proof (rule ppi_invI [where S = ?S])
    show "pg_pending R g' ?S"
      using cancel S(2) pg_pending_Set [OF pg_pending_Unset [OF S(2) R(1)] R(3)]
        pg_pending_Set [OF S(2) R(2)]
      by (auto split: if_splits)
    show "ppi_handlers_ok R i' g'"
      using cancel S(1) by (auto split: if_splits elim!: ppi_handlers_ok_cong)
    show "ppi_jobs_ok i' ?S"
      using cancel S(3) R by (auto simp: ppi_jobs_ok_def split: if_splits)
  qed
qed

text \<open>Running the first job of the group: its assertion holds, and the invariant is kept.\<close>

lemma ppi_dispatch_ok:
  assumes "ppi_handlers_ok R i g" "ppi_jobs_ok i S" "p \<in> S" "p \<in> R"
  shows "\<exists>i' cs. ppi_dispatch (pg_handler g p) i = Some (i', cs) \<and> ppi_jobs_ok i' (S - {p}) \<and>
    ppi_handlers_ok R i' g"
proof -
  note R = ppi_handlers_okD [OF assms(1)]
  consider "p = ppi_job_operation i" | "p = ppi_job_requestcancel i" | "p = ppi_job_done i"
    | n where "p \<notin> ppi_jobs i" "pg_handler g p = Other_job n"
    using assms(1,4) by (fastforce simp: ppi_handlers_ok_def ppi_jobs_def)
  then show ?thesis
  proof cases
    case 1
    moreover have "pg_handler g p = PPI_job_operation"
      using 1 assms(1) by (simp add: ppi_handlers_ok_def)
    ultimately show ?thesis
      using assms R by (auto simp: ppi_jobs_ok_def PacketPassInterface_job_operation_def
          elim!: ppi_handlers_ok_cong)
  next
    case 2
    moreover have "pg_handler g p = PPI_job_requestcancel"
      using 2 assms(1) by (simp add: ppi_handlers_ok_def)
    ultimately show ?thesis
      using assms R by (auto simp: ppi_jobs_ok_def PacketPassInterface_job_requestcancel_def
          elim!: ppi_handlers_ok_cong)
  next
    case 3
    moreover have "pg_handler g p = PPI_job_done"
      using 3 assms(1) by (simp add: ppi_handlers_ok_def)
    ultimately show ?thesis
      using assms R by (auto simp: ppi_jobs_ok_def PacketPassInterface_job_done_def
          elim!: ppi_handlers_ok_cong)
  next
    case 4
    then show ?thesis
      using assms by (auto simp: ppi_jobs_ok_def ppi_jobs_def)
  qed
qed

lemma ppi_inv_Execute:
  assumes "ppi_inv R (i, g)" "BPendingGroup_ExecuteJob g = Some (g', p, h)"
  shows "\<exists>i' cs. ppi_dispatch h i = Some (i', cs) \<and> ppi_inv R (i', g')"
  using assms(1)
proof (rule ppi_invE)
  fix S assume S: "ppi_handlers_ok R i g" "pg_pending R g S" "ppi_jobs_ok i S"
  have ex: "p \<in> S" "h = pg_handler g p" "pg_handler g' = pg_handler g" "pg_pending R g' (S - {p})"
    using pg_pending_Execute [OF S(2) assms(2)] by auto
  with pg_pending_subset [OF S(2)] obtain i' cs where "ppi_dispatch h i = Some (i', cs)"
      "ppi_jobs_ok i' (S - {p})" "ppi_handlers_ok R i' g"
    using ppi_dispatch_ok [OF S(1,3), of p] by auto
  with ex show ?thesis
    by (blast intro: ppi_invI ppi_handlers_ok_cong)
qed

lemma ppi_inv_other:
  assumes "ppi_inv R (i, g)" "p \<in> R - {ppi_job_operation i, ppi_job_requestcancel i, ppi_job_done i}"
  shows "ppi_inv R (i, BPending_Set p g)" "ppi_inv R (i, BPending_Unset p g)"
proof -
  from assms(1) obtain S where S: "ppi_handlers_ok R i g" "pg_pending R g S" "ppi_jobs_ok i S"
    by (rule ppi_invE)
  with assms(2) pg_pending_Set [OF S(2), of p] show "ppi_inv R (i, BPending_Set p g)"
    by (intro ppi_invI [where S = "insert p S"])
      (auto simp: ppi_jobs_ok_def elim!: ppi_handlers_ok_cong)
  from S assms(2) pg_pending_Unset [OF S(2), of p] show "ppi_inv R (i, BPending_Unset p g)"
    by (intro ppi_invI [where S = "S - {p}"])
      (auto simp: ppi_jobs_ok_def elim!: ppi_handlers_ok_cong)
qed

lemma ppi_inv_step: "ppi_step R s es s' \<Longrightarrow> ppi_inv R s \<Longrightarrow> ppi_inv R s'"
proof (induction rule: ppi_step.induct)
  case (send i data g i' g')
  then show ?case
    by (rule_tac ppi_inv_Send)
next
  case (cancel i g i' g')
  then show ?case
    by (rule_tac ppi_inv_RequestCancel)
next
  case (done_ i g i' g')
  then show ?case
    by (rule_tac ppi_inv_Done)
next
  case (execute g g' p h i i' cs)
  then show ?case
    using ppi_inv_Execute [of R i g g' p h] by auto
next
  case (other_set p i g)
  then show ?case
    by (rule_tac ppi_inv_other(1))
next
  case (other_unset p i g)
  then show ?case
    by (rule_tac ppi_inv_other(2))
qed

lemma ppi_inv_reach: "ppi_reach R s tr s' \<Longrightarrow> ppi_inv R s \<Longrightarrow> ppi_inv R s'"
  by (induction rule: ppi_reach.induct) (auto dest: ppi_inv_step)

section \<open>What the two sides see\<close>

fun ev_sends :: "ppi_event list \<Rightarrow> bytes list" where
  "ev_sends [] = []"
| "ev_sends (e # es) = (case e of Ev_send d \<Rightarrow> [d] | _ \<Rightarrow> []) @ ev_sends es"

fun ev_operations :: "ppi_event list \<Rightarrow> bytes list" where
  "ev_operations [] = []"
| "ev_operations (e # es) = (case e of Ev_call (Call_operation d) \<Rightarrow> [d] | _ \<Rightarrow> []) @ ev_operations es"

fun ev_dones :: "ppi_event list \<Rightarrow> nat" where
  "ev_dones [] = 0"
| "ev_dones (e # es) = (if e = Ev_call Call_done then 1 else 0) + ev_dones es"

lemma ev_append [simp]:
  "ev_sends (xs @ ys) = ev_sends xs @ ev_sends ys"
  "ev_operations (xs @ ys) = ev_operations xs @ ev_operations ys"
  "ev_dones (xs @ ys) = ev_dones xs + ev_dones ys"
  by (induction xs) auto

text \<open>The packet in flight: sent and not yet given to the provider.\<close>

definition ppi_waiting :: "packet_pass_interface \<Rightarrow> bytes list" where
  "ppi_waiting i = (if ppi_state i = PPI_STATE_OPERATION_PENDING then [ppi_job_operation_data i] else [])"

definition ppi_trace_ok :: "packet_pass_interface \<Rightarrow> ppi_event list \<Rightarrow> bool" where
  "ppi_trace_ok i tr \<longleftrightarrow>
     length (ev_sends tr) = ev_dones tr + (if ppi_state i = PPI_STATE_NONE then 0 else 1) \<and>
     subseq (ev_operations tr @ ppi_waiting i) (ev_sends tr) \<and>
     (Ev_cancel \<notin> set tr \<longrightarrow> ev_operations tr @ ppi_waiting i = ev_sends tr)"

lemma subseq_drop_last: "subseq (xs @ [x]) ys \<Longrightarrow> subseq xs ys"
  using subseq_order.trans by (metis subseq_rev_drop_many subseq_order.order_refl)

lemma ppi_trace_call:
  assumes "ppi_trace_ok i tr" "ppi_dispatch h i = Some (i', cs)"
  shows "ppi_trace_ok i' (tr @ map Ev_call cs)"
  using assms
  by (cases h) (auto simp: ppi_trace_ok_def ppi_waiting_def PacketPassInterface_job_operation_def
      PacketPassInterface_job_requestcancel_def PacketPassInterface_job_done_def split: if_splits)

lemma ppi_trace_Send:
  assumes "ppi_trace_ok i tr" "PacketPassInterface_Sender_Send i data g = Some (i', g')"
  shows "ppi_trace_ok i' (tr @ [Ev_send data])"
  using assms by (auto simp: ppi_trace_ok_def ppi_waiting_def PacketPassInterface_Sender_Send_def
      Let_def split: if_splits)

lemma ppi_trace_Done:
  assumes "ppi_trace_ok i tr" "PacketPassInterface_Done i g = Some (i', g')"
  shows "ppi_trace_ok i' (tr @ [Ev_done])"
  using assms by (auto simp: ppi_trace_ok_def ppi_waiting_def PacketPassInterface_Done_def
      Let_def split: if_splits)

lemma ppi_trace_RequestCancel:
  assumes "ppi_trace_ok i tr" "PacketPassInterface_Sender_RequestCancel i g = Some (i', g')"
  shows "ppi_trace_ok i' (tr @ [Ev_cancel])"
  using assms by (auto simp: ppi_trace_ok_def ppi_waiting_def
      PacketPassInterface_Sender_RequestCancel_def Let_def split: if_splits dest: subseq_drop_last)

lemma ppi_trace_step:
  assumes "ppi_step R (i, g) es (i', g')" "ppi_trace_ok i tr"
  shows "ppi_trace_ok i' (tr @ es)"
  using assms
  by cases (simp_all add: ppi_trace_Send ppi_trace_Done ppi_trace_RequestCancel ppi_trace_call)

lemma ppi_trace_reach:
  assumes "ppi_reach R s tr s'" "ppi_state (fst s) = PPI_STATE_NONE"
  shows "ppi_trace_ok (fst s') tr"
  using assms
proof (induction rule: ppi_reach.induct)
  case (start s)
  then show ?case
    by (simp add: ppi_trace_ok_def ppi_waiting_def)
next
  case (step s tr s' es s'')
  then show ?case
    using ppi_trace_step by (metis prod.collapse)
qed

text \<open>C4: Start from an interface initialised by the provider and then by the sender, with or without
  cancel support, whose three jobs are new to the group.  After any
  interleaving of calls by the sender, calls by the provider, job executions and other objects' jobs,
  the next job of the group never fails an assertion of the interface; unless the interface is idle or
  the provider is working on the packet, a job is pending; every packet sent is answered exactly once,
  the packets reach the provider in the order sent, and none is lost unless a cancel was requested.\<close>
theorem packet_pass_interface_protocol:
  assumes "pg_pending R g S" "distinct [ppi_job_operation i, ppi_job_requestcancel i, ppi_job_done i]"
    and "ppi_jobs i \<inter> R = {}" "\<forall>p \<in> R. \<exists>n. pg_handler g p = Other_job n"
    and init: "PacketPassInterface_Init i mtu g = (i0, g0)"
    and ena: "i1 = i0 \<or> PacketPassInterface_EnableCancel i0 = Some i1"
    and sender: "PacketPassInterface_Sender_Init i1 = Some i2"
    and reach: "ppi_reach (R \<union> ppi_jobs i) (i2, g0) tr (i', g')"
  shows "(\<forall>g'' p h. BPendingGroup_ExecuteJob g' = Some (g'', p, h) \<longrightarrow> ppi_dispatch h i' \<noteq> None) \<and>
    (ppi_state i' \<in> {PPI_STATE_OPERATION_PENDING, PPI_STATE_DONE_PENDING} \<longrightarrow> BPendingGroup_HasJobs g') \<and>
    length (ev_sends tr) = ev_dones tr + (if ppi_state i' = PPI_STATE_NONE then 0 else 1) \<and>
    subseq (ev_operations tr) (ev_sends tr) \<and>
    (Ev_cancel \<notin> set tr \<longrightarrow> ev_operations tr @ ppi_waiting i' = ev_sends tr)"
proof -
  have "ppi_inv (R \<union> ppi_jobs i) (i0, g0)"
    using ppi_inv_Init [OF assms(1-4), of mtu] by (simp add: init)
  moreover have "ppi_state i0 = PPI_STATE_NONE"
    using init by (auto simp: PacketPassInterface_Init_def Let_def)
  ultimately have "ppi_inv (R \<union> ppi_jobs i) (i2, g0) \<and> ppi_state i2 = PPI_STATE_NONE"
    using ena sender
    by (auto simp: PacketPassInterface_EnableCancel_def PacketPassInterface_Sender_Init_def ppi_jobs_ok_def
        elim!: ppi_invE intro!: ppi_invI split: if_splits elim: ppi_handlers_ok_cong)
  then have inv: "ppi_inv (R \<union> ppi_jobs i) (i', g')" and tr: "ppi_trace_ok i' tr"
    using ppi_inv_reach [OF reach] ppi_trace_reach [OF reach] by auto
  have "BPendingGroup_HasJobs g'"
    if "ppi_state i' \<in> {PPI_STATE_OPERATION_PENDING, PPI_STATE_DONE_PENDING}"
    using inv that by (auto elim!: ppi_invE simp: ppi_jobs_ok_def pg_pending_HasJobs)
  moreover have "subseq (ev_operations tr) (ev_sends tr)"
    using tr by (auto simp: ppi_trace_ok_def ppi_waiting_def split: if_splits dest: subseq_drop_last)
  ultimately show ?thesis
    using tr ppi_inv_Execute [OF inv] by (auto simp: ppi_trace_ok_def)
qed

definition sample_interface :: packet_pass_interface where
  "sample_interface = \<lparr>ppi_mtu = 0, ppi_handler_requestcancel = True, ppi_handler_done = True,
     ppi_job_operation = 1, ppi_job_operation_data = [], ppi_job_requestcancel = 2, ppi_job_done = 3,
     ppi_state = PPI_STATE_BUSY, ppi_cancel_requested = True\<rparr>"

definition sample_group :: ppi_group where
  "sample_group = BPendingGroup_Init \<lparr>pg_jobs = \<lparr>sl_first = None, sl_last = None,
     sl_next = (\<lambda>_. None), sl_prev = (\<lambda>_. None)\<rparr>, pg_handler = (\<lambda>_. Other_job 0)\<rparr>"

theorem packet_pass_interface_protocol_witness:
  "\<exists>i2 g0 i' g'. ppi_reach {1, 2, 3} (i2, g0) [Ev_send [7]] (i', g') \<and> BPendingGroup_HasJobs g' \<and>
    [] @ ppi_waiting i' = [[7]]"
proof -
  obtain i0 g0 where init: "PacketPassInterface_Init sample_interface 5 sample_group = (i0, g0)"
    by fastforce
  then have i0: "ppi_state i0 = PPI_STATE_NONE" "\<not> ppi_handler_done i0" "ppi_mtu i0 = 5"
    by (auto simp: PacketPassInterface_Init_def Let_def)
  define i2 where "i2 = i0\<lparr>ppi_handler_done := True\<rparr>"
  have sender: "PacketPassInterface_Sender_Init i0 = Some i2"
    using i0 by (simp add: PacketPassInterface_Sender_Init_def i2_def)
  obtain i' g' where send: "PacketPassInterface_Sender_Send i2 [7] g0 = Some (i', g')"
    "ppi_state i' = PPI_STATE_OPERATION_PENDING"
    using i0 by (simp add: PacketPassInterface_Sender_Send_def i2_def Let_def)
  have jobs: "ppi_jobs sample_interface = {1, 2, 3}"
    by (simp add: ppi_jobs_def sample_interface_def)
  have reach: "ppi_reach ({} \<union> ppi_jobs sample_interface) (i2, g0) [Ev_send [7]] (i', g')"
    using ppi_reach.step [OF ppi_reach.start ppi_step.send [OF send(1)]] by simp
  have pend: "pg_pending {} sample_group {}"
    by (simp add: sample_group_def pg_pending_Group_Init)
  have "BPendingGroup_HasJobs g' \<and> ppi_waiting i' = [[7]]"
    using packet_pass_interface_protocol [OF pend _ _ _ init _ sender reach] send(2)
    by (simp add: sample_interface_def)
  with reach jobs show ?thesis
    by auto
qed

end
