(* ===== verification/Flow_Interfaces.thy ===== *)
theory Flow_Interfaces
  imports Packet_Pass_Interface
begin

text \<open>
  The three other interfaces of the flow layer: flow/PacketRecvInterface (a receiver asks for a packet),
  flow/StreamPassInterface (a sender offers stream data, some of which is accepted) and
  flow/StreamRecvInterface (a receiver asks for stream data).  As for PacketPassInterface the functions
  take the object and the pending group, and None is a failed ASSERT.  The three files have the same
  code up to names and arguments; the locale \<open>reply_interface\<close> states what they share and its
  lemmas are proved once for the three of them.
\<close>

datatype if_state = IF_STATE_NONE | IF_STATE_OPERATION_PENDING | IF_STATE_BUSY | IF_STATE_DONE_PENDING

datatype if_handler = IF_job_operation | IF_job_done | IF_other nat

type_synonym if_group = "if_handler pending_group"

section \<open>flow/PacketRecvInterface\<close>

record packet_recv_interface =
  pri_mtu :: int
  pri_handler_done :: bool
  pri_job_operation :: addr
  pri_job_operation_data :: "addr option"
  pri_job_done :: addr
  pri_job_done_len :: int
  pri_state :: if_state

definition PacketRecvInterface_Init :: "packet_recv_interface \<Rightarrow> int \<Rightarrow> if_group \<Rightarrow> packet_recv_interface \<times> if_group" where
  "PacketRecvInterface_Init i mtu g =
     (let i = i\<lparr>pri_mtu := mtu, pri_handler_done := False\<rparr>;
          g = BPending_Init (pri_job_operation i) IF_job_operation g;
          g = BPending_Init (pri_job_done i) IF_job_done g
      in (i\<lparr>pri_state := IF_STATE_NONE\<rparr>, g))"

definition PacketRecvInterface_Free :: "packet_recv_interface \<Rightarrow> if_group \<Rightarrow> if_group" where
  "PacketRecvInterface_Free i g = BPending_Free (pri_job_operation i) (BPending_Free (pri_job_done i) g)"

definition PacketRecvInterface_Done :: "packet_recv_interface \<Rightarrow> int \<Rightarrow> if_group \<Rightarrow> (packet_recv_interface \<times> if_group) option" where
  "PacketRecvInterface_Done i data_len g =
     (if data_len < 0 \<or> data_len > pri_mtu i \<or> pri_state i \<noteq> IF_STATE_BUSY then None
      else let i = i\<lparr>pri_job_done_len := data_len\<rparr>;
               g = BPending_Set (pri_job_done i) g
           in Some (i\<lparr>pri_state := IF_STATE_DONE_PENDING\<rparr>, g))"

definition PacketRecvInterface_GetMTU :: "packet_recv_interface \<Rightarrow> int" where
  "PacketRecvInterface_GetMTU i = pri_mtu i"

definition PacketRecvInterface_Receiver_Init :: "packet_recv_interface \<Rightarrow> packet_recv_interface option" where
  "PacketRecvInterface_Receiver_Init i =
     (if pri_handler_done i then None else Some (i\<lparr>pri_handler_done := True\<rparr>))"

definition PacketRecvInterface_Receiver_Recv ::
    "packet_recv_interface \<Rightarrow> addr option \<Rightarrow> if_group \<Rightarrow> (packet_recv_interface \<times> if_group) option" where
  "PacketRecvInterface_Receiver_Recv i data g =
     (if (pri_mtu i > 0 \<and> data = None) \<or> pri_state i \<noteq> IF_STATE_NONE \<or> \<not> pri_handler_done i then None
      else let i = i\<lparr>pri_job_operation_data := data\<rparr>;
               g = BPending_Set (pri_job_operation i) g
           in Some (i\<lparr>pri_state := IF_STATE_OPERATION_PENDING\<rparr>, g))"

text \<open>The job functions, with the arguments of the handler they call.\<close>

definition PacketRecvInterface_job_operation :: "packet_recv_interface \<Rightarrow> (packet_recv_interface \<times> addr option) option" where
  "PacketRecvInterface_job_operation i =
     (if pri_state i \<noteq> IF_STATE_OPERATION_PENDING then None
      else let i = i\<lparr>pri_state := IF_STATE_BUSY\<rparr>
           in Some (i, pri_job_operation_data i))"

definition PacketRecvInterface_job_done :: "packet_recv_interface \<Rightarrow> (packet_recv_interface \<times> int) option" where
  "PacketRecvInterface_job_done i =
     (if pri_state i \<noteq> IF_STATE_DONE_PENDING then None
      else let i = i\<lparr>pri_state := IF_STATE_NONE\<rparr>
           in Some (i, pri_job_done_len i))"

section \<open>flow/StreamPassInterface\<close>

record stream_pass_interface =
  spi_handler_done :: bool
  spi_job_operation :: addr
  spi_job_operation_data :: "addr option"
  spi_job_operation_len :: int
  spi_job_done :: addr
  spi_job_done_len :: int
  spi_state :: if_state

definition StreamPassInterface_Init :: "stream_pass_interface \<Rightarrow> if_group \<Rightarrow> stream_pass_interface \<times> if_group" where
  "StreamPassInterface_Init i g =
     (let i = i\<lparr>spi_handler_done := False\<rparr>;
          g = BPending_Init (spi_job_operation i) IF_job_operation g;
          g = BPending_Init (spi_job_done i) IF_job_done g
      in (i\<lparr>spi_state := IF_STATE_NONE\<rparr>, g))"

definition StreamPassInterface_Free :: "stream_pass_interface \<Rightarrow> if_group \<Rightarrow> if_group" where
  "StreamPassInterface_Free i g = BPending_Free (spi_job_operation i) (BPending_Free (spi_job_done i) g)"

definition StreamPassInterface_Done :: "stream_pass_interface \<Rightarrow> int \<Rightarrow> if_group \<Rightarrow> (stream_pass_interface \<times> if_group) option" where
  "StreamPassInterface_Done i data_len g =
     (if data_len \<le> 0 \<or> data_len > spi_job_operation_len i \<or> spi_state i \<noteq> IF_STATE_BUSY then None
      else let i = i\<lparr>spi_job_done_len := data_len\<rparr>;
               g = BPending_Set (spi_job_done i) g
           in Some (i\<lparr>spi_state := IF_STATE_DONE_PENDING\<rparr>, g))"

definition StreamPassInterface_Sender_Init :: "stream_pass_interface \<Rightarrow> stream_pass_interface option" where
  "StreamPassInterface_Sender_Init i =
     (if spi_handler_done i then None else Some (i\<lparr>spi_handler_done := True\<rparr>))"

definition StreamPassInterface_Sender_Send ::
    "stream_pass_interface \<Rightarrow> addr option \<Rightarrow> int \<Rightarrow> if_group \<Rightarrow> (stream_pass_interface \<times> if_group) option" where
  "StreamPassInterface_Sender_Send i data data_len g =
     (if data_len \<le> 0 \<or> data = None \<or> spi_state i \<noteq> IF_STATE_NONE \<or> \<not> spi_handler_done i then None
      else let i = i\<lparr>spi_job_operation_data := data, spi_job_operation_len := data_len\<rparr>;
               g = BPending_Set (spi_job_operation i) g
           in Some (i\<lparr>spi_state := IF_STATE_OPERATION_PENDING\<rparr>, g))"

text \<open>The job functions, with the arguments of the handler they call.\<close>

definition StreamPassInterface_job_operation :: "stream_pass_interface \<Rightarrow> (stream_pass_interface \<times> addr option \<times> int) option" where
  "StreamPassInterface_job_operation i =
     (if spi_state i \<noteq> IF_STATE_OPERATION_PENDING then None
      else let i = i\<lparr>spi_state := IF_STATE_BUSY\<rparr>
           in Some (i, spi_job_operation_data i, spi_job_operation_len i))"

definition StreamPassInterface_job_done :: "stream_pass_interface \<Rightarrow> (stream_pass_interface \<times> int) option" where
  "StreamPassInterface_job_done i =
     (if spi_state i \<noteq> IF_STATE_DONE_PENDING then None
      else let i = i\<lparr>spi_state := IF_STATE_NONE\<rparr>
           in Some (i, spi_job_done_len i))"

section \<open>flow/StreamRecvInterface\<close>

record stream_recv_interface =
  sri_handler_done :: bool
  sri_job_operation :: addr
  sri_job_operation_data :: "addr option"
  sri_job_operation_len :: int
  sri_job_done :: addr
  sri_job_done_len :: int
  sri_state :: if_state

definition StreamRecvInterface_Init :: "stream_recv_interface \<Rightarrow> if_group \<Rightarrow> stream_recv_interface \<times> if_group" where
  "StreamRecvInterface_Init i g =
     (let i = i\<lparr>sri_handler_done := False\<rparr>;
          g = BPending_Init (sri_job_operation i) IF_job_operation g;
          g = BPending_Init (sri_job_done i) IF_job_done g
      in (i\<lparr>sri_state := IF_STATE_NONE\<rparr>, g))"

definition StreamRecvInterface_Free :: "stream_recv_interface \<Rightarrow> if_group \<Rightarrow> if_group" where
  "StreamRecvInterface_Free i g = BPending_Free (sri_job_operation i) (BPending_Free (sri_job_done i) g)"

definition StreamRecvInterface_Done :: "stream_recv_interface \<Rightarrow> int \<Rightarrow> if_group \<Rightarrow> (stream_recv_interface \<times> if_group) option" where
  "StreamRecvInterface_Done i data_len g =
     (if data_len \<le> 0 \<or> data_len > sri_job_operation_len i \<or> sri_state i \<noteq> IF_STATE_BUSY then None
      else let i = i\<lparr>sri_job_done_len := data_len\<rparr>;
               g = BPending_Set (sri_job_done i) g
           in Some (i\<lparr>sri_state := IF_STATE_DONE_PENDING\<rparr>, g))"

definition StreamRecvInterface_Receiver_Init :: "stream_recv_interface \<Rightarrow> stream_recv_interface option" where
  "StreamRecvInterface_Receiver_Init i =
     (if sri_handler_done i then None else Some (i\<lparr>sri_handler_done := True\<rparr>))"

definition StreamRecvInterface_Receiver_Recv ::
    "stream_recv_interface \<Rightarrow> addr option \<Rightarrow> int \<Rightarrow> if_group \<Rightarrow> (stream_recv_interface \<times> if_group) option" where
  "StreamRecvInterface_Receiver_Recv i data data_len g =
     (if data_len \<le> 0 \<or> data = None \<or> sri_state i \<noteq> IF_STATE_NONE \<or> \<not> sri_handler_done i then None
      else let i = i\<lparr>sri_job_operation_data := data, sri_job_operation_len := data_len\<rparr>;
               g = BPending_Set (sri_job_operation i) g
           in Some (i\<lparr>sri_state := IF_STATE_OPERATION_PENDING\<rparr>, g))"

text \<open>The job functions, with the arguments of the handler they call.\<close>

definition StreamRecvInterface_job_operation :: "stream_recv_interface \<Rightarrow> (stream_recv_interface \<times> addr option \<times> int) option" where
  "StreamRecvInterface_job_operation i =
     (if sri_state i \<noteq> IF_STATE_OPERATION_PENDING then None
      else let i = i\<lparr>sri_state := IF_STATE_BUSY\<rparr>
           in Some (i, sri_job_operation_data i, sri_job_operation_len i))"

definition StreamRecvInterface_job_done :: "stream_recv_interface \<Rightarrow> (stream_recv_interface \<times> int) option" where
  "StreamRecvInterface_job_done i =
     (if sri_state i \<noteq> IF_STATE_DONE_PENDING then None
      else let i = i\<lparr>sri_state := IF_STATE_NONE\<rparr>
           in Some (i, sri_job_done_len i))"

section \<open>What the three share\<close>

text \<open>The operation job is set exactly in the state OPERATION_PENDING, the done job exactly in the state
  DONE_PENDING; \<open>s\<close>, \<open>jo\<close> and \<open>jd\<close> are the state and the two jobs of an
  interface.\<close>

definition reply_inv :: "addr set \<Rightarrow> if_state \<Rightarrow> addr \<Rightarrow> addr \<Rightarrow> if_group \<Rightarrow> bool" where
  "reply_inv R s jo jd g \<longleftrightarrow> jo \<in> R \<and> jd \<in> R \<and> jo \<noteq> jd \<and>
     pg_handler g jo = IF_job_operation \<and> pg_handler g jd = IF_job_done \<and>
     (\<exists>S. pg_pending R g S \<and> (jo \<in> S \<longleftrightarrow> s = IF_STATE_OPERATION_PENDING) \<and>
        (jd \<in> S \<longleftrightarrow> s = IF_STATE_DONE_PENDING))"

lemma reply_invI:
  "jo \<in> R \<Longrightarrow> jd \<in> R \<Longrightarrow> jo \<noteq> jd \<Longrightarrow> pg_handler g jo = IF_job_operation \<Longrightarrow>
    pg_handler g jd = IF_job_done \<Longrightarrow> pg_pending R g S \<Longrightarrow>
    (jo \<in> S \<longleftrightarrow> s = IF_STATE_OPERATION_PENDING) \<Longrightarrow> (jd \<in> S \<longleftrightarrow> s = IF_STATE_DONE_PENDING) \<Longrightarrow>
    reply_inv R s jo jd g"
  by (auto simp: reply_inv_def)

lemma reply_inv_Init:
  assumes "pg_pending R g S" "jo \<notin> R" "jd \<notin> R" "jo \<noteq> jd"
  shows "reply_inv (insert jd (insert jo R)) IF_STATE_NONE jo jd
    (BPending_Init jd IF_job_done (BPending_Init jo IF_job_operation g))"
  using assms pg_pending_subset [OF assms(1)]
  by (intro reply_invI [where S = S] pg_pending_Init) auto

lemma reply_inv_request:
  assumes "reply_inv R IF_STATE_NONE jo jd g"
  shows "reply_inv R IF_STATE_OPERATION_PENDING jo jd (BPending_Set jo g)"
proof -
  obtain S where "pg_pending R g S" "jo \<notin> S" "jd \<notin> S"
    using assms by (auto simp: reply_inv_def)
  then show ?thesis
    using assms pg_pending_Set [of R g S jo]
    by (intro reply_invI [where S = "insert jo S"]) (auto simp: reply_inv_def)
qed

lemma reply_inv_reply:
  assumes "reply_inv R IF_STATE_BUSY jo jd g"
  shows "reply_inv R IF_STATE_DONE_PENDING jo jd (BPending_Set jd g)"
proof -
  obtain S where "pg_pending R g S" "jo \<notin> S" "jd \<notin> S"
    using assms by (auto simp: reply_inv_def)
  then show ?thesis
    using assms pg_pending_Set [of R g S jd]
    by (intro reply_invI [where S = "insert jd S"]) (auto simp: reply_inv_def)
qed

lemma reply_inv_execute:
  assumes "reply_inv R s jo jd g" "BPendingGroup_ExecuteJob g = Some (g', p, h)"
  shows "p = jo \<and> h = IF_job_operation \<and> s = IF_STATE_OPERATION_PENDING \<and> reply_inv R IF_STATE_BUSY jo jd g' \<or>
    p = jd \<and> h = IF_job_done \<and> s = IF_STATE_DONE_PENDING \<and> reply_inv R IF_STATE_NONE jo jd g' \<or>
    p \<notin> {jo, jd} \<and> reply_inv R s jo jd g'"
proof -
  obtain S where S: "pg_pending R g S" "jo \<in> S \<longleftrightarrow> s = IF_STATE_OPERATION_PENDING"
      "jd \<in> S \<longleftrightarrow> s = IF_STATE_DONE_PENDING"
    using assms by (auto simp: reply_inv_def)
  have ex: "p \<in> S" "h = pg_handler g p" "pg_handler g' = pg_handler g" "pg_pending R g' (S - {p})"
    using pg_pending_Execute [OF S(1) assms(2)] by auto
  have inv: "reply_inv R s' jo jd g'"
    if "jo \<in> S - {p} \<longleftrightarrow> s' = IF_STATE_OPERATION_PENDING" "jd \<in> S - {p} \<longleftrightarrow> s' = IF_STATE_DONE_PENDING" for s'
    using assms(1) ex(3,4) that by (intro reply_invI [where S = "S - {p}"]) (auto simp: reply_inv_def)
  consider "p = jo" | "p = jd" | "p \<notin> {jo, jd}"
    by blast
  then show ?thesis
    by cases (use assms(1) S ex inv in \<open>auto simp: reply_inv_def\<close>)
qed

text \<open>The contract of an interface: a request in the state NONE schedules the operation job, a reply in the
  state BUSY the done job, and the two jobs make the calls with the stored arguments.\<close>

locale reply_interface =
  fixes st :: "'i \<Rightarrow> if_state" and jo :: "'i \<Rightarrow> addr" and jd :: "'i \<Rightarrow> addr"
    and request :: "'i \<Rightarrow> 'a \<Rightarrow> if_group \<Rightarrow> ('i \<times> if_group) option"
    and reply :: "'i \<Rightarrow> int \<Rightarrow> if_group \<Rightarrow> ('i \<times> if_group) option"
    and run_operation :: "'i \<Rightarrow> ('i \<times> 'a) option"
    and run_done :: "'i \<Rightarrow> ('i \<times> int) option"
    and req_arg :: "'i \<Rightarrow> 'a" and rep_arg :: "'i \<Rightarrow> int"
  assumes request_law: "request i x g = Some (i', g') \<Longrightarrow> st i = IF_STATE_NONE \<and>
      st i' = IF_STATE_OPERATION_PENDING \<and> jo i' = jo i \<and> jd i' = jd i \<and> g' = BPending_Set (jo i) g \<and>
      req_arg i' = x"
    and reply_law: "reply i y g = Some (i', g') \<Longrightarrow> st i = IF_STATE_BUSY \<and>
      st i' = IF_STATE_DONE_PENDING \<and> jo i' = jo i \<and> jd i' = jd i \<and> g' = BPending_Set (jd i) g \<and>
      rep_arg i' = y"
    and operation_law: "st i = IF_STATE_OPERATION_PENDING \<Longrightarrow>
      \<exists>i'. run_operation i = Some (i', req_arg i) \<and> st i' = IF_STATE_BUSY \<and> jo i' = jo i \<and> jd i' = jd i"
    and done_law: "st i = IF_STATE_DONE_PENDING \<Longrightarrow>
      \<exists>i'. run_done i = Some (i', rep_arg i) \<and> st i' = IF_STATE_NONE \<and> jo i' = jo i \<and> jd i' = jd i"
begin

definition inv :: "addr set \<Rightarrow> 'i \<Rightarrow> if_group \<Rightarrow> bool" where
  "inv R i g \<longleftrightarrow> reply_inv R (st i) (jo i) (jd i) g"

lemma inv_request: "inv R i g \<Longrightarrow> request i x g = Some (i', g') \<Longrightarrow> inv R i' g'"
  using request_law [of i x g i' g'] reply_inv_request [of R "jo i" "jd i" g] by (auto simp: inv_def)

lemma inv_reply: "inv R i g \<Longrightarrow> reply i y g = Some (i', g') \<Longrightarrow> inv R i' g'"
  using reply_law [of i y g i' g'] reply_inv_reply [of R "jo i" "jd i" g] by (auto simp: inv_def)

text \<open>The assertions of the two job functions hold whenever the group runs them, and they pass on the
  arguments of the request and the reply.\<close>

lemma execute_operation:
  assumes "inv R i g" "BPendingGroup_ExecuteJob g = Some (g', jo i, h)"
  shows "h = IF_job_operation \<and> (\<exists>i'. run_operation i = Some (i', req_arg i) \<and> inv R i' g')"
  using reply_inv_execute [OF assms(1) [unfolded inv_def] assms(2)] operation_law [of i] assms(1)
  by (auto simp: inv_def reply_inv_def)

lemma execute_done:
  assumes "inv R i g" "BPendingGroup_ExecuteJob g = Some (g', jd i, h)"
  shows "h = IF_job_done \<and> (\<exists>i'. run_done i = Some (i', rep_arg i) \<and> inv R i' g')"
  using reply_inv_execute [OF assms(1) [unfolded inv_def] assms(2)] done_law [of i] assms(1)
  by (auto simp: inv_def reply_inv_def)

lemma execute_other:
  "inv R i g \<Longrightarrow> BPendingGroup_ExecuteJob g = Some (g', p, h) \<Longrightarrow> p \<notin> {jo i, jd i} \<Longrightarrow> inv R i g'"
  using reply_inv_execute [of R "st i" "jo i" "jd i" g g' p h] by (auto simp: inv_def)

text \<open>A request answered without interference is handed over and answered once.\<close>

lemma request_reply_cycle:
  assumes "request i x g = Some (i1, g1)" "run_operation i1 = Some (i2, a)"
    and "reply i2 y g2 = Some (i3, g3)" "run_done i3 = Some (i4, b)"
  shows "a = x \<and> b = y \<and> st i4 = IF_STATE_NONE"
  using request_law [OF assms(1)] reply_law [OF assms(3)] operation_law [of i1] done_law [of i3] assms(2,4)
  by auto

end

interpretation pri: reply_interface pri_state pri_job_operation pri_job_done
  PacketRecvInterface_Receiver_Recv PacketRecvInterface_Done PacketRecvInterface_job_operation
  PacketRecvInterface_job_done pri_job_operation_data pri_job_done_len
  by unfold_locales (auto simp: PacketRecvInterface_Receiver_Recv_def PacketRecvInterface_Done_def
      PacketRecvInterface_job_operation_def PacketRecvInterface_job_done_def Let_def split: if_splits)

interpretation spi: reply_interface spi_state spi_job_operation spi_job_done
  "\<lambda>i (data, len). StreamPassInterface_Sender_Send i data len" StreamPassInterface_Done
  StreamPassInterface_job_operation StreamPassInterface_job_done
  "\<lambda>i. (spi_job_operation_data i, spi_job_operation_len i)" spi_job_done_len
  by unfold_locales (auto simp: StreamPassInterface_Sender_Send_def StreamPassInterface_Done_def
      StreamPassInterface_job_operation_def StreamPassInterface_job_done_def Let_def split: if_splits)

interpretation sri: reply_interface sri_state sri_job_operation sri_job_done
  "\<lambda>i (data, len). StreamRecvInterface_Receiver_Recv i data len" StreamRecvInterface_Done
  StreamRecvInterface_job_operation StreamRecvInterface_job_done
  "\<lambda>i. (sri_job_operation_data i, sri_job_operation_len i)" sri_job_done_len
  by unfold_locales (auto simp: StreamRecvInterface_Receiver_Recv_def StreamRecvInterface_Done_def
      StreamRecvInterface_job_operation_def StreamRecvInterface_job_done_def Let_def split: if_splits)

end
