(* ===== verification/Packet_Buffers.thy ===== *)
theory Packet_Buffers
  imports Chunk_Buffer Flow_Interfaces
begin

text \<open>
  flow/PacketBuffer.c, flow/SinglePacketBuffer.c and flow/BufferWriter.c.

  The handlers of the two buffers return the new state and the list of calls they make to the
  interfaces they use, in order.  A pointer into the buffer is an offset.  \<open>pb_step\<close> closes
  PacketBuffer with its two neighbours: the source answers an outstanding receive by storing a packet
  at the pointer it was given, the sink answers an outstanding send.  The lemmas show that the buffer
  never has two receives or two sends outstanding (the assertion of the interfaces), that a receive's pointer
  stays valid until it is answered, that packets come out in order, and that the buffer is never stuck.
\<close>

section \<open>flow/PacketBuffer.c\<close>

record packet_buffer =
  pb_input_mtu :: int
  pb_buf :: chunk_buffer2

datatype pb_call =
    PB_Recv "nat option"
  | PB_Send "nat option" int

definition PacketBuffer_input_handler_done :: "packet_buffer \<Rightarrow> int \<Rightarrow> packet_buffer \<times> pb_call list" where
  "PacketBuffer_input_handler_done buf in_len =
     (let was_empty = (cb_output_avail (pb_buf buf) < 0);
          buf = buf\<lparr>pb_buf := ChunkBuffer2_SubmitPacket (pb_buf buf) in_len\<rparr>
      in (buf,
          (if cb_input_avail (pb_buf buf) \<ge> pb_input_mtu buf then [PB_Recv (cb_input_dest (pb_buf buf))] else []) @
          (if was_empty then [PB_Send (cb_output_dest (pb_buf buf)) (cb_output_avail (pb_buf buf))] else [])))"

definition PacketBuffer_output_handler_done :: "packet_buffer \<Rightarrow> packet_buffer \<times> pb_call list" where
  "PacketBuffer_output_handler_done buf =
     (let was_full = (cb_input_avail (pb_buf buf) < pb_input_mtu buf);
          buf = buf\<lparr>pb_buf := ChunkBuffer2_ConsumePacket (pb_buf buf)\<rparr>
      in (buf,
          (if was_full \<and> cb_input_avail (pb_buf buf) \<ge> pb_input_mtu buf
           then [PB_Recv (cb_input_dest (pb_buf buf))] else []) @
          (if cb_output_avail (pb_buf buf) \<ge> 0
           then [PB_Send (cb_output_dest (pb_buf buf)) (cb_output_avail (pb_buf buf))] else [])))"

text \<open>\<open>malloc\<close> returns the bytes of the new block.\<close>

definition PacketBuffer_Init ::
    "('w::len word \<Rightarrow> bytes option) \<Rightarrow> int \<Rightarrow> int \<Rightarrow> (packet_buffer \<times> pb_call list) option" where
  "PacketBuffer_Init malloc input_mtu num_packets =
     (let num_blocks = ChunkBuffer2_calc_blocks input_mtu num_packets in
      if num_blocks < 0 then None
      else case BAllocArray malloc (word_of_int num_blocks) 4 of
             None \<Rightarrow> None
           | Some buf_data \<Rightarrow>
               let b = ChunkBuffer2_Init buf_data num_blocks input_mtu
               in Some (\<lparr>pb_input_mtu = input_mtu, pb_buf = b\<rparr>, [PB_Recv (cb_input_dest b)]))"

section \<open>flow/SinglePacketBuffer.c\<close>

record single_packet_buffer =
  spb_buf :: bytes

datatype spb_call =
    SPB_Recv
  | SPB_Send bytes

definition SinglePacketBuffer_input_handler_done ::
    "single_packet_buffer \<Rightarrow> nat \<Rightarrow> single_packet_buffer \<times> spb_call list" where
  "SinglePacketBuffer_input_handler_done s in_len = (s, [SPB_Send (read_at (spb_buf s) 0 in_len)])"

definition SinglePacketBuffer_output_handler_done ::
    "single_packet_buffer \<Rightarrow> single_packet_buffer \<times> spb_call list" where
  "SinglePacketBuffer_output_handler_done s = (s, [SPB_Recv])"

definition SinglePacketBuffer_Init ::
    "('w::len word \<Rightarrow> bytes option) \<Rightarrow> int \<Rightarrow> (single_packet_buffer \<times> spb_call list) option" where
  "SinglePacketBuffer_Init malloc input_mtu =
     (case BAlloc malloc (word_of_int input_mtu) of
        None \<Rightarrow> None
      | Some buf \<Rightarrow> Some (\<lparr>spb_buf = buf\<rparr>, [SPB_Recv]))"

section \<open>flow/BufferWriter.c\<close>

record buffer_writer =
  bw_recv_interface :: packet_recv_interface
  bw_out_have :: bool
  bw_out :: "addr option"
  bw_d_mtu :: int
  bw_d_writing :: bool

definition BufferWriter_output_handler_recv :: "buffer_writer \<Rightarrow> addr option \<Rightarrow> buffer_writer option" where
  "BufferWriter_output_handler_recv w data =
     (if bw_out_have w then None else Some (w\<lparr>bw_out_have := True, bw_out := data\<rparr>))"

definition BufferWriter_Init :: "buffer_writer \<Rightarrow> int \<Rightarrow> if_group \<Rightarrow> buffer_writer \<times> if_group" where
  "BufferWriter_Init w mtu g =
     (let (i, g) = PacketRecvInterface_Init (bw_recv_interface w) mtu g
      in (w\<lparr>bw_recv_interface := i, bw_out_have := False, bw_d_mtu := mtu, bw_d_writing := False\<rparr>, g))"

definition BufferWriter_Free :: "buffer_writer \<Rightarrow> if_group \<Rightarrow> if_group" where
  "BufferWriter_Free w g = PacketRecvInterface_Free (bw_recv_interface w) g"

definition BufferWriter_GetOutput :: "buffer_writer \<Rightarrow> packet_recv_interface" where
  "BufferWriter_GetOutput w = bw_recv_interface w"

text \<open>The result of StartPacket: a failed assertion, or the return value 0 or 1 with the buffer.\<close>

definition BufferWriter_StartPacket :: "buffer_writer \<Rightarrow> (buffer_writer \<times> addr option option) option" where
  "BufferWriter_StartPacket w =
     (if bw_d_writing w then None
      else if \<not> bw_out_have w then Some (w, None)
      else Some (w\<lparr>bw_d_writing := True\<rparr>, Some (bw_out w)))"

definition BufferWriter_EndPacket ::
    "buffer_writer \<Rightarrow> int \<Rightarrow> if_group \<Rightarrow> (buffer_writer \<times> if_group) option" where
  "BufferWriter_EndPacket w len g =
     (if len < 0 \<or> len > bw_d_mtu w \<or> \<not> bw_out_have w \<or> \<not> bw_d_writing w then None
      else let w = w\<lparr>bw_out_have := False\<rparr>
           in case PacketRecvInterface_Done (bw_recv_interface w) len g of
                None \<Rightarrow> None
              | Some (i, g) \<Rightarrow> Some (w\<lparr>bw_recv_interface := i, bw_d_writing := False\<rparr>, g))"

section \<open>PacketBuffer between its neighbours\<close>

text \<open>The receive outstanding with its pointer, the send outstanding with its pointer and length, and
  the packets that went in and came out.\<close>

record pb_system =
  ps_pb :: packet_buffer
  ps_recv :: "nat option option"
  ps_send :: "(nat option \<times> int) option"
  ps_in :: "bytes list"
  ps_out :: "bytes list"

text \<open>Issuing calls; None if one is made while the previous one is outstanding, the assertion in the state of
  the interface.\<close>

fun pb_issue :: "pb_call list \<Rightarrow> pb_system \<Rightarrow> pb_system option" where
  "pb_issue [] s = Some s"
| "pb_issue (PB_Recv d # cs) s =
     (if ps_recv s \<noteq> None then None else pb_issue cs (s\<lparr>ps_recv := Some d\<rparr>))"
| "pb_issue (PB_Send d n # cs) s =
     (if ps_send s \<noteq> None then None else pb_issue cs (s\<lparr>ps_send := Some (d, n)\<rparr>))"

datatype pb_event = PB_In bytes | PB_Out

text \<open>The source stores a packet of at most the MTU at the pointer of the receive and calls the done handler; the
  sink reads the packet and calls the done handler.\<close>

definition pb_input :: "bytes \<Rightarrow> pb_system \<Rightarrow> pb_system option" where
  "pb_input p s =
     (case ps_recv s of
        Some (Some d) \<Rightarrow>
          let b = pb_buf (ps_pb s);
              pb = (ps_pb s)\<lparr>pb_buf := b\<lparr>cb_mem := write_at (cb_mem b) d p\<rparr>\<rparr>;
              (pb', cs) = PacketBuffer_input_handler_done pb (int (length p))
          in pb_issue cs (s\<lparr>ps_pb := pb', ps_recv := None, ps_in := ps_in s @ [p]\<rparr>)
      | _ \<Rightarrow> None)"

definition pb_output :: "pb_system \<Rightarrow> pb_system option" where
  "pb_output s =
     (case ps_send s of
        Some (Some d, n) \<Rightarrow>
          let p = read_at (cb_mem (pb_buf (ps_pb s))) d (nat n);
              (pb', cs) = PacketBuffer_output_handler_done (ps_pb s)
          in pb_issue cs (s\<lparr>ps_pb := pb', ps_send := None, ps_out := ps_out s @ [p]\<rparr>)
      | _ \<Rightarrow> None)"

fun pb_run :: "pb_event list \<Rightarrow> pb_system \<Rightarrow> pb_system option" where
  "pb_run [] s = Some s"
| "pb_run (PB_In p # es) s = Option.bind (pb_input p s) (pb_run es)"
| "pb_run (PB_Out # es) s = Option.bind (pb_output s) (pb_run es)"

text \<open>The neighbours keep to the interface: the source answers an outstanding receive, with a packet of at most
  the MTU, and the sink answers an outstanding send.\<close>

fun pb_polite :: "pb_event list \<Rightarrow> pb_system \<Rightarrow> bool" where
  "pb_polite [] s = True"
| "pb_polite (PB_In p # es) s =
     (ps_recv s \<noteq> None \<and> int (length p) \<le> pb_input_mtu (ps_pb s) \<and>
      (case pb_input p s of None \<Rightarrow> True | Some s' \<Rightarrow> pb_polite es s'))"
| "pb_polite (PB_Out # es) s =
     (ps_send s \<noteq> None \<and> (case pb_output s of None \<Rightarrow> True | Some s' \<Rightarrow> pb_polite es s'))"

definition pb_inv :: "pb_system \<Rightarrow> bool" where
  "pb_inv s \<longleftrightarrow>
     (let b = pb_buf (ps_pb s); mtu = pb_input_mtu (ps_pb s)
      in 0 \<le> mtu \<and> mtu \<le> 4 * cb_mtu b \<and>
         (\<exists>q. cb_rep b q \<and> ps_in s = ps_out s @ q) \<and>
         ps_recv s = (if mtu \<le> cb_input_avail b then Some (cb_input_dest b) else None) \<and>
         ps_send s = (if 0 \<le> cb_output_avail b then Some (cb_output_dest b, cb_output_avail b) else None))"

lemma pb_inv_input:
  assumes "pb_inv s" "ps_recv s \<noteq> None" "int (length p) \<le> pb_input_mtu (ps_pb s)"
  shows "\<exists>s'. pb_input p s = Some s' \<and> pb_inv s' \<and> pb_input_mtu (ps_pb s') = pb_input_mtu (ps_pb s) \<and>
    cb_mtu (pb_buf (ps_pb s')) = cb_mtu (pb_buf (ps_pb s))"
proof -
  let ?b = "pb_buf (ps_pb s)" and ?mtu = "pb_input_mtu (ps_pb s)"
  obtain q where q: "cb_rep ?b q" "ps_in s = ps_out s @ q"
    using assms(1) by (auto simp: pb_inv_def Let_def)
  have mtu: "0 \<le> ?mtu" "?mtu \<le> 4 * cb_mtu ?b" "?mtu \<le> cb_input_avail ?b" "ps_recv s = Some (cb_input_dest ?b)"
    using assms(1,2) by (auto simp: pb_inv_def Let_def split: if_splits)
  then obtain d where d: "cb_input_dest ?b = Some d"
    using cb_avail_dest [OF q(1)] by auto
  let ?b' = "cb_put ?b p"
  have rep: "cb_rep ?b' (q @ [p])"
    using cb_put_rep [OF q(1) d] mtu assms(3) by simp
  have put: "ChunkBuffer2_SubmitPacket (?b\<lparr>cb_mem := write_at (cb_mem ?b) d p\<rparr>) (int (length p)) = ?b'"
    by (simp add: cb_put_def d)
  have out: "q \<noteq> [] \<Longrightarrow> cb_output_dest ?b' = cb_output_dest ?b \<and> cb_output_avail ?b' = cb_output_avail ?b"
    using cb_put_output [of ?b _ _ d p] q(1) d mtu assms(3) by (cases q) auto
  have send: "ps_send s = (if q \<noteq> [] then Some (cb_output_dest ?b, cb_output_avail ?b) else None)"
    using assms(1) cb_output_avail_iff [OF q(1)] by (auto simp: pb_inv_def Let_def)
  have "0 \<le> cb_output_avail ?b'"
    using cb_output_avail_iff [OF rep] by simp
  then show ?thesis
    using mtu d rep q(2) out send cb_output_avail_iff [OF q(1)]
    by (auto simp: pb_input_def PacketBuffer_input_handler_done_def pb_inv_def put Let_def not_less)
qed

lemma pb_inv_output:
  assumes "pb_inv s" "ps_send s \<noteq> None"
  shows "\<exists>s'. pb_output s = Some s' \<and> pb_inv s' \<and> pb_input_mtu (ps_pb s') = pb_input_mtu (ps_pb s) \<and>
    cb_mtu (pb_buf (ps_pb s')) = cb_mtu (pb_buf (ps_pb s))"
proof -
  let ?b = "pb_buf (ps_pb s)" and ?mtu = "pb_input_mtu (ps_pb s)"
  obtain q' where q': "cb_rep ?b q'" "ps_in s = ps_out s @ q'"
    using assms(1) by (auto simp: pb_inv_def Let_def)
  have send: "0 \<le> cb_output_avail ?b" "ps_send s = Some (cb_output_dest ?b, cb_output_avail ?b)"
    using assms by (auto simp: pb_inv_def Let_def split: if_splits)
  then obtain p q where q: "cb_rep ?b (p # q)" "ps_in s = ps_out s @ p # q"
    using cb_output_avail_iff [OF q'(1)] q' by (cases q') auto
  obtain d where d: "cb_output_dest ?b = Some d" "cb_output_avail ?b = int (length p)"
      "read_at (cb_mem ?b) d (length p) = p"
    using cb_output [OF q(1)] by blast
  let ?b' = "ChunkBuffer2_ConsumePacket ?b"
  have rep: "cb_rep ?b' q"
    by (rule cb_consume_rep [OF q(1)])
  have mtu: "0 \<le> ?mtu" "?mtu \<le> 4 * cb_mtu ?b"
      "ps_recv s = (if ?mtu \<le> cb_input_avail ?b then Some (cb_input_dest ?b) else None)"
    using assms(1) by (auto simp: pb_inv_def Let_def)
  have keep: "?mtu \<le> cb_input_avail ?b \<Longrightarrow> ?mtu \<le> cb_input_avail ?b' \<and> cb_input_dest ?b' = cb_input_dest ?b"
    using cb_consume_input [OF q(1)] cb_avail_dest [OF q(1)] mtu(1) by fastforce
  show ?thesis
    using send d mtu rep q(2) keep
    by (auto simp: pb_output_def PacketBuffer_output_handler_done_def pb_inv_def Let_def not_less)
qed

lemma pb_inv_run:
  "pb_inv s \<Longrightarrow> pb_polite es s \<Longrightarrow> \<exists>s'. pb_run es s = Some s' \<and> pb_inv s'"
proof (induction es arbitrary: s)
  case (Cons e es)
  show ?case
  proof (cases e)
    case (PB_In p)
    with Cons.prems obtain s' where "pb_input p s = Some s'" "pb_inv s'"
      using pb_inv_input [of s p] by auto
    then show ?thesis
      using Cons PB_In by auto
  next
    case PB_Out
    with Cons.prems obtain s' where "pb_output s = Some s'" "pb_inv s'"
      using pb_inv_output [of s] by auto
    then show ?thesis
      using Cons PB_Out by auto
  qed
qed simp

text \<open>An empty buffer is receiving, so that one of the two sides is always due to act.\<close>

lemma pb_inv_live: "pb_inv s \<Longrightarrow> ps_recv s \<noteq> None \<or> ps_send s \<noteq> None"
proof -
  assume inv: "pb_inv s"
  then obtain q where q: "cb_rep (pb_buf (ps_pb s)) q"
    by (auto simp: pb_inv_def Let_def)
  show ?thesis
  proof (cases q)
    case Nil
    with inv q cb_empty_room show ?thesis
      by (fastforce simp: pb_inv_def Let_def cb_has_room_def)
  next
    case (Cons p ps)
    with inv q cb_output_avail_iff [OF q] show ?thesis
      by (auto simp: pb_inv_def Let_def)
  qed
qed

definition pb_start :: "packet_buffer \<Rightarrow> pb_system" where
  "pb_start pb = \<lparr>ps_pb = pb, ps_recv = None, ps_send = None, ps_in = [], ps_out = []\<rparr>"

lemma calc_blocks_pos:
  assumes "0 \<le> mtu" "1 \<le> num" "0 \<le> ChunkBuffer2_calc_blocks mtu num"
  shows "bdivide_up mtu 4 < ChunkBuffer2_calc_blocks mtu num"
proof -
  have "bdivide_up mtu 4 * 1 \<le> bdivide_up mtu 4 * (num + 1)"
    using bdivide_up_bounds [OF assms(1)] assms(2) by (intro mult_left_mono) auto
  moreover have "ChunkBuffer2_calc_blocks mtu num = (1 + bdivide_up mtu 4) * (num + 1)"
    using assms(3) by (intro calc_blocks_eq) auto
  ultimately show ?thesis
    using assms(2) by (simp add: algebra_simps)
qed

lemma pb_inv_Init:
  fixes malloc :: "'w::len word \<Rightarrow> bytes option"
  assumes malloc: "\<And>n m. malloc n = Some m \<Longrightarrow> length m = unat n"
    and "0 \<le> mtu" "1 \<le> num" "4 * ChunkBuffer2_calc_blocks mtu num \<le> INT_MAX" "32 \<le> LENGTH('w)"
    and init: "PacketBuffer_Init malloc mtu num = Some (pb, cs)"
  shows "\<exists>s. pb_issue cs (pb_start pb) = Some s \<and> pb_inv s"
proof -
  let ?n = "ChunkBuffer2_calc_blocks mtu num"
  have n: "0 \<le> ?n" "bdivide_up mtu 4 < ?n"
    using init assms(2,3) calc_blocks_pos by (auto simp: PacketBuffer_Init_def Let_def split: if_splits)
  then have pos: "0 < ?n"
    using bdivide_up_bounds [OF assms(2)] by simp
  obtain m where m: "BAllocArray malloc (word_of_int ?n) 4 = Some m"
      "pb = \<lparr>pb_input_mtu = mtu, pb_buf = ChunkBuffer2_Init m ?n mtu\<rparr>"
      "cs = [PB_Recv (cb_input_dest (ChunkBuffer2_Init m ?n mtu))]"
    using init by (auto simp: PacketBuffer_Init_def Let_def split: if_splits option.splits)
  have w: "(4294967296::nat) \<le> 2 ^ LENGTH('w)"
    using power_increasing [OF assms(5), of "2::nat"] by simp
  have bound: "4 * nat ?n < 2 ^ LENGTH('w)"
    using assms(4) w by (simp add: INT_MAX_def)
  have un: "unat (word_of_int ?n :: 'w word) = nat ?n"
  proof -
    have "(word_of_int ?n :: 'w word) = of_nat (nat ?n)"
      using n(1) by simp
    moreover have "nat ?n < 2 ^ LENGTH('w)"
      using bound by (rule le_less_trans [rotated]) simp
    ultimately show ?thesis
      by (simp only: unat_of_nat_small)
  qed
  have four: "unat (4 :: 'w word) = 4"
  proof -
    have "unat (of_nat 4 :: 'w word) = 4"
      using w by (intro unat_of_nat_small) auto
    then show ?thesis
      by simp
  qed
  have "malloc (of_nat (nat ?n * 4)) = Some m"
    using m(1) BAllocArray_exact [of "word_of_int ?n" "4 :: 'w word" malloc] un four bound pos
    by (auto simp: mult.commute simp flip: unat_eq_0 split: if_splits)
  then have "length m = nat ?n * 4"
    using malloc [of "of_nat (nat ?n * 4)" m] bound unat_of_nat_small [of "nat ?n * 4", where 'w = 'w]
    by (simp add: mult.commute)
  then have rep: "cb_rep (ChunkBuffer2_Init m ?n mtu) []"
    using assms(2,4) n by (intro ChunkBuffer2_Init_rep) auto
  moreover have "mtu \<le> 4 * bdivide_up mtu 4"
    using bdivide_up_bounds [OF assms(2)] by simp
  ultimately show ?thesis
    using m(2,3) assms(2) cb_empty_room [OF rep] cb_output_avail_iff [OF rep]
    by (simp add: pb_inv_def pb_start_def cb_has_room_def Let_def)
qed

text \<open>C9: A PacketBuffer allocated by PacketBuffer_Init, with a malloc that returns blocks of the size asked for, works between
  any source and sink that keep to the interfaces: no call is made while the previous one is outstanding, the
  packets that come out are, byte for byte and in order, the packets that went in, each receive hands out the
  place where the next packet goes and nothing overwrites it, and either a receive or a send is
  always outstanding, so the flow never stalls.\<close>
theorem packet_buffer_forwards:
  fixes malloc :: "'w::len word \<Rightarrow> bytes option"
  assumes "\<And>n m. malloc n = Some m \<Longrightarrow> length m = unat n"
    and "0 \<le> mtu" "1 \<le> num" "4 * ChunkBuffer2_calc_blocks mtu num \<le> INT_MAX" "32 \<le> LENGTH('w)"
    and "PacketBuffer_Init malloc mtu num = Some (pb, cs)"
    and "pb_issue cs (pb_start pb) = Some s0" "pb_polite events s0"
  shows "\<exists>s rest. pb_run events s0 = Some s \<and> ps_in s = ps_out s @ rest \<and>
    cb_rep (pb_buf (ps_pb s)) rest \<and> (ps_recv s \<noteq> None \<or> ps_send s \<noteq> None)"
proof -
  have "pb_inv s0"
    using pb_inv_Init [OF assms(1-6)] assms(7) by auto
  then obtain s where s: "pb_run events s0 = Some s" "pb_inv s"
    using pb_inv_run assms(8) by blast
  then show ?thesis
    using pb_inv_live [OF s(2)] by (auto simp: pb_inv_def Let_def)
qed

definition sample_malloc :: "u32 \<Rightarrow> bytes option" where
  "sample_malloc n = (if n \<le> 4096 then Some (replicate (unat n) 0) else None)"

theorem packet_buffer_forwards_witness:
  "\<exists>pb cs s0 s rest. PacketBuffer_Init sample_malloc 8 2 = Some (pb, cs) \<and> pb_issue cs (pb_start pb) = Some s0 \<and>
     pb_run [PB_In [1, 2, 3]] s0 = Some s \<and> ps_in s = ps_out s @ rest \<and> (ps_recv s \<noteq> None \<or> ps_send s \<noteq> None)"
proof -
  have blocks: "ChunkBuffer2_calc_blocks 8 2 = 9"
    by (simp add: ChunkBuffer2_calc_blocks_def bdivide_up_def INT_MAX_def)
  have malloc: "\<And>n m. sample_malloc n = Some m \<Longrightarrow> length m = unat n"
    by (auto simp: sample_malloc_def split: if_splits)
  have "(SIZE_MAX :: u32) div 4 = 1073741823"
    by (simp add: word_unat_eq_iff unat_div_distrib unat_SIZE_MAX)
  then obtain pb cs where init: "PacketBuffer_Init sample_malloc 8 2 = Some (pb, cs)" "pb_input_mtu pb = 8"
    by (simp add: PacketBuffer_Init_def blocks BAllocArray_def BAlloc_def sample_malloc_def Let_def)
  have side: "(0::int) \<le> 8" "(1::int) \<le> 2" "4 * ChunkBuffer2_calc_blocks 8 2 \<le> INT_MAX" "32 \<le> LENGTH(32)"
    by (simp_all add: blocks INT_MAX_def)
  obtain s0 where s0: "pb_issue cs (pb_start pb) = Some s0" "pb_inv s0"
    using pb_inv_Init [OF malloc side init(1)] by blast
  moreover have "cs = [PB_Recv (cb_input_dest (pb_buf pb))]"
    using init(1) by (auto simp: PacketBuffer_Init_def Let_def split: if_splits option.splits)
  ultimately have "ps_recv s0 \<noteq> None" "pb_input_mtu (ps_pb s0) = 8"
    using init(2) by (auto simp: pb_start_def)
  then have polite: "pb_polite [PB_In [1, 2, 3]] s0"
    by (simp split: option.split)
  show ?thesis
    using packet_buffer_forwards [OF malloc side init(1) s0(1) polite] init(1) s0(1) by blast
qed

end
