(* ===== verification/Packet_Proto.thy ===== *)
theory Packet_Proto
  imports Packet_Buffers
begin

text \<open>
  The framing of packets in a byte stream: protocol/packetproto.h, flow/PacketProtoEncoder.c,
  flow/PacketProtoDecoder.c, flow/PacketStreamSender.c and flow/PacketProtoFlow.c.  Handlers return the
  new state with the calls they make; lengths that the code keeps in an int and never makes negative are
  natural numbers.

  The encoder is shown to write the frame of its packet, the stream sender to hand over a packet completely however
  little the stream accepts at a time, and the decoder to deliver the packets of a stream however it is
  cut into pieces.
\<close>

section \<open>protocol/packetproto.h\<close>

definition PACKETPROTO_ENCLEN :: "nat \<Rightarrow> nat" where "PACKETPROTO_ENCLEN len = 2 + len"

definition PACKETPROTO_MAXPAYLOAD :: nat where "PACKETPROTO_MAXPAYLOAD = 65535"

text \<open>struct packetproto_header in memory.\<close>

definition packetproto_header_bytes :: "u16 \<Rightarrow> bytes" where
  "packetproto_header_bytes len = mem16 len"

definition packetproto_header_len :: "bytes \<Rightarrow> u16" where
  "packetproto_header_len h = host16 h"

section \<open>flow/PacketProtoEncoder.c\<close>

record packet_proto_encoder =
  enc_output_mtu :: nat
  enc_output_packet :: "nat option"

datatype enc_call =
    Enc_Recv nat
  | Enc_Done nat

definition PacketProtoEncoder_output_handler_recv ::
    "packet_proto_encoder \<Rightarrow> nat \<Rightarrow> (packet_proto_encoder \<times> enc_call list) option" where
  "PacketProtoEncoder_output_handler_recv enc data =
     (if enc_output_packet enc \<noteq> None then None
      else Some (enc\<lparr>enc_output_packet := Some data\<rparr>, [Enc_Recv (data + 2)]))"

text \<open>The memory the packet pointer points into is an argument and a result.\<close>

definition PacketProtoEncoder_input_handler_done ::
    "packet_proto_encoder \<Rightarrow> bytes \<Rightarrow> nat \<Rightarrow> (packet_proto_encoder \<times> bytes \<times> enc_call list) option" where
  "PacketProtoEncoder_input_handler_done enc mem in_len =
     (case enc_output_packet enc of
        None \<Rightarrow> None
      | Some d \<Rightarrow>
          let mem = write_at mem d (packetproto_header_bytes (htol16 (of_nat in_len)))
          in Some (enc\<lparr>enc_output_packet := None\<rparr>, mem, [Enc_Done (PACKETPROTO_ENCLEN in_len)]))"

definition PacketProtoEncoder_Init :: "nat \<Rightarrow> packet_proto_encoder option" where
  "PacketProtoEncoder_Init input_mtu =
     (if input_mtu > PACKETPROTO_MAXPAYLOAD then None
      else Some \<lparr>enc_output_mtu = PACKETPROTO_ENCLEN input_mtu, enc_output_packet = None\<rparr>)"

section \<open>flow/PacketProtoDecoder.c\<close>

record packet_proto_decoder =
  dec_output_mtu :: nat
  dec_buf_size :: nat
  dec_buf_start :: nat
  dec_buf_used :: nat
  dec_buf :: bytes

datatype dec_call =
    Dec_Recv nat nat
  | Dec_Send bytes
  | Dec_Error

text \<open>The do-while(0) block either sends a packet and returns, or leaves with was_error; the second half of the
  function then makes room and receives.\<close>

definition PacketProtoDecoder_receive_more ::
    "packet_proto_decoder \<Rightarrow> bool \<Rightarrow> packet_proto_decoder \<times> dec_call list" where
  "PacketProtoDecoder_receive_more enc was_error =
     (let enc = (if was_error then enc\<lparr>dec_buf_start := 0, dec_buf_used := 0\<rparr>
                 else if dec_buf_start enc + dec_buf_used enc = dec_buf_size enc
                 then enc\<lparr>dec_buf := write_at (dec_buf enc) 0
                            (read_at (dec_buf enc) (dec_buf_start enc) (dec_buf_used enc)),
                          dec_buf_start := 0\<rparr>
                 else enc)
      in (enc, [Dec_Recv (dec_buf_start enc + dec_buf_used enc)
                  (dec_buf_size enc - (dec_buf_start enc + dec_buf_used enc))] @
               (if was_error then [Dec_Error] else [])))"

definition PacketProtoDecoder_process_data ::
    "packet_proto_decoder \<Rightarrow> packet_proto_decoder \<times> dec_call list" where
  "PacketProtoDecoder_process_data enc =
     (let data = dec_buf_start enc;
          left = dec_buf_used enc
      in if left < 2 then PacketProtoDecoder_receive_more enc False
         else let header = packetproto_header_len (read_at (dec_buf enc) data 2);
                  data = data + 2;
                  left = left - 2;
                  data_len = unat (ltoh16 header)
              in if data_len > dec_output_mtu enc then PacketProtoDecoder_receive_more enc True
                 else if left < data_len then PacketProtoDecoder_receive_more enc False
                 else (enc\<lparr>dec_buf_start := dec_buf_start enc + (2 + data_len),
                           dec_buf_used := dec_buf_used enc - (2 + data_len)\<rparr>,
                       [Dec_Send (read_at (dec_buf enc) data data_len)]))"

definition PacketProtoDecoder_input_handler_done ::
    "packet_proto_decoder \<Rightarrow> nat \<Rightarrow> packet_proto_decoder \<times> dec_call list" where
  "PacketProtoDecoder_input_handler_done enc data_len =
     PacketProtoDecoder_process_data (enc\<lparr>dec_buf_used := dec_buf_used enc + data_len\<rparr>)"

definition PacketProtoDecoder_output_handler_done ::
    "packet_proto_decoder \<Rightarrow> packet_proto_decoder \<times> dec_call list" where
  "PacketProtoDecoder_output_handler_done enc = PacketProtoDecoder_process_data enc"

definition PacketProtoDecoder_Init ::
    "(nat \<Rightarrow> bytes option) \<Rightarrow> nat \<Rightarrow> (packet_proto_decoder \<times> dec_call list) option" where
  "PacketProtoDecoder_Init malloc output_mtu =
     (let mtu = min output_mtu PACKETPROTO_MAXPAYLOAD;
          sz = PACKETPROTO_ENCLEN mtu
      in case malloc sz of
           None \<Rightarrow> None
         | Some buf \<Rightarrow> Some (\<lparr>dec_output_mtu = mtu, dec_buf_size = sz, dec_buf_start = 0, dec_buf_used = 0,
             dec_buf = buf\<rparr>, [Dec_Recv 0 sz]))"

definition PacketProtoDecoder_Reset :: "packet_proto_decoder \<Rightarrow> packet_proto_decoder" where
  "PacketProtoDecoder_Reset enc =
     enc\<lparr>dec_buf_start := dec_buf_start enc + dec_buf_used enc, dec_buf_used := 0\<rparr>"

section \<open>flow/PacketStreamSender.c\<close>

text \<open>The field in_len is -1 when there is no packet; \<open>pss_in\<close> is the packet the pointer in refers to.\<close>

record packet_stream_sender =
  pss_in_len :: int
  pss_in :: bytes
  pss_in_used :: int

datatype pss_call =
    PSS_Send bytes
  | PSS_Done

definition PacketStreamSender_send_data ::
    "packet_stream_sender \<Rightarrow> packet_stream_sender \<times> pss_call list" where
  "PacketStreamSender_send_data s =
     (if pss_in_used s < pss_in_len s
      then (s, [PSS_Send (read_at (pss_in s) (nat (pss_in_used s)) (nat (pss_in_len s - pss_in_used s)))])
      else (s\<lparr>pss_in_len := -1\<rparr>, [PSS_Done]))"

definition PacketStreamSender_input_handler_send ::
    "packet_stream_sender \<Rightarrow> bytes \<Rightarrow> (packet_stream_sender \<times> pss_call list) option" where
  "PacketStreamSender_input_handler_send s data =
     (if pss_in_len s \<noteq> -1 then None
      else Some (PacketStreamSender_send_data
        (s\<lparr>pss_in_len := int (length data), pss_in := data, pss_in_used := 0\<rparr>)))"

definition PacketStreamSender_output_handler_done ::
    "packet_stream_sender \<Rightarrow> int \<Rightarrow> (packet_stream_sender \<times> pss_call list) option" where
  "PacketStreamSender_output_handler_done s data_len =
     (if pss_in_len s < 0 \<or> data_len \<le> 0 \<or> data_len > pss_in_len s - pss_in_used s then None
      else Some (PacketStreamSender_send_data (s\<lparr>pss_in_used := pss_in_used s + data_len\<rparr>)))"

definition PacketStreamSender_Init :: "packet_stream_sender \<Rightarrow> packet_stream_sender" where
  "PacketStreamSender_Init s = s\<lparr>pss_in_len := -1\<rparr>"

section \<open>flow/PacketProtoFlow.c\<close>

record packet_proto_flow =
  ppf_ainput :: buffer_writer
  ppf_encoder :: packet_proto_encoder
  ppf_buffer :: packet_buffer

text \<open>The outer None is a failed assertion on the MTU, the inner one the return value 0, after which the jobs of
  the writer have been freed.  With success come the calls made to the encoder's output.\<close>

definition PacketProtoFlow_Init ::
    "('w::len word \<Rightarrow> bytes option) \<Rightarrow> int \<Rightarrow> buffer_writer \<Rightarrow> nat \<Rightarrow> int \<Rightarrow> if_group \<Rightarrow>
     ((packet_proto_flow \<times> pb_call list) option \<times> if_group) option" where
  "PacketProtoFlow_Init malloc output_mtu w input_mtu num_packets g =
     (if input_mtu > PACKETPROTO_MAXPAYLOAD \<or> num_packets \<le> 0 \<or> output_mtu < int (PACKETPROTO_ENCLEN input_mtu) then None
      else let (w, g) = BufferWriter_Init w (int input_mtu) g in
      case (PacketProtoEncoder_Init input_mtu, PacketRecvInterface_Receiver_Init (BufferWriter_GetOutput w)) of
        (Some enc, Some i) \<Rightarrow>
          let w = w\<lparr>bw_recv_interface := i\<rparr> in
          (case PacketBuffer_Init malloc (int (enc_output_mtu enc)) num_packets of
             None \<Rightarrow> Some (None, BufferWriter_Free w g)
           | Some (pb, cs) \<Rightarrow>
               Some (Some (\<lparr>ppf_ainput = w, ppf_encoder = enc, ppf_buffer = pb\<rparr>, cs), g))
      | _ \<Rightarrow> None)"

definition PacketProtoFlow_Free :: "packet_proto_flow \<Rightarrow> if_group \<Rightarrow> if_group" where
  "PacketProtoFlow_Free f g = BufferWriter_Free (ppf_ainput f) g"

definition PacketProtoFlow_GetInput :: "packet_proto_flow \<Rightarrow> buffer_writer" where
  "PacketProtoFlow_GetInput f = ppf_ainput f"

section \<open>The frame format\<close>

text \<open>The frame of a packet: its length in little endian order and its bytes.\<close>

definition frame :: "bytes \<Rightarrow> bytes" where
  "frame p = [of_nat (length p), of_nat (length p div 256)] @ p"

function packetproto_decode :: "nat \<Rightarrow> bytes \<Rightarrow> bytes list \<times> bytes \<times> bool" where
  "packetproto_decode mtu bs =
     (if length bs < 2 then ([], bs, False)
      else let n = unat (bs ! 0) + 256 * unat (bs ! 1)
           in if n > mtu then ([], bs, True)
              else if length bs < 2 + n then ([], bs, False)
              else let (ps, rest, err) = packetproto_decode mtu (drop (2 + n) bs)
                   in (take n (drop 2 bs) # ps, rest, err))"
  by pat_completeness auto
termination
  by (relation "measure (\<lambda>(mtu, bs). length bs)") auto

declare packetproto_decode.simps [simp del]

lemma mem16_of_nat:
  assumes "n \<le> 65535"
  shows "mem16 (of_nat n) = [of_nat n, of_nat (n div 256)]"
proof -
  have "unat (of_nat n :: u16) = n"
    using assms by (intro unat_of_nat_small) simp
  then show ?thesis
    by (simp add: mem16_def word_unat_eq_iff word_conv unsigned_of_nat take_bit_eq_mod)
qed

lemma unat_host16_nth: "unat (host16 h) = unat (h ! 0) + 256 * unat (h ! 1)"
  by (simp add: host16_def word_conv)

lemma frame_len:
  assumes "length p \<le> 65535"
  shows "unat (frame p ! 0) + 256 * unat (frame p ! Suc 0) = length p"
  using assms by (simp add: frame_def unsigned_of_nat take_bit_eq_mod)

lemma length_frame [simp]: "length (frame p) = 2 + length p"
  by (simp add: frame_def)

text \<open>The reference decoder inverts the framing, and looks at no more than it needs.\<close>

lemma decode_frame:
  assumes "length p \<le> mtu" "mtu \<le> 65535"
  shows "packetproto_decode mtu (frame p @ bs) =
    (let (ps, rest, err) = packetproto_decode mtu bs in (p # ps, rest, err))"
proof -
  have "unat ((frame p @ bs) ! 0) + 256 * unat ((frame p @ bs) ! Suc 0) = length p"
    using assms frame_len [of p] by (simp add: nth_append)
  moreover have "drop (2 + length p) (frame p @ bs) = bs" "take (length p) (drop 2 (frame p @ bs)) = p"
    by (simp_all add: frame_def)
  ultimately show ?thesis
    using assms by (subst packetproto_decode.simps) (simp add: Let_def)
qed

lemma decode_frames:
  assumes "\<forall>p \<in> set ps. length p \<le> mtu" "mtu \<le> 65535"
  shows "packetproto_decode mtu (concat (map frame ps) @ bs) =
    (let (qs, rest, err) = packetproto_decode mtu bs in (ps @ qs, rest, err))"
  using assms by (induction ps) (auto simp: decode_frame Let_def split: prod.splits)

text \<open>What is left to decode: too little for a packet, or a header that announces too much.\<close>

definition dec_incomplete :: "nat \<Rightarrow> bytes \<Rightarrow> bool" where
  "dec_incomplete mtu c \<longleftrightarrow> length c < 2 \<or>
     unat (c ! 0) + 256 * unat (c ! 1) \<le> mtu \<and> length c < 2 + (unat (c ! 0) + 256 * unat (c ! 1))"

definition dec_too_large :: "nat \<Rightarrow> bytes \<Rightarrow> bool" where
  "dec_too_large mtu c \<longleftrightarrow> 2 \<le> length c \<and> unat (c ! 0) + 256 * unat (c ! 1) > mtu"

lemma frame_cases:
  obtains "dec_incomplete mtu c" | "dec_too_large mtu c"
    | p r where "c = frame p @ r" "length p \<le> mtu" "length p \<le> 65535"
      "unat (c ! 0) + 256 * unat (c ! 1) = length p"
proof -
  let ?n = "unat (c ! 0) + 256 * unat (c ! 1)"
  consider "dec_incomplete mtu c" | "dec_too_large mtu c" | "2 + ?n \<le> length c" "?n \<le> mtu"
    unfolding dec_incomplete_def dec_too_large_def by linarith
  then show thesis
  proof cases
    case 3
    then obtain a b r where c: "c = a # b # r"
      by (metis One_nat_def Suc_le_length_iff add_2_eq_Suc)
    let ?p = "take ?n r"
    have n: "length ?p = ?n" "?n \<le> 65535"
      using 3 c unat_u8_less [of "c ! 0"] unat_u8_less [of "c ! 1"] by (simp, linarith)
    have "(256 :: u8) = 0"
      by (rule word_unat_eq_iff [THEN iffD2]) simp
    then have "256 * b = 0"
      by (simp only: mult_zero_left)
    then have "of_nat ?n = a" "of_nat (?n div 256) = b"
      using c unat_u8_less [of a] by simp_all
    then have "c = frame ?p @ drop ?n r"
      using c n by (simp add: frame_def)
    then show thesis
      using that(3) [of ?p "drop ?n r"] n 3 by simp
  qed (use that in blast)+
qed

lemma decode_incomplete: "dec_incomplete mtu c \<Longrightarrow> packetproto_decode mtu c = ([], c, False)"
  by (subst packetproto_decode.simps) (auto simp: dec_incomplete_def Let_def)

lemma decode_too_large: "dec_too_large mtu c \<Longrightarrow> packetproto_decode mtu c = ([], c, True)"
  by (subst packetproto_decode.simps) (auto simp: dec_too_large_def Let_def)

lemma dec_too_large_append: "dec_too_large mtu c \<Longrightarrow> dec_too_large mtu (c @ x)"
  by (auto simp: dec_too_large_def nth_append)

section \<open>The encoder writes the frame\<close>

lemma encoder_frames:
  assumes "enc_output_packet enc = Some d" "length p \<le> PACKETPROTO_MAXPAYLOAD"
    and "d + 2 + length p \<le> length mem" "read_at mem (d + 2) (length p) = p"
  shows "\<exists>mem'. PacketProtoEncoder_input_handler_done enc mem (length p) =
      Some (enc\<lparr>enc_output_packet := None\<rparr>, mem', [Enc_Done (length (frame p))]) \<and>
    read_at mem' d (length (frame p)) = frame p \<and> length mem' = length mem"
proof -
  let ?h = "packetproto_header_bytes (htol16 (of_nat (length p)))"
  have h: "?h = [of_nat (length p), of_nat (length p div 256)]"
    using assms(2) by (simp add: packetproto_header_bytes_def htol16_def mem16_of_nat PACKETPROTO_MAXPAYLOAD_def)
  let ?m = "write_at mem d ?h"
  have "read_at ?m d (2 + length p) = read_at ?m d 2 @ read_at ?m (d + 2) (length p)"
    by (rule read_at_add)
  moreover have "read_at ?m d 2 = ?h"
    using assms(3) h by (intro read_write_same) auto
  moreover have "read_at ?m (d + 2) (length p) = p"
    using assms(3,4) h by (subst read_write_after) auto
  ultimately show ?thesis
    using assms h by (simp add: PacketProtoEncoder_input_handler_done_def PACKETPROTO_ENCLEN_def frame_def)
qed

section \<open>The stream sender hands over everything\<close>

text \<open>Feed the sender the acceptances of the stream, collecting what the stream takes.\<close>

fun pss_run :: "packet_stream_sender \<times> pss_call list \<Rightarrow> nat list \<Rightarrow>
    (packet_stream_sender \<times> pss_call list \<times> bytes) option" where
  "pss_run (s, cs) [] = Some (s, cs, [])"
| "pss_run (s, [PSS_Send d]) (n # ns) =
     Option.bind (PacketStreamSender_output_handler_done s (int n))
       (\<lambda>r. map_option (\<lambda>(s', cs, taken). (s', cs, take n d @ taken)) (pss_run r ns))"
| "pss_run (s, _) (n # ns) = None"

lemma pss_send_data:
  "0 \<le> pss_in_used s \<Longrightarrow> pss_in_used s \<le> pss_in_len s \<Longrightarrow> pss_in_len s = int (length (pss_in s)) \<Longrightarrow>
   PacketStreamSender_send_data s =
     (if drop (nat (pss_in_used s)) (pss_in s) \<noteq> [] then (s, [PSS_Send (drop (nat (pss_in_used s)) (pss_in s))])
      else (s\<lparr>pss_in_len := -1\<rparr>, [PSS_Done]))"
  by (auto simp: PacketStreamSender_send_data_def read_at_def nat_diff_distrib nat_less_iff)

lemma pss_run_done: "pss_run (s, [PSS_Done]) ns = Some (s', cs, taken) \<Longrightarrow> ns = [] \<and> s' = s \<and> cs = [PSS_Done] \<and> taken = []"
  by (cases ns) auto

lemma pss_run_send:
  assumes "pss_run (s, [PSS_Send (drop k p)]) ns = Some (s', cs, taken)"
    and "pss_in s = p" "pss_in_len s = int (length p)" "pss_in_used s = int k" "k < length p"
  shows "cs = [PSS_Done] \<and> taken = drop k p \<and> pss_in_len s' = -1 \<or>
    (\<exists>j. j < length p \<and> cs = [PSS_Send (drop j p)] \<and> k \<le> j \<and> taken = take (j - k) (drop k p))"
  using assms
proof (induction ns arbitrary: s k taken)
  case Nil
  then show ?case
    by auto
next
  case (Cons n ns)
  from Cons.prems obtain r t where r: "PacketStreamSender_output_handler_done s (int n) = Some r"
      "pss_run r ns = Some (s', cs, t)" "taken = take n (drop k p) @ t"
    by (auto simp: bind_eq_Some_conv)
  have n: "0 < n" "k + n \<le> length p"
    and r': "r = PacketStreamSender_send_data (s\<lparr>pss_in_used := int (k + n)\<rparr>)"
    using r(1) Cons.prems by (auto simp: PacketStreamSender_output_handler_done_def split: if_splits)
  let ?s = "s\<lparr>pss_in_used := int (k + n)\<rparr>"
  show ?case
  proof (cases "k + n = length p")
    case True
    then have "r = (?s\<lparr>pss_in_len := -1\<rparr>, [PSS_Done])"
      using r' Cons.prems by (simp add: PacketStreamSender_send_data_def)
    then have "s' = ?s\<lparr>pss_in_len := -1\<rparr>" "cs = [PSS_Done]" "t = []"
      using pss_run_done r(2) by blast+
    then show ?thesis
      using r(3) True by simp
  next
    case False
    with n have lt: "k + n < length p"
      by simp
    then have "r = (?s, [PSS_Send (drop (k + n) p)])"
      using r' Cons.prems pss_send_data [of ?s] by (simp add: nat_add_distrib)
    then have ih: "cs = [PSS_Done] \<and> t = drop (k + n) p \<and> pss_in_len s' = -1 \<or>
        (\<exists>j. j < length p \<and> cs = [PSS_Send (drop j p)] \<and> k + n \<le> j \<and> t = take (j - (k + n)) (drop (k + n) p))"
      using Cons.IH [of ?s "k + n" t] r(2) Cons.prems lt by simp
    have join: "take n (drop k p) @ take (j - (k + n)) (drop (k + n) p) = take (j - k) (drop k p)" if "k + n \<le> j" for j
      using that take_add [of n "j - (k + n)" "drop k p"] by (simp add: add.commute)
    have all: "take n (drop k p) @ drop (k + n) p = drop k p"
      by (metis append_take_drop_id drop_drop add.commute)
    show ?thesis
      using ih
    proof
      assume "cs = [PSS_Done] \<and> t = drop (k + n) p \<and> pss_in_len s' = -1"
      then show ?thesis
        using r(3) all by simp
    next
      assume "\<exists>j. j < length p \<and> cs = [PSS_Send (drop j p)] \<and> k + n \<le> j \<and> t = take (j - (k + n)) (drop (k + n) p)"
      then obtain j where "j < length p" "cs = [PSS_Send (drop j p)]" "k + n \<le> j"
          "t = take (j - (k + n)) (drop (k + n) p)"
        by blast
      then show ?thesis
        using r(3) join [of j] by auto
    qed
  qed
qed

text \<open>C12: However the stream below takes the data, in pieces of any size within what it is offered, the bytes the
  PacketStreamSender has handed over are a prefix of the packet, the next piece it offers is exactly the
  rest, and it reports the packet as done, ready for the next one, exactly when everything was handed over.\<close>
theorem stream_sender_sends_all:
  assumes "pss_in_len s = -1"
    and "PacketStreamSender_input_handler_send s data = Some r"
    and "pss_run r ns = Some (s', cs, taken)"
  shows "(cs = [PSS_Done] \<and> taken = data \<and> pss_in_len s' = -1) \<or>
    (\<exists>rest. rest \<noteq> [] \<and> cs = [PSS_Send rest] \<and> data = taken @ rest)"
proof (cases "data = []")
  case True
  then have "r = (s\<lparr>pss_in_len := 0, pss_in := [], pss_in_used := 0\<rparr>\<lparr>pss_in_len := -1\<rparr>, [PSS_Done])"
    using assms(1,2) by (simp add: PacketStreamSender_input_handler_send_def PacketStreamSender_send_data_def)
  then have "s' = s\<lparr>pss_in_len := 0, pss_in := [], pss_in_used := 0\<rparr>\<lparr>pss_in_len := -1\<rparr> \<and> cs = [PSS_Done] \<and> taken = []"
    using pss_run_done assms(3) by blast
  then show ?thesis
    using True by simp
next
  case False
  let ?s = "s\<lparr>pss_in_len := int (length data), pss_in := data, pss_in_used := 0\<rparr>"
  have "r = (?s, [PSS_Send (drop 0 data)])"
    using assms(1,2) False pss_send_data [of ?s] by (simp add: PacketStreamSender_input_handler_send_def)
  then have "cs = [PSS_Done] \<and> taken = data \<and> pss_in_len s' = -1 \<or>
      (\<exists>j. j < length data \<and> cs = [PSS_Send (drop j data)] \<and> taken = take j data)"
    using pss_run_send [of ?s 0 data ns s' cs taken] assms(3) False by auto
  then show ?thesis
  proof
    assume "\<exists>j. j < length data \<and> cs = [PSS_Send (drop j data)] \<and> taken = take j data"
    then obtain j where "j < length data" "cs = [PSS_Send (drop j data)]" "taken = take j data"
      by blast
    then show ?thesis
      by (intro disjI2 exI [of _ "drop j data"]) simp
  qed blast
qed

theorem stream_sender_sends_all_witness:
  "\<exists>r s' cs taken. PacketStreamSender_input_handler_send \<lparr>pss_in_len = -1, pss_in = [], pss_in_used = 0\<rparr> [1, 2, 3] = Some r \<and>
     pss_run r [1, 2] = Some (s', cs, taken) \<and> cs = [PSS_Done] \<and> taken = [1, 2, 3]"
  using stream_sender_sends_all [of "\<lparr>pss_in_len = -1, pss_in = [], pss_in_used = 0\<rparr>" "[1, 2, 3]" _ "[1, 2]"]
  by (simp add: PacketStreamSender_input_handler_send_def PacketStreamSender_output_handler_done_def
      PacketStreamSender_send_data_def read_at_def)

section \<open>The decoder delivers the packets of the stream\<close>

definition dec_ok :: "packet_proto_decoder \<Rightarrow> bool" where
  "dec_ok d \<longleftrightarrow> length (dec_buf d) = dec_buf_size d \<and> dec_buf_size d = 2 + dec_output_mtu d \<and>
     dec_output_mtu d \<le> 65535 \<and> dec_buf_start d + dec_buf_used d \<le> dec_buf_size d"

text \<open>The bytes received and not yet delivered.\<close>

definition dec_content :: "packet_proto_decoder \<Rightarrow> bytes" where
  "dec_content d = read_at (dec_buf d) (dec_buf_start d) (dec_buf_used d)"

lemma dec_content_length: "dec_ok d \<Longrightarrow> length (dec_content d) = dec_buf_used d"
  by (simp add: dec_ok_def dec_content_def)

lemma dec_header:
  assumes "dec_ok d" "2 \<le> dec_buf_used d"
  shows "unat (ltoh16 (packetproto_header_len (read_at (dec_buf d) (dec_buf_start d) 2))) =
    unat (dec_content d ! 0) + 256 * unat (dec_content d ! 1)"
proof -
  have "read_at (dec_buf d) (dec_buf_start d) 2 ! i = dec_content d ! i" if "i < 2" for i
    using assms that by (simp add: dec_content_def read_at_def dec_ok_def)
  then show ?thesis
    by (simp add: packetproto_header_len_def ltoh16_def htol16_def unat_host16_nth)
qed

lemma receive_more_wait:
  assumes "dec_ok d" "dec_buf_used d < dec_buf_size d"
  shows "\<exists>d'. PacketProtoDecoder_receive_more d False =
      (d', [Dec_Recv (dec_buf_start d' + dec_buf_used d') (dec_buf_size d' - (dec_buf_start d' + dec_buf_used d'))]) \<and>
    dec_ok d' \<and> dec_content d' = dec_content d \<and> dec_output_mtu d' = dec_output_mtu d \<and>
    dec_buf_start d' + dec_buf_used d' < dec_buf_size d'"
proof (cases "dec_buf_start d + dec_buf_used d = dec_buf_size d")
  case True
  define c where "c = dec_content d"
  let ?d = "d\<lparr>dec_buf := write_at (dec_buf d) 0 c, dec_buf_start := 0\<rparr>"
  have len: "length c = dec_buf_used d"
    unfolding c_def by (rule dec_content_length [OF assms(1)])
  have "read_at (write_at (dec_buf d) 0 c) 0 (dec_buf_used d) = c"
    using assms len by (intro read_write_same) (auto simp: dec_ok_def)
  then have "dec_content ?d = c"
    by (simp add: dec_content_def)
  moreover have "dec_ok ?d"
    using assms len by (simp add: dec_ok_def)
  moreover have "PacketProtoDecoder_receive_more d False =
      (?d, [Dec_Recv (dec_buf_used d) (dec_buf_size d - dec_buf_used d)])"
    using True by (simp add: PacketProtoDecoder_receive_more_def c_def dec_content_def)
  ultimately show ?thesis
    using assms(2) c_def by (intro exI [of _ ?d]) simp
next
  case False
  then show ?thesis
    using assms by (intro exI [of _ d]) (simp add: PacketProtoDecoder_receive_more_def dec_ok_def)
qed

lemma process_data_wait:
  assumes "dec_ok d" "dec_incomplete (dec_output_mtu d) (dec_content d)"
  shows "\<exists>d'. PacketProtoDecoder_process_data d =
      (d', [Dec_Recv (dec_buf_start d' + dec_buf_used d') (dec_buf_size d' - (dec_buf_start d' + dec_buf_used d'))]) \<and>
    dec_ok d' \<and> dec_content d' = dec_content d \<and> dec_output_mtu d' = dec_output_mtu d \<and>
    dec_buf_start d' + dec_buf_used d' < dec_buf_size d'"
proof -
  let ?n = "unat (dec_content d ! 0) + 256 * unat (dec_content d ! 1)"
  have n: "dec_buf_used d < 2 \<or> ?n \<le> dec_output_mtu d \<and> dec_buf_used d - 2 < ?n"
    using assms(2) dec_content_length [OF assms(1)] by (auto simp: dec_incomplete_def)
  then have "PacketProtoDecoder_process_data d = PacketProtoDecoder_receive_more d False"
  proof (cases "dec_buf_used d < 2")
    case False
    then have "unat (ltoh16 (packetproto_header_len (read_at (dec_buf d) (dec_buf_start d) 2))) = ?n"
      using dec_header [OF assms(1)] by simp
    with False n show ?thesis
      by (simp add: PacketProtoDecoder_process_data_def Let_def)
  qed (simp add: PacketProtoDecoder_process_data_def)
  moreover have "dec_buf_used d < dec_buf_size d"
    using n assms(1) by (auto simp: dec_ok_def)
  ultimately show ?thesis
    using receive_more_wait [OF assms(1)] by simp
qed

lemma process_data_send:
  assumes "dec_ok d" "dec_content d = frame p @ r" "length p \<le> dec_output_mtu d"
  shows "\<exists>d'. PacketProtoDecoder_process_data d = (d', [Dec_Send p]) \<and> dec_ok d' \<and> dec_content d' = r \<and>
    dec_output_mtu d' = dec_output_mtu d"
proof -
  let ?n = "length p"
  let ?d = "d\<lparr>dec_buf_start := dec_buf_start d + (2 + ?n), dec_buf_used := dec_buf_used d - (2 + ?n)\<rparr>"
  have used: "dec_buf_used d = 2 + ?n + length r"
    using dec_content_length [OF assms(1)] assms(2) by simp
  have "?n \<le> 65535"
    using assms(1,3) by (simp add: dec_ok_def)
  then have hdr: "unat (ltoh16 (packetproto_header_len (read_at (dec_buf d) (dec_buf_start d) 2))) = ?n"
    using dec_header [OF assms(1)] used assms(2) frame_len [of p] by (simp add: nth_append)
  have split: "dec_content d = read_at (dec_buf d) (dec_buf_start d) 2 @
      read_at (dec_buf d) (dec_buf_start d + 2) ?n @ read_at (dec_buf d) (dec_buf_start d + (2 + ?n)) (length r)"
    unfolding dec_content_def used using read_at_add [of "dec_buf d" "dec_buf_start d" "2 + ?n" "length r"]
      read_at_add [of "dec_buf d" "dec_buf_start d" 2 ?n] by simp
  have "length (read_at (dec_buf d) (dec_buf_start d) 2) = length [of_nat ?n :: u8, of_nat (?n div 256)]"
      "length (read_at (dec_buf d) (dec_buf_start d + 2) ?n) = length p"
    using assms(1) used by (simp_all add: dec_ok_def)
  moreover have "dec_content d = [of_nat ?n, of_nat (?n div 256)] @ p @ r"
    by (simp add: assms(2) frame_def)
  ultimately have parts: "read_at (dec_buf d) (dec_buf_start d + 2) ?n = p"
      "read_at (dec_buf d) (dec_buf_start d + (2 + ?n)) (length r) = r"
    using split by (metis append_eq_append_conv)+
  have "PacketProtoDecoder_process_data d = (?d, [Dec_Send p])"
    using hdr used assms(3) parts(1) by (simp add: PacketProtoDecoder_process_data_def Let_def)
  moreover have "dec_ok ?d"
    using assms(1) used by (auto simp: dec_ok_def)
  moreover have "dec_content ?d = r"
    using used parts(2) by (simp add: dec_content_def)
  ultimately show ?thesis
    by auto
qed

text \<open>The place behind the bytes received.\<close>

definition dec_waiting :: "packet_proto_decoder \<Rightarrow> nat \<times> nat" where
  "dec_waiting d = (dec_buf_start d + dec_buf_used d, dec_buf_size d - (dec_buf_start d + dec_buf_used d))"

text \<open>A header that announces more than the MTU drops everything received and reports an error.\<close>

lemma process_data_error:
  assumes "dec_ok d" "dec_too_large (dec_output_mtu d) (dec_content d)"
  shows "\<exists>d'. PacketProtoDecoder_process_data d =
      (d', [Dec_Recv (fst (dec_waiting d')) (snd (dec_waiting d')), Dec_Error]) \<and> dec_ok d' \<and>
    dec_content d' = [] \<and> dec_output_mtu d' = dec_output_mtu d \<and> 0 < snd (dec_waiting d')"
proof -
  let ?n = "unat (dec_content d ! 0) + 256 * unat (dec_content d ! 1)"
  have "2 \<le> dec_buf_used d" "?n > dec_output_mtu d"
    using assms(2) dec_content_length [OF assms(1)] by (simp_all add: dec_too_large_def)
  moreover have "unat (ltoh16 (packetproto_header_len (read_at (dec_buf d) (dec_buf_start d) 2))) = ?n"
    using dec_header [OF assms(1) calculation(1)] .
  ultimately have "PacketProtoDecoder_process_data d = PacketProtoDecoder_receive_more d True"
    by (simp add: PacketProtoDecoder_process_data_def Let_def)
  with assms(1) show ?thesis
    by (simp add: PacketProtoDecoder_receive_more_def dec_ok_def dec_content_def dec_waiting_def)
qed

text \<open>Deliver the packets the decoder sends, calling its done handler after each, until it receives again.\<close>

lemma process_data_used:
  "PacketProtoDecoder_process_data d = (d', cs) \<Longrightarrow>
    dec_buf_used d' \<le> dec_buf_used d \<and> (cs = [Dec_Send p] \<longrightarrow> dec_buf_used d' < dec_buf_used d)"
  by (auto simp: PacketProtoDecoder_process_data_def PacketProtoDecoder_receive_more_def Let_def split: if_splits)

function dec_pump :: "packet_proto_decoder \<times> dec_call list \<Rightarrow>
    bytes list \<times> packet_proto_decoder \<times> dec_call list" where
  "dec_pump (d, [Dec_Send p]) =
     (let (ps, r) = dec_pump (PacketProtoDecoder_output_handler_done d) in (p # ps, r))"
| "dec_pump (d, []) = ([], d, [])"
| "dec_pump (d, Dec_Recv a b # cs) = ([], d, Dec_Recv a b # cs)"
| "dec_pump (d, Dec_Error # cs) = ([], d, Dec_Error # cs)"
| "dec_pump (d, Dec_Send p # c # cs) = ([], d, Dec_Send p # c # cs)"
  by pat_completeness auto
termination
proof (relation "measure (\<lambda>(d, cs). 2 * dec_buf_used d + (case cs of [Dec_Send p] \<Rightarrow> 1 | _ \<Rightarrow> 0))")
  fix d p
  obtain d' cs where r: "PacketProtoDecoder_output_handler_done d = (d', cs)"
    by fastforce
  then show "(PacketProtoDecoder_output_handler_done d, d, [Dec_Send p]) \<in>
      measure (\<lambda>(d, cs). 2 * dec_buf_used d + (case cs of [Dec_Send p] \<Rightarrow> 1 | _ \<Rightarrow> 0))"
    using process_data_used [of d d' cs]
    by (auto simp: PacketProtoDecoder_output_handler_done_def split: list.splits dec_call.splits)
qed simp

record dec_system =
  ds_dec :: packet_proto_decoder
  ds_recv :: "(nat \<times> nat) option"
  ds_out :: "bytes list"
  ds_errors :: nat

fun dec_settle :: "bytes list \<times> packet_proto_decoder \<times> dec_call list \<Rightarrow> dec_system \<Rightarrow> dec_system" where
  "dec_settle (ps, d, cs) s =
     s\<lparr>ds_dec := d, ds_recv := (case cs of Dec_Recv off len # _ \<Rightarrow> Some (off, len) | _ \<Rightarrow> None),
       ds_out := ds_out s @ ps, ds_errors := ds_errors s + (if Dec_Error \<in> set cs then 1 else 0)\<rparr>"

text \<open>The stream answers the outstanding receive with a piece of at most the length asked for.\<close>

definition dec_feed :: "bytes \<Rightarrow> dec_system \<Rightarrow> dec_system option" where
  "dec_feed chunk s =
     (case ds_recv s of
        None \<Rightarrow> None
      | Some (off, len) \<Rightarrow>
          if chunk = [] \<or> length chunk > len then None
          else let d = (ds_dec s)\<lparr>dec_buf := write_at (dec_buf (ds_dec s)) off chunk\<rparr>
               in Some (dec_settle (dec_pump (PacketProtoDecoder_input_handler_done d (length chunk))) s))"

fun dec_run :: "bytes list \<Rightarrow> dec_system \<Rightarrow> dec_system option" where
  "dec_run [] s = Some s"
| "dec_run (c # cs) s = Option.bind (dec_feed c s) (dec_run cs)"

lemma pump_process:
  assumes "dec_ok d"
  shows "\<exists>ps d' c es. dec_pump (PacketProtoDecoder_process_data d) =
      (ps, d', Dec_Recv (fst (dec_waiting d')) (snd (dec_waiting d')) # es) \<and>
    dec_ok d' \<and> dec_output_mtu d' = dec_output_mtu d \<and> 0 < snd (dec_waiting d') \<and>
    (\<forall>p \<in> set ps. length p \<le> dec_output_mtu d) \<and> dec_content d = concat (map frame ps) @ c \<and>
    (es = [] \<and> c = dec_content d' \<and> dec_incomplete (dec_output_mtu d) c \<or>
     es = [Dec_Error] \<and> dec_too_large (dec_output_mtu d) c)"
  using assms
proof (induction "length (dec_content d)" arbitrary: d rule: less_induct)
  case less
  let ?mtu = "dec_output_mtu d"
  consider "dec_incomplete ?mtu (dec_content d)" | "dec_too_large ?mtu (dec_content d)"
    | p r where "dec_content d = frame p @ r" "length p \<le> ?mtu"
    by (rule frame_cases [of ?mtu "dec_content d"]) blast+
  then show ?case
  proof cases
    case 1
    then obtain d' where "PacketProtoDecoder_process_data d =
        (d', [Dec_Recv (fst (dec_waiting d')) (snd (dec_waiting d'))])" "dec_ok d'"
        "dec_content d' = dec_content d" "dec_output_mtu d' = ?mtu" "0 < snd (dec_waiting d')"
      using process_data_wait [OF less.prems] by (auto simp: dec_waiting_def)
    then show ?thesis
      using 1 by (intro exI [of _ "[]"] exI [of _ d'] exI [of _ "dec_content d"]) simp
  next
    case 2
    then obtain d' where "PacketProtoDecoder_process_data d =
        (d', [Dec_Recv (fst (dec_waiting d')) (snd (dec_waiting d')), Dec_Error])"
        "dec_ok d'" "dec_output_mtu d' = ?mtu" "0 < snd (dec_waiting d')"
      using process_data_error [OF less.prems] by blast
    then show ?thesis
      using 2 by (intro exI [of _ "[]"] exI [of _ d'] exI [of _ "dec_content d"] exI [of _ "[Dec_Error]"]) simp
  next
    case 3
    then obtain d1 where d1: "PacketProtoDecoder_process_data d = (d1, [Dec_Send p])" "dec_ok d1"
        "dec_content d1 = r" "dec_output_mtu d1 = ?mtu"
      using process_data_send [OF less.prems] by blast
    have "length (dec_content d1) < length (dec_content d)"
      using 3 d1 by simp
    from less.hyps [OF this d1(2)] obtain ps d' c es where ih:
      "dec_pump (PacketProtoDecoder_process_data d1) =
        (ps, d', Dec_Recv (fst (dec_waiting d')) (snd (dec_waiting d')) # es)"
      "dec_ok d'" "dec_output_mtu d' = ?mtu" "0 < snd (dec_waiting d')"
      "\<forall>p \<in> set ps. length p \<le> ?mtu" "r = concat (map frame ps) @ c"
      "es = [] \<and> c = dec_content d' \<and> dec_incomplete ?mtu c \<or> es = [Dec_Error] \<and> dec_too_large ?mtu c"
      using d1 by auto
    then show ?thesis
      using 3 d1 by (intro exI [of _ "p # ps"] exI [of _ d'] exI [of _ c] exI [of _ es])
        (simp add: PacketProtoDecoder_output_handler_done_def)
  qed
qed

text \<open>As long as no error occurred, the bytes received so far are the frames delivered and the bytes held
  back.\<close>

definition dec_inv :: "nat \<Rightarrow> bytes \<Rightarrow> dec_system \<Rightarrow> bool" where
  "dec_inv mtu D s \<longleftrightarrow>
     (let d = ds_dec s in dec_ok d \<and> dec_output_mtu d = mtu \<and> ds_recv s = Some (dec_waiting d) \<and>
        0 < snd (dec_waiting d) \<and> ds_errors s = 0 \<and> D = concat (map frame (ds_out s)) @ dec_content d \<and>
        dec_incomplete mtu (dec_content d) \<and> (\<forall>p \<in> set (ds_out s). length p \<le> mtu))"

lemma dec_inv_decode: "dec_inv mtu D s \<Longrightarrow> packetproto_decode mtu D = (ds_out s, dec_content (ds_dec s), False)"
  by (auto simp: dec_inv_def Let_def decode_frames decode_incomplete dec_ok_def)

lemma feed_content:
  assumes "dec_ok d" "length c \<le> snd (dec_waiting d)"
  defines "d' \<equiv> d\<lparr>dec_buf := write_at (dec_buf d) (fst (dec_waiting d)) c, dec_buf_used := dec_buf_used d + length c\<rparr>"
  shows "dec_ok d' \<and> dec_content d' = dec_content d @ c"
proof -
  have room: "dec_buf_start d + dec_buf_used d + length c \<le> length (dec_buf d)"
    using assms(1,2) by (auto simp: dec_ok_def dec_waiting_def)
  then have "read_at (dec_buf d') (dec_buf_start d) (dec_buf_used d) = dec_content d"
      "read_at (dec_buf d') (dec_buf_start d + dec_buf_used d) (length c) = c"
    unfolding dec_content_def by (simp_all add: d'_def dec_waiting_def read_write_before read_write_same)
  then have "dec_content d' = dec_content d @ c"
    unfolding dec_content_def [of d'] using read_at_add [of "dec_buf d'" "dec_buf_start d" "dec_buf_used d" "length c"]
    by (simp add: d'_def)
  moreover have "dec_ok d'"
    using assms(1) room by (auto simp: dec_ok_def d'_def dec_waiting_def)
  ultimately show ?thesis
    by simp
qed

lemma dec_feed_step:
  assumes inv: "dec_inv mtu D s" and feed: "dec_feed c s = Some s'"
    and ok: "packetproto_decode mtu (D @ c @ later) = (qs, rest, False)"
  shows "dec_inv mtu (D @ c) s'"
proof -
  let ?d = "ds_dec s"
  define d1 where "d1 = ?d\<lparr>dec_buf := write_at (dec_buf ?d) (fst (dec_waiting ?d)) c, dec_buf_used := dec_buf_used ?d + length c\<rparr>"
  have i: "dec_ok ?d" "dec_output_mtu ?d = mtu" "ds_recv s = Some (dec_waiting ?d)" "ds_errors s = 0"
      "D = concat (map frame (ds_out s)) @ dec_content ?d" "\<forall>p \<in> set (ds_out s). length p \<le> mtu"
    using inv by (auto simp: dec_inv_def Let_def)
  obtain off n where w: "dec_waiting ?d = (off, n)"
    by fastforce
  have len: "length c \<le> snd (dec_waiting ?d)"
    and s': "s' = dec_settle (dec_pump (PacketProtoDecoder_process_data d1)) s"
    using feed i(3) w by (simp_all add: dec_feed_def d1_def PacketProtoDecoder_input_handler_done_def Let_def
        split: if_splits)
  have d1: "dec_ok d1" "dec_content d1 = dec_content ?d @ c" "dec_output_mtu d1 = mtu"
    using feed_content [OF i(1) len] i(2) by (auto simp: d1_def)
  obtain ps d' r es where p: "dec_pump (PacketProtoDecoder_process_data d1) =
        (ps, d', Dec_Recv (fst (dec_waiting d')) (snd (dec_waiting d')) # es)"
      "dec_ok d'" "dec_output_mtu d' = mtu" "0 < snd (dec_waiting d')" "\<forall>p \<in> set ps. length p \<le> mtu"
      "dec_content ?d @ c = concat (map frame ps) @ r"
      "es = [] \<and> r = dec_content d' \<and> dec_incomplete mtu r \<or> es = [Dec_Error] \<and> dec_too_large mtu r"
    using pump_process [OF d1(1)] d1 by auto
  have D: "D @ c = concat (map frame (ds_out s @ ps)) @ r"
    using i(5) p(6) by simp
  have "mtu \<le> 65535"
    using i(1,2) by (simp add: dec_ok_def)
  moreover have "\<forall>p \<in> set (ds_out s @ ps). length p \<le> mtu"
    using i(6) p(5) by auto
  ultimately have "packetproto_decode mtu (concat (map frame (ds_out s @ ps)) @ r @ later) =
      (let (us, rest, err) = packetproto_decode mtu (r @ later) in ((ds_out s @ ps) @ us, rest, err))"
    by (rule_tac decode_frames)
  moreover have "concat (map frame (ds_out s @ ps)) @ r @ later = D @ c @ later"
    using arg_cong [OF D, of "\<lambda>x. x @ later"] by (simp only: append_assoc)
  ultimately have "packetproto_decode mtu (D @ c @ later) =
      (let (us, rest, err) = packetproto_decode mtu (r @ later) in ((ds_out s @ ps) @ us, rest, err))"
    by (simp only:)
  then have "\<not> dec_too_large mtu r"
    using ok decode_too_large [OF dec_too_large_append, of mtu r later] by auto
  with p(7) have e: "es = []" "r = dec_content d'" "dec_incomplete mtu r"
    by auto
  have "s' = s\<lparr>ds_dec := d', ds_recv := Some (dec_waiting d'), ds_out := ds_out s @ ps\<rparr>"
    using i(4) by (simp add: s' p(1) e(1))
  then show ?thesis
    using p(2-5) i(4,6) D e by (simp add: dec_inv_def ball_Un)
qed

lemma dec_run_inv:
  assumes "dec_inv mtu D s" "dec_run cs s = Some s'"
    and "packetproto_decode mtu (D @ concat cs) = (qs, rest, False)"
  shows "dec_inv mtu (D @ concat cs) s'"
  using assms
proof (induction cs arbitrary: D s)
  case (Cons c cs)
  then obtain s1 where "dec_feed c s = Some s1" "dec_run cs s1 = Some s'"
    by (auto simp: bind_eq_Some_conv)
  with Cons dec_feed_step [of mtu D s c s1 "concat cs"] show ?case
    by (metis append.assoc concat.simps(2))
qed simp

definition dec_start :: "packet_proto_decoder \<Rightarrow> dec_call list \<Rightarrow> dec_system" where
  "dec_start d cs = dec_settle ([], d, cs) \<lparr>ds_dec = d, ds_recv = None, ds_out = [], ds_errors = 0\<rparr>"

lemma dec_inv_Init:
  assumes "\<And>n m. malloc n = Some m \<Longrightarrow> length m = n"
    and "PacketProtoDecoder_Init malloc mtu = Some (d, cs)"
  shows "dec_inv (min mtu PACKETPROTO_MAXPAYLOAD) [] (dec_start d cs)"
  using assms(2) assms(1) [of "PACKETPROTO_ENCLEN (min mtu PACKETPROTO_MAXPAYLOAD)"]
  by (auto simp: PacketProtoDecoder_Init_def dec_start_def dec_inv_def dec_ok_def dec_waiting_def dec_content_def
      dec_incomplete_def PACKETPROTO_ENCLEN_def PACKETPROTO_MAXPAYLOAD_def Let_def split: option.splits)

text \<open>C11: A PacketProtoDecoder fed with a stream cut into any pieces it has asked for delivers exactly the packets
  of the stream.  If the stream, read as a whole, has no oversized header, then the packets delivered, the
  bytes kept for later and the absence of errors are those of decoding it in one go, and the
  decoder is left receiving with room for at least one more byte.\<close>
theorem decoder_chunk_independent:
  assumes "\<And>n m. malloc n = Some m \<Longrightarrow> length m = n"
    and "PacketProtoDecoder_Init malloc mtu = Some (d, cs)"
    and "dec_run pieces (dec_start d cs) = Some s"
    and "packetproto_decode (min mtu PACKETPROTO_MAXPAYLOAD) (concat pieces) = (ps, rest, False)"
  shows "ds_out s = ps \<and> dec_content (ds_dec s) = rest \<and> ds_errors s = 0 \<and>
    (\<exists>off len. ds_recv s = Some (off, len) \<and> 0 < len)"
proof -
  have inv: "dec_inv (min mtu PACKETPROTO_MAXPAYLOAD) (concat pieces) s"
    using dec_run_inv [OF dec_inv_Init [OF assms(1,2)] assms(3)] assms(4) by simp
  then show ?thesis
    using dec_inv_decode [OF inv] assms(4) by (auto simp: dec_inv_def Let_def dec_waiting_def)
qed

definition dec_malloc :: "nat \<Rightarrow> bytes option" where
  "dec_malloc n = Some (replicate n 0)"

definition sample_decoder :: packet_proto_decoder where
  "sample_decoder = \<lparr>dec_output_mtu = 4, dec_buf_size = 6, dec_buf_start = 0, dec_buf_used = 0,
     dec_buf = replicate 6 0\<rparr>"

theorem decoder_chunk_independent_witness:
  "\<exists>d cs s. PacketProtoDecoder_Init dec_malloc 4 = Some (d, cs) \<and>
     dec_run [[1], [0, 7, 2], [0, 8], [9]] (dec_start d cs) = Some s \<and> ds_out s = [[7], [8, 9]]"
proof -
  have "PACKETPROTO_ENCLEN (min 4 PACKETPROTO_MAXPAYLOAD) = 6" "min 4 PACKETPROTO_MAXPAYLOAD = 4"
    by (simp_all add: PACKETPROTO_ENCLEN_def PACKETPROTO_MAXPAYLOAD_def)
  then have init: "PacketProtoDecoder_Init dec_malloc 4 = Some (sample_decoder, [Dec_Recv 0 6])"
    by (simp add: PacketProtoDecoder_Init_def dec_malloc_def sample_decoder_def)
  have "\<not> Option.is_none (dec_run [[1], [0, 7, 2], [0, 8], [9]] (dec_start sample_decoder [Dec_Recv 0 6]))"
    by code_simp
  then obtain s where s: "dec_run [[1], [0, 7, 2], [0, 8], [9]] (dec_start sample_decoder [Dec_Recv 0 6]) = Some s"
    by (auto simp: Option.is_none_def)
  have "concat [[1], [0, 7, 2], [0, 8], [9]] = concat (map frame [[7], [8, 9]]) @ ([] :: bytes)"
    by (simp add: frame_def)
  then have "packetproto_decode (min 4 PACKETPROTO_MAXPAYLOAD) (concat [[1], [0, 7, 2], [0, 8], [9]]) =
      ([[7], [8, 9]], [], False)"
    using decode_frames [of "[[7], [8, 9]]" 4 "[]"] decode_incomplete [of 4 "[]"]
    by (simp add: PACKETPROTO_MAXPAYLOAD_def dec_incomplete_def)
  then have "ds_out s = [[7], [8, 9]]"
    using decoder_chunk_independent [OF _ init s] by (simp add: dec_malloc_def)
  with init s show ?thesis
    by blast
qed

end
