(* ===== verification/BAVL_Index.thy ===== *)
theory BAVL_Index
  imports BAVL
begin

text \<open>
  The operations of structure/BAVL.h implement an ordered index: insertion, removal, the lookups
  and the traversal are shown to act on the sorted list of nodes the tree represents, to keep
  the balance invariant, and to return.
\<close>

section \<open>Comparators and sorted nodes\<close>

text \<open>
  misc/compare.h: the three-way comparison the comparators of the sources are made of, and what
  the documentation of \<open>BAVL_comparator\<close> asks of a comparator.
\<close>

definition B_COMPARE :: "'k::linorder \<Rightarrow> 'k \<Rightarrow> int" where
  "B_COMPARE a b = of_bool (a > b) - of_bool (a < b)"

definition B_COMPARE_COMBINE :: "int \<Rightarrow> int \<Rightarrow> int" where
  "B_COMPARE_COMBINE cmp1 cmp2 = (if cmp1 \<noteq> 0 then cmp1 else cmp2)"

definition total_comparator :: "('v \<Rightarrow> 'v \<Rightarrow> int) \<Rightarrow> bool" where
  "total_comparator cmp \<longleftrightarrow>
     (\<forall>x y. cmp x y = -1 \<or> cmp x y = 0 \<or> cmp x y = 1) \<and>
     (\<forall>x y. cmp y x = - cmp x y) \<and>
     (\<forall>x y z. cmp x y = -1 \<and> cmp y z = -1 \<longrightarrow> cmp x z = -1) \<and>
     (\<forall>x y z. cmp x y = 0 \<longrightarrow> cmp x z = cmp y z)"

definition sorted_nodes :: "(addr \<Rightarrow> 'v) \<Rightarrow> ('v \<Rightarrow> 'v \<Rightarrow> int) \<Rightarrow> addr list \<Rightarrow> bool" where
  "sorted_nodes val cmp xs \<longleftrightarrow> sorted_wrt (\<lambda>a b. cmp (val a) (val b) = -1) xs"

text \<open>A tree object is an index of the nodes \<open>xs\<close>, in the order of their values.\<close>

definition index_rep :: "(addr \<Rightarrow> 'v) \<Rightarrow> 'v bavl \<Rightarrow> addr list \<Rightarrow> bool" where
  "index_rep val s xs \<longleftrightarrow>
     (\<exists>t. brep s t \<and> avl t \<and> nodes t = xs) \<and> sorted_nodes val (bt_comparator s) xs \<and>
     total_comparator (bt_comparator s)"

text \<open>
  The search for a value, as the loops of the sources make it: \<open>f a\<close> is the result of comparing
  the value with node \<open>a\<close>.  It ends at a node that compares equal or at a hole.
\<close>

fun tree_find :: "(addr \<Rightarrow> int) \<Rightarrow> bctx \<Rightarrow> btree \<Rightarrow> addr + bctx" where
  "tree_find f c Leaf = Inr c"
| "tree_find f c (Node l (a, b) r) =
     (if f a = 0 then Inl a
      else if f a = 1 then tree_find f ((True, a, b, l) # c) r
      else tree_find f ((False, a, b, r) # c) l)"

fun path_ok :: "(addr \<Rightarrow> int) \<Rightarrow> bctx \<Rightarrow> bool" where
  "path_ok f [] \<longleftrightarrow> True"
| "path_ok f ((d, a, b, u) # c) \<longleftrightarrow> f a = (if d then 1 else -1) \<and> path_ok f c"

section \<open>The interface of an ordered index\<close>

text \<open>
  What a client may rely on, over the sorted list of the nodes in the index: insertion refuses
  a node whose value is already there, removal takes a node out, and the lookups and the traversal
  read the list.
\<close>

datatype 'v index_op = Index_Insert addr | Index_Remove addr | Index_Find 'v | Index_First | Index_Next addr

datatype index_res = Index_Done | Index_Inserted bool | Index_Node "addr option"

fun spec_next :: "addr list \<Rightarrow> addr \<Rightarrow> addr option" where
  "spec_next [] n = None"
| "spec_next (x # xs) n = (if x = n then (case xs of [] \<Rightarrow> None | y # _ \<Rightarrow> Some y) else spec_next xs n)"

definition spec_insert :: "(addr \<Rightarrow> 'v) \<Rightarrow> ('v \<Rightarrow> 'v \<Rightarrow> int) \<Rightarrow> addr list \<Rightarrow> addr \<Rightarrow> addr list \<times> bool" where
  "spec_insert val cmp xs n =
     (if \<exists>e\<in>set xs. cmp (val n) (val e) = 0 then (xs, False)
      else (takeWhile (\<lambda>a. cmp (val a) (val n) = -1) xs @ n # dropWhile (\<lambda>a. cmp (val a) (val n) = -1) xs, True))"

fun spec_index_op ::
    "(addr \<Rightarrow> 'v) \<Rightarrow> ('v \<Rightarrow> 'v \<Rightarrow> int) \<Rightarrow> addr list \<Rightarrow> 'v index_op \<Rightarrow> addr list \<times> index_res" where
  "spec_index_op val cmp xs (Index_Insert n) = apsnd Index_Inserted (spec_insert val cmp xs n)"
| "spec_index_op val cmp xs (Index_Remove n) = (remove1 n xs, Index_Done)"
| "spec_index_op val cmp xs (Index_Find v) = (xs, Index_Node (List.find (\<lambda>e. cmp v (val e) = 0) xs))"
| "spec_index_op val cmp xs Index_First = (xs, Index_Node (if xs = [] then None else Some (hd xs)))"
| "spec_index_op val cmp xs (Index_Next n) = (xs, Index_Node (spec_next xs n))"

fun spec_index_run ::
    "(addr \<Rightarrow> 'v) \<Rightarrow> ('v \<Rightarrow> 'v \<Rightarrow> int) \<Rightarrow> addr list \<Rightarrow> 'v index_op list \<Rightarrow> addr list \<times> index_res list" where
  "spec_index_run val cmp xs [] = (xs, [])"
| "spec_index_run val cmp xs (op # ops) =
     (let (xs, r) = spec_index_op val cmp xs op; (xs, rs) = spec_index_run val cmp xs ops in (xs, r # rs))"

fun index_op_valid :: "addr list \<Rightarrow> 'v index_op \<Rightarrow> bool" where
  "index_op_valid xs (Index_Insert n) \<longleftrightarrow> n \<notin> set xs"
| "index_op_valid xs (Index_Remove n) \<longleftrightarrow> n \<in> set xs"
| "index_op_valid xs (Index_Next n) \<longleftrightarrow> n \<in> set xs"
| "index_op_valid xs _ \<longleftrightarrow> True"

fun index_ops_valid ::
    "(addr \<Rightarrow> 'v) \<Rightarrow> ('v \<Rightarrow> 'v \<Rightarrow> int) \<Rightarrow> addr list \<Rightarrow> 'v index_op list \<Rightarrow> bool" where
  "index_ops_valid val cmp xs [] \<longleftrightarrow> True"
| "index_ops_valid val cmp xs (op # ops) \<longleftrightarrow>
     index_op_valid xs op \<and> index_ops_valid val cmp (fst (spec_index_op val cmp xs op)) ops"

text \<open>The same operations on an implementation, given as its five functions.\<close>

fun do_index_op ::
    "('s \<Rightarrow> addr \<Rightarrow> ('s \<times> bool \<times> addr option) option) \<Rightarrow> ('s \<Rightarrow> addr \<Rightarrow> 's option) \<Rightarrow>
     ('s \<Rightarrow> 'v \<Rightarrow> addr option option) \<Rightarrow> ('s \<Rightarrow> addr option option) \<Rightarrow> ('s \<Rightarrow> addr \<Rightarrow> addr option option) \<Rightarrow>
     's \<Rightarrow> 'v index_op \<Rightarrow> ('s \<times> index_res) option" where
  "do_index_op ins rem fnd fst' nxt s (Index_Insert n) =
     map_option (\<lambda>(s, b, _). (s, Index_Inserted b)) (ins s n)"
| "do_index_op ins rem fnd fst' nxt s (Index_Remove n) = map_option (\<lambda>s. (s, Index_Done)) (rem s n)"
| "do_index_op ins rem fnd fst' nxt s (Index_Find v) = map_option (\<lambda>r. (s, Index_Node r)) (fnd s v)"
| "do_index_op ins rem fnd fst' nxt s Index_First = map_option (\<lambda>r. (s, Index_Node r)) (fst' s)"
| "do_index_op ins rem fnd fst' nxt s (Index_Next n) = map_option (\<lambda>r. (s, Index_Node r)) (nxt s n)"

fun index_run ::
    "('s \<Rightarrow> 'v index_op \<Rightarrow> ('s \<times> index_res) option) \<Rightarrow> 's \<Rightarrow> 'v index_op list \<Rightarrow> ('s \<times> index_res list) option" where
  "index_run step s [] = Some (s, [])"
| "index_run step s (op # ops) =
     do { (s, r) \<leftarrow> step s op; (s, rs) \<leftarrow> index_run step s ops; Some (s, r # rs) }"

locale sorted_tree =
  fixes val :: "addr \<Rightarrow> 'v" and cmp :: "'v \<Rightarrow> 'v \<Rightarrow> int"
    and rep :: "'s \<Rightarrow> addr list \<Rightarrow> bool"
    and ins :: "'s \<Rightarrow> addr \<Rightarrow> ('s \<times> bool \<times> addr option) option"
    and rem :: "'s \<Rightarrow> addr \<Rightarrow> 's option"
    and fst' :: "'s \<Rightarrow> addr option option"
    and nxt :: "'s \<Rightarrow> addr \<Rightarrow> addr option option"
  assumes cmp_total: "total_comparator cmp"
    and rep_sorted: "rep s xs \<Longrightarrow> sorted_nodes val cmp xs"
    and ins_law: "rep s xs \<Longrightarrow> n \<notin> set xs \<Longrightarrow>
      \<exists>s' r. ins s n = Some (s', snd (spec_insert val cmp xs n), r) \<and> rep s' (fst (spec_insert val cmp xs n))"
    and rem_law: "rep s xs \<Longrightarrow> n \<in> set xs \<Longrightarrow> \<exists>s'. rem s n = Some s' \<and> rep s' (remove1 n xs)"
    and fst_law: "rep s xs \<Longrightarrow> fst' s = Some (if xs = [] then None else Some (hd xs))"
    and nxt_law: "rep s (ls @ n # rs) \<Longrightarrow> nxt s n = Some (if rs = [] then None else Some (hd rs))"
begin

text \<open>As a priority queue: the first node is the least, and insertion of a new value keeps all nodes.\<close>

lemma first_least:
  assumes "rep s xs" "fst' s = Some (Some m)"
  shows "m \<in> set xs" "e \<in> set xs \<Longrightarrow> e \<noteq> m \<Longrightarrow> cmp (val m) (val e) = -1"
proof -
  have m: "xs \<noteq> []" "m = hd xs" using fst_law [OF assms(1)] assms(2) by (auto split: if_splits)
  then obtain ys where xs: "xs = m # ys" by (cases xs) auto
  show "m \<in> set xs" by (simp add: xs)
  show "e \<in> set xs \<Longrightarrow> e \<noteq> m \<Longrightarrow> cmp (val m) (val e) = -1"
    using rep_sorted [OF assms(1)] by (auto simp: xs sorted_nodes_def)
qed

lemma insert_new_value:
  assumes "rep s xs" "n \<notin> set xs" "\<forall>e\<in>set xs. cmp (val n) (val e) \<noteq> 0"
  obtains s' r ys where "ins s n = Some (s', True, r)" "rep s' ys" "set ys = insert n (set xs)"
proof -
  let ?P = "\<lambda>a. cmp (val a) (val n) = -1"
  have "spec_insert val cmp xs n = (takeWhile ?P xs @ n # dropWhile ?P xs, True)"
    using assms(3) by (auto simp: spec_insert_def)
  moreover have "set (takeWhile ?P xs) \<union> set (dropWhile ?P xs) = set xs"
    by (metis set_append takeWhile_dropWhile_id)
  ultimately show thesis
    using ins_law [OF assms(1,2)] that by auto
qed

lemma nxt_spec:
  assumes "rep s xs" "n \<in> set xs"
  shows "nxt s n = Some (spec_next xs n)"
proof -
  obtain ls rs where xs: "xs = ls @ n # rs" "n \<notin> set ls" using split_list_first [OF assms(2)] by blast
  have "spec_next (ls @ n # rs) n = (if rs = [] then None else Some (hd rs))"
    using xs(2) by (induction ls) (auto split: list.splits)
  then show ?thesis using nxt_law assms(1) xs(1) by simp
qed

end

locale ordered_index = sorted_tree val cmp rep ins rem fst' nxt
  for val :: "addr \<Rightarrow> 'v" and cmp :: "'v \<Rightarrow> 'v \<Rightarrow> int"
    and rep :: "'s \<Rightarrow> addr list \<Rightarrow> bool"
    and ins :: "'s \<Rightarrow> addr \<Rightarrow> ('s \<times> bool \<times> addr option) option"
    and rem :: "'s \<Rightarrow> addr \<Rightarrow> 's option"
    and fst' :: "'s \<Rightarrow> addr option option"
    and nxt :: "'s \<Rightarrow> addr \<Rightarrow> addr option option" +
  fixes fnd :: "'s \<Rightarrow> 'v \<Rightarrow> addr option option"
  assumes fnd_law: "rep s xs \<Longrightarrow> \<exists>r. fnd s v = Some r \<and>
      (case r of Some e \<Rightarrow> e \<in> set xs \<and> cmp v (val e) = 0 | None \<Rightarrow> \<forall>e\<in>set xs. cmp v (val e) \<noteq> 0)"
begin

text \<open>Values identify nodes, so a successful lookup is the only possible one.\<close>

lemma fnd_unique:
  assumes "rep s xs"
  shows "fnd s v = Some (List.find (\<lambda>e. cmp v (val e) = 0) xs)"
proof -
  note tc = cmp_total [unfolded total_comparator_def]
  have uniq: "e = e'" if "e \<in> set xs" "e' \<in> set xs" "cmp v (val e) = 0" "cmp v (val e') = 0" for e e'
  proof -
    have "cmp (val e) (val e') = 0" "cmp (val e') (val e) = 0"
      using tc that(3,4) by metis+
    then show ?thesis
      using rep_sorted [OF assms] that(1,2)
      by (auto simp: sorted_nodes_def sorted_wrt_iff_nth_less in_set_conv_nth) (metis linorder_neqE_nat zero_neq_neg_one)
  qed
  obtain r where r: "fnd s v = Some r" "case r of Some e \<Rightarrow> e \<in> set xs \<and> cmp v (val e) = 0 | None \<Rightarrow> \<forall>e\<in>set xs. cmp v (val e) \<noteq> 0"
    using fnd_law [OF assms] by blast
  show ?thesis
  proof (cases "List.find (\<lambda>e. cmp v (val e) = 0) xs")
    case None
    then have "\<forall>e\<in>set xs. cmp v (val e) \<noteq> 0" by (auto simp: find_None_iff)
    then show ?thesis using r None by (auto split: option.splits)
  next
    case (Some e)
    then have "e \<in> set xs" "cmp v (val e) = 0" by (auto simp: find_Some_iff)
    then show ?thesis using r uniq Some by (auto split: option.splits)
  qed
qed

text \<open>Every valid operation returns, and refines the operation on the list.\<close>

lemma step_refines:
  assumes "rep s xs" "index_op_valid xs op"
  shows "\<exists>s'. do_index_op ins rem fnd fst' nxt s op = Some (s', snd (spec_index_op val cmp xs op)) \<and>
    rep s' (fst (spec_index_op val cmp xs op))"
proof (cases op)
  case (Index_Insert n)
  then show ?thesis using ins_law [OF assms(1), of n] assms(2) by auto
next
  case (Index_Remove n)
  then show ?thesis using rem_law [OF assms(1), of n] assms(2) by auto
next
  case (Index_Find v)
  then show ?thesis using fnd_unique [OF assms(1), of v] assms(1) by auto
next
  case Index_First
  then show ?thesis using fst_law [OF assms(1)] assms(1) by auto
next
  case (Index_Next n)
  then show ?thesis using nxt_spec [OF assms(1), of n] assms by auto
qed

lemma run_refines:
  assumes "rep s xs" "index_ops_valid val cmp xs ops"
  shows "\<exists>s'. index_run (do_index_op ins rem fnd fst' nxt) s ops = Some (s', snd (spec_index_run val cmp xs ops)) \<and>
    rep s' (fst (spec_index_run val cmp xs ops))"
  using assms
proof (induction ops arbitrary: s xs)
  case (Cons op ops)
  obtain s1 where s1: "do_index_op ins rem fnd fst' nxt s op = Some (s1, snd (spec_index_op val cmp xs op))"
    "rep s1 (fst (spec_index_op val cmp xs op))"
    using step_refines Cons.prems by force
  then obtain s2 where "index_run (do_index_op ins rem fnd fst' nxt) s1 ops =
      Some (s2, snd (spec_index_run val cmp (fst (spec_index_op val cmp xs op)) ops))"
    "rep s2 (fst (spec_index_run val cmp (fst (spec_index_op val cmp xs op)) ops))"
    using Cons.IH [OF s1(2)] Cons.prems(2) by auto
  then show ?case
    using s1 by (auto simp: Let_def split: prod.splits)
qed simp

end

section \<open>Exchanging two nodes\<close>

text \<open>
  \<open>_BAVL_swap_nodes\<close> renames the two nodes: every pointer to one becomes a pointer to the other, and
  the balance factors stay at their places in the tree.
\<close>

definition xch :: "addr \<Rightarrow> addr \<Rightarrow> addr \<Rightarrow> addr" where
  "xch n1 n2 a = (if a = n1 then n2 else if a = n2 then n1 else a)"

definition link_ok :: "'v bavl \<Rightarrow> addr set \<Rightarrow> addr \<Rightarrow> bool" where
  "link_ok s N a \<longleftrightarrow>
     (\<forall>d x. bt_link s a d = Some x \<longrightarrow> x \<in> N \<and> bt_parent s x = Some a) \<and>
     (\<forall>p. bt_parent s a = Some p \<longrightarrow> p \<in> N \<and> (\<exists>d. bt_link s p d = Some a) \<and> bt_parent s p \<noteq> Some a) \<and>
     (\<forall>x. bt_link s a False = Some x \<longrightarrow> bt_link s a True \<noteq> Some x) \<and>
     (bt_parent s a = None \<longleftrightarrow> bt_root s = Some a)"

definition linked :: "'v bavl \<Rightarrow> addr set \<Rightarrow> bool" where
  "linked s N \<longleftrightarrow> (\<forall>a\<in>N. link_ok s N a)"

lemma plug_append: "plug (c @ c') t = plug c' (plug c t)"
  by (induction c t rule: plug.induct) auto

lemma zipper_at:
  assumes "a \<in> set (nodes t)"
  obtains c l b r where "t = plug c (Node l (a, b) r)"
proof -
  have "\<exists>c l b r. t = plug c (Node l (a, b) r)"
    using assms
  proof (induction t)
    case (Node l x r)
    consider "a = fst x" | "a \<in> set (nodes l)" | "a \<in> set (nodes r)" using Node.prems by auto
    then show ?case
    proof cases
      case 1
      then have "Node l x r = plug [] (Node l (a, snd x) r)" by simp
      then show ?thesis by blast
    next
      case 2
      then obtain c l' b r' where "l = plug c (Node l' (a, b) r')" using Node.IH(1) by blast
      then have "Node l x r = plug (c @ [(False, fst x, snd x, r)]) (Node l' (a, b) r')"
        by (simp add: plug_append side_node_def)
      then show ?thesis by blast
    next
      case 3
      then obtain c l' b r' where "r = plug c (Node l' (a, b) r')" using Node.IH(2) by blast
      then have "Node l x r = plug (c @ [(True, fst x, snd x, l)]) (Node l' (a, b) r')"
        by (simp add: plug_append side_node_def)
      then show ?thesis by blast
    qed
  qed simp
  then show thesis using that by blast
qed

lemma zrep_at:
  assumes "brep s t" "a \<in> set (nodes t)"
  obtains c l b r where "t = plug c (Node l (a, b) r)" "zrep s c (Node l (a, b) r)"
  using zipper_at [OF assms(2)] assms(1) by (metis zrep_plug)

lemma zrep_local:
  assumes "zrep s c (Node l (a, b) r)"
  shows "bt_link s a False = troot l" "bt_link s a True = troot r" "bt_parent s a = cparent c"
    and "bt_link s a d = Some x \<Longrightarrow> bt_parent s x = Some a \<and> x \<in> set (nodes l) \<union> set (nodes r)"
    and "cparent c = Some p \<Longrightarrow> (\<exists>d. bt_link s p d = Some a) \<and> bt_parent s p \<noteq> Some a"
    and "bt_root s = Some a \<longleftrightarrow> cparent c = None"
proof -
  show "bt_link s a False = troot l" "bt_link s a True = troot r" "bt_parent s a = cparent c"
    using assms by (auto simp: zrep_def)
  show "bt_parent s x = Some a \<and> x \<in> set (nodes l) \<union> set (nodes r)" if "bt_link s a d = Some x"
    using assms that troot_in [of l x] troot_in [of r x]
    by (cases d; cases l; cases r) (auto simp: zrep_def)
  show "(\<exists>d. bt_link s p d = Some a) \<and> bt_parent s p \<noteq> Some a" if "cparent c = Some p"
  proof (cases c rule: cparent.cases)
    case (2 d q b' u c')
    have "cparent c' \<noteq> Some a"
      using zrep_distinct [OF assms] cparent_in [of c' a] 2 by auto
    then show ?thesis using assms that 2 by (auto simp: zrep_def)
  qed (use that in simp)
  show "bt_root s = Some a \<longleftrightarrow> cparent c = None"
  proof (cases c rule: rev_cases)
    case (snoc c' f)
    obtain d q b' u where f: "f = (d, q, b', u)" by (cases f) auto
    have "zrep s [] (plug c (Node l (a, b) r))" using assms by (simp add: zrep_plug)
    moreover have "q \<noteq> a"
    proof -
      have "q \<in> set (lnodes c) \<union> set (rnodes c)" unfolding snoc f
        by (induction c') auto
      then show ?thesis using zrep_distinct [OF assms] by auto
    qed
    moreover have "cparent c \<noteq> None" unfolding snoc by (cases c' rule: cparent.cases) (auto simp: f)
    ultimately show ?thesis by (auto simp: zrep_def snoc f plug_append)
  qed (use assms in \<open>simp add: zrep_def\<close>)
qed

lemma linked_brep:
  assumes "brep s t"
  shows "linked s (set (nodes t))"
proof -
  have at: "link_ok s (set (nodes t)) a" if a: "a \<in> set (nodes t)" for a
  proof -
    obtain c l b r where z: "t = plug c (Node l (a, b) r)" "zrep s c (Node l (a, b) r)"
      using zrep_at [OF assms a] .
    have "troot l = Some x \<Longrightarrow> troot r \<noteq> Some x" for x
      using zrep_distinct [OF z(2)] troot_in [of l x] troot_in [of r x] by auto
    moreover have "cparent c = Some p \<Longrightarrow> p \<in> set (nodes t)" for p
      using cparent_in [of c p] by (auto simp: z nodes_plug)
    moreover have "set (nodes l) \<union> set (nodes r) \<subseteq> set (nodes t)" by (auto simp: z nodes_plug)
    ultimately show ?thesis
      unfolding link_ok_def using zrep_local [OF z(2)] by auto blast+
  qed
  then show ?thesis by (simp add: linked_def)
qed

text \<open>A store in which all pointers are renamed holds the renamed tree.\<close>

definition rename :: "(addr \<Rightarrow> addr) \<Rightarrow> btree \<Rightarrow> btree" where
  "rename f t = map_tree (map_prod f id) t"

lemma rename_simps [simp]:
  "rename f Leaf = Leaf"
  "rename f (Node l (a, b) r) = Node (rename f l) (f a, b) (rename f r)"
  by (simp_all add: rename_def)

lemma nodes_rename [simp]: "nodes (rename f t) = map f (nodes t)"
  by (induction t) auto

lemma troot_rename [simp]: "troot (rename f t) = map_option f (troot t)"
  by (cases t rule: troot.cases) auto

lemma rename_id: "(\<And>a. a \<in> set (nodes t) \<Longrightarrow> f a = a) \<Longrightarrow> rename f t = t"
  by (induction t) auto

lemma brep_rename:
  assumes "brep s t" "inj_on f (set (nodes t))"
    and "\<And>a. a \<in> set (nodes t) \<Longrightarrow> bt_parent s' (f a) = map_option f (bt_parent s a)"
    and "\<And>a d. a \<in> set (nodes t) \<Longrightarrow> bt_link s' (f a) d = map_option f (bt_link s a d)"
    and "\<And>a. a \<in> set (nodes t) \<Longrightarrow> bt_balance s' (f a) = bt_balance s a"
    and "bt_root s' = map_option f (bt_root s)"
  shows "brep s' (rename f t)"
proof -
  have "tr s' (map_option f p) (rename f t)" if "tr s p t" for p
    using assms(3-5) that by (induction s p t rule: tr.induct) force+
  from this [of None] show ?thesis
    using assms by (simp add: brep_def distinct_map)
qed

lemma swap_parents_fields:
  assumes "n1 \<noteq> n2" "bt_parent s n1 \<noteq> bt_parent s n2"
  shows "bt_parent (swap_parents s n1 n2) = (bt_parent s)(n1 := bt_parent s n2, n2 := bt_parent s n1)"
    and "bt_link (swap_parents s n1 n2) a e =
      (if bt_parent s n2 = Some a \<and> e = (Some n2 = bt_link s a True) then Some n1
       else if bt_parent s n1 = Some a \<and> e = (Some n1 = bt_link s a True) then Some n2
       else bt_link s a e)"
    and "bt_root (swap_parents s n1 n2) =
      (if bt_parent s n1 = None then Some n2 else if bt_parent s n2 = None then Some n1 else bt_root s)"
    and "bt_balance (swap_parents s n1 n2) = bt_balance s"
    and "bt_comparator (swap_parents s n1 n2) = bt_comparator s"
  using assms
  by (auto simp: swap_parents_def Let_def bt_link_redirect bt_root_redirect)

lemma swap_children_fields:
  assumes "n1 \<noteq> n2"
  shows "bt_parent (swap_children d s n1 n2) a =
      (if bt_link s n1 d = Some a then Some n2 else if bt_link s n2 d = Some a then Some n1 else bt_parent s a)"
    and "bt_link (swap_children d s n1 n2) a e =
      (if e = d then bt_link s (xch n1 n2 a) d else bt_link s a e)"
    and "bt_root (swap_children d s n1 n2) = bt_root s"
    and "bt_balance (swap_children d s n1 n2) = bt_balance s"
    and "bt_comparator (swap_children d s n1 n2) = bt_comparator s"
  using assms by (auto simp: swap_children_def Let_def bt_parent_set_parent_of xch_def)

lemma linkedD:
  assumes "linked s N" "a \<in> N"
  shows "bt_link s a d = Some x \<Longrightarrow> x \<in> N \<and> bt_parent s x = Some a"
    and "bt_parent s a = Some p \<Longrightarrow> p \<in> N \<and> (\<exists>d. bt_link s p d = Some a) \<and> bt_parent s p \<noteq> Some a"
    and "bt_link s a d = Some x \<Longrightarrow> bt_link s a (\<not> d) \<noteq> Some x"
    and "bt_parent s a = None \<longleftrightarrow> bt_root s = Some a"
proof -
  have "link_ok s N a" using assms by (simp add: linked_def)
  note l = this [unfolded link_ok_def, THEN conjunct1]
    this [unfolded link_ok_def, THEN conjunct2, THEN conjunct1]
    this [unfolded link_ok_def, THEN conjunct2, THEN conjunct2, THEN conjunct1]
    this [unfolded link_ok_def, THEN conjunct2, THEN conjunct2, THEN conjunct2]
  show "bt_link s a d = Some x \<Longrightarrow> x \<in> N \<and> bt_parent s x = Some a"
    using l(1) by simp
  show "bt_parent s a = Some p \<Longrightarrow> p \<in> N \<and> (\<exists>d. bt_link s p d = Some a) \<and> bt_parent s p \<noteq> Some a"
    using l(2) by simp
  show "bt_link s a d = Some x \<Longrightarrow> bt_link s a (\<not> d) \<noteq> Some x"
    using l(3) by (cases d) auto
  show "bt_parent s a = None \<longleftrightarrow> bt_root s = Some a"
    using l(4) .
qed

lemma linked_side:
  assumes "linked s N" "p \<in> N" "bt_link s p d = Some a"
  shows "(Some a = bt_link s p True) = d"
  using linkedD(3) [OF assms] assms(3) by (cases d) auto

lemma swap_distant_fields:
  assumes l: "linked s N" "n1 \<in> N" "n2 \<in> N" "n1 \<noteq> n2"
    and p: "bt_parent s n1 \<noteq> bt_parent s n2" "bt_parent s n2 \<noteq> Some n1" "bt_parent s n1 \<noteq> Some n2"
  defines "s' \<equiv> swap_children True (swap_children False (swap_parents s n1 n2) n1 n2) n1 n2"
  assumes a: "a \<in> N"
  shows "bt_parent s' (xch n1 n2 a) = map_option (xch n1 n2) (bt_parent s a)"
    and "bt_link s' (xch n1 n2 a) d = map_option (xch n1 n2) (bt_link s a d)"
proof -
  define s1 where "s1 = swap_parents s n1 n2"
  have self: "bt_parent s n1 \<noteq> Some n1" "bt_parent s n2 \<noteq> Some n2"
    using linkedD(2) [OF l(1)] l(2,3) by metis+
  note s1 = swap_parents_fields [OF l(4) p(1), folded s1_def]
  have ch: "bt_link s1 n1 = bt_link s n1" "bt_link s1 n2 = bt_link s n2"
    using self p by (auto simp: s1 fun_eq_iff)
  have link: "bt_link s' b e = bt_link s1 (xch n1 n2 b) e" for b e
    by (simp add: s'_def swap_children_fields l(4) flip: s1_def)
  have par: "bt_parent s' b =
     (if \<exists>e. bt_link s n1 e = Some b then Some n2 else if \<exists>e. bt_link s n2 e = Some b then Some n1
      else bt_parent s1 b)" for b
  proof -
    have "\<not> (\<exists>e e'. bt_link s n1 e = Some b \<and> bt_link s n2 e' = Some b)"
      using linkedD(1) [OF l(1,2)] linkedD(1) [OF l(1,3)] l(4) by force
    then show ?thesis
      by (auto simp: s'_def swap_children_fields l(4) ch ex_bool_eq xch_def simp flip: s1_def)
  qed
  have parent: "bt_parent s b = Some n \<longleftrightarrow> (\<exists>e. bt_link s n e = Some b)" if "b \<in> N" "n \<in> N" for b n
    using linkedD(1) [OF l(1)] linkedD(2) [OF l(1)] that by blast
  show "bt_parent s' (xch n1 n2 a) = map_option (xch n1 n2) (bt_parent s a)"
  proof (cases "a = n1 \<or> a = n2")
    case True
    have "\<not> (\<exists>e. bt_link s m e = Some n)" if "m \<in> {n1, n2}" "n \<in> {n1, n2}" for m n
      using parent [of n m] that l(2,3) p self by auto
    then have "bt_parent s' b = bt_parent s1 b" if "b \<in> {n1, n2}" for b
      using that by (auto simp: par)
    moreover have "map_option (xch n1 n2) (bt_parent s b) = bt_parent s b" if "b \<in> {n1, n2}" for b
      using that p self by (cases "bt_parent s b") (auto simp: xch_def)
    ultimately show ?thesis
      using True l(4) by (auto simp: s1 xch_def)
  next
    case False
    then have "bt_parent s' a = (if bt_parent s a = Some n1 then Some n2 else if bt_parent s a = Some n2 then Some n1
        else bt_parent s a)"
      using parent [OF a l(2)] parent [OF a l(3)] by (simp add: par s1)
    then show ?thesis
      using False by (cases "bt_parent s a") (auto simp: xch_def)
  qed
  have "bt_link s' (xch n1 n2 a) d = bt_link s1 a d"
    by (simp add: link) (simp add: xch_def l(4))
  also have "\<dots> = map_option (xch n1 n2) (bt_link s a d)"
  proof (cases "bt_link s a d")
    case None
    have "\<not> (bt_parent s n = Some a \<and> d = (Some n = bt_link s a True))" if "n \<in> N" for n
      using linkedD(2) [OF l(1) that] linked_side [OF l(1) a] None by fastforce
    then show ?thesis using l(2,3) None by (auto simp: s1)
  next
    case (Some x)
    have x: "bt_parent s x = Some a" "d = (Some x = bt_link s a True)"
      using linkedD(1) [OF l(1) a Some] linked_side [OF l(1) a Some] by auto
    have "x = n" if n: "n \<in> N" "bt_parent s n = Some a" "d = (Some n = bt_link s a True)" for n
    proof -
      obtain e where "bt_link s a e = Some n" using linkedD(2) [OF l(1) n(1,2)] by blast
      then show ?thesis using linked_side [OF l(1) a] Some n(3) by auto
    qed
    then show ?thesis using l(2-4) Some x by (auto simp: s1 xch_def)
  qed
  finally show "bt_link s' (xch n1 n2 a) d = map_option (xch n1 n2) (bt_link s a d)" .
qed

lemma take_child_fields:
  assumes "n1 \<noteq> n2"
  shows "bt_parent (take_child d s n1 n2) a = (if bt_link s n2 d = Some a then Some n1 else bt_parent s a)"
    and "bt_link (take_child d s n1 n2) a e = (if a = n1 \<and> e = d then bt_link s n2 d else bt_link s a e)"
    and "bt_root (take_child d s n1 n2) = bt_root s"
    and "bt_balance (take_child d s n1 n2) = bt_balance s"
    and "bt_comparator (take_child d s n1 n2) = bt_comparator s"
  using assms by (auto simp: take_child_def Let_def bt_parent_set_parent_of)

lemma swap_adjacent_fields:
  assumes "n1 \<noteq> n2" "\<And>e. bt_link s n2 e \<noteq> Some n1"
    and "bt_parent s n1 \<noteq> Some n1" "bt_parent s n1 \<noteq> Some n2"
  defines "side \<equiv> (Some n2 = bt_link s n1 True)"
  shows "bt_parent (swap_adjacent s n1 n2) a =
      (if bt_link s n1 (\<not> side) = Some a then Some n2 else if a = n1 then Some n2
       else if a = n2 then bt_parent s n1
       else if \<exists>e. bt_link s n2 e = Some a then Some n1 else bt_parent s a)"
    and "bt_link (swap_adjacent s n1 n2) a e =
      (if a = n1 then bt_link s n2 e
       else if a = n2 then (if e = side then Some n1 else bt_link s n1 (\<not> side))
       else if bt_parent s n1 = Some a \<and> e = (Some n1 = bt_link s a True) then Some n2
       else bt_link s a e)"
    and "bt_root (swap_adjacent s n1 n2) = (if bt_parent s n1 = None then Some n2 else bt_root s)"
    and "bt_balance (swap_adjacent s n1 n2) = bt_balance s"
    and "bt_comparator (swap_adjacent s n1 n2) = bt_comparator s"
proof -
  define s1 where "s1 = take_child True (take_child False s n1 n2) n1 n2"
  have s1: "bt_parent s1 b = (if \<exists>e. bt_link s n2 e = Some b then Some n1 else bt_parent s b)"
    "bt_link s1 b e = (if b = n1 then bt_link s n2 e else bt_link s b e)"
    "bt_root s1 = bt_root s" "bt_balance s1 = bt_balance s" "bt_comparator s1 = bt_comparator s" for b e
    using assms(1) by (auto simp: s1_def take_child_fields ex_bool_eq)
  have def: "swap_adjacent s n1 n2 =
     (let s = set_parent n2 (bt_parent s1 n1) s1;
          s = redirect (bt_parent s n2) n1 (Some n2) s;
          s = set_link n2 side (Some n1) s;
          s = set_parent n1 (Some n2) s;
          s' = set_link n2 (\<not> side) (bt_link s0 n1 (\<not> side)) s
      in set_parent_of (bt_link s0 n1 (\<not> side)) (Some n2) s')" if "s0 = s" for s0
    by (simp add: swap_adjacent_def s1_def side_def Let_def that)
  have p1: "bt_parent s1 n1 = bt_parent s n1" using assms(2) by (simp add: s1)
  show "bt_parent (swap_adjacent s n1 n2) a =
      (if bt_link s n1 (\<not> side) = Some a then Some n2 else if a = n1 then Some n2
       else if a = n2 then bt_parent s n1
       else if \<exists>e. bt_link s n2 e = Some a then Some n1 else bt_parent s a)"
    by (simp add: def Let_def bt_parent_set_parent_of p1) (simp add: s1)
  show "bt_link (swap_adjacent s n1 n2) a e =
      (if a = n1 then bt_link s n2 e
       else if a = n2 then (if e = side then Some n1 else bt_link s n1 (\<not> side))
       else if bt_parent s n1 = Some a \<and> e = (Some n1 = bt_link s a True) then Some n2
       else bt_link s a e)"
    using assms(1-4) by (cases e; cases side) (auto simp: def Let_def bt_link_redirect p1 s1)
  show "bt_root (swap_adjacent s n1 n2) = (if bt_parent s n1 = None then Some n2 else bt_root s)"
    "bt_balance (swap_adjacent s n1 n2) = bt_balance s"
    "bt_comparator (swap_adjacent s n1 n2) = bt_comparator s"
    using assms(2) by (simp_all add: def Let_def bt_root_redirect p1 s1)
qed

lemma swap_adjacent_rename:
  assumes l: "linked s N" "n1 \<in> N" "n2 \<in> N" "n1 \<noteq> n2" and p: "bt_parent s n2 = Some n1" and a: "a \<in> N"
  defines "s' \<equiv> swap_adjacent s n1 n2"
  shows "bt_parent s' (xch n1 n2 a) = map_option (xch n1 n2) (bt_parent s a)"
    and "bt_link s' (xch n1 n2 a) d = map_option (xch n1 n2) (bt_link s a d)"
proof -
  define side where "side \<longleftrightarrow> Some n2 = bt_link s n1 True"
  have n2: "bt_link s n1 side = Some n2"
  proof -
    obtain e where "bt_link s n1 e = Some n2" using linkedD(2) [OF l(1,3) p] by blast
    then show ?thesis using linked_side [OF l(1,2), of e n2] by (simp add: side_def)
  qed
  have self: "bt_parent s n1 \<noteq> Some n1" "bt_parent s n1 \<noteq> Some n2"
    using linkedD(2) [OF l(1,2)] p by metis+
  have par: "bt_link s b e = Some x \<Longrightarrow> bt_parent s x = Some b" if "b \<in> N" for b e x
    using linkedD(1) [OF l(1) that] by simp
  have ch: "bt_link s n2 e \<noteq> Some n1" "bt_link s n2 e \<noteq> Some n2" "bt_link s n1 e \<noteq> Some n1" for e
    using par [of n2 e n1] par [of n2 e n2] par [of n1 e n1] l p self by auto
  have c: "bt_link s n1 (\<not> side) \<noteq> Some n2"
    using linkedD(3) [OF l(1,2) n2] .
  note F = swap_adjacent_fields [OF l(4) ch(1) self, folded s'_def side_def]
  show "bt_parent s' (xch n1 n2 a) = map_option (xch n1 n2) (bt_parent s a)"
  proof (cases "a = n1 \<or> a = n2")
    case True
    then show ?thesis
      using l(4) p self ch c by (cases "bt_parent s n1") (auto simp: F xch_def)
  next
    case False
    have "bt_link s n1 (\<not> side) = Some a \<longleftrightarrow> bt_parent s a = Some n1"
    proof
      assume "bt_parent s a = Some n1"
      then obtain e where e: "bt_link s n1 e = Some a" using linkedD(2) [OF l(1) a] by blast
      then show "bt_link s n1 (\<not> side) = Some a" using n2 False by (cases e; cases side) auto
    qed (rule par [OF l(2)])
    moreover have "(\<exists>e. bt_link s n2 e = Some a) \<longleftrightarrow> bt_parent s a = Some n2"
      using par [OF l(3)] linkedD(2) [OF l(1) a] by blast
    ultimately show ?thesis
      using False l(4) by (cases "bt_parent s a") (auto simp: F xch_def)
  qed
  show "bt_link s' (xch n1 n2 a) d = map_option (xch n1 n2) (bt_link s a d)"
  proof (cases "a = n1 \<or> a = n2")
    case True
    then show ?thesis
    proof
      assume "a = n1"
      then show ?thesis
        using l(4) n2 ch(3) [of d] c by (cases "d = side"; cases "bt_link s n1 d") (auto simp: F xch_def)
    next
      assume "a = n2"
      then show ?thesis
        using l(4) ch(1,2) [of d] by (cases "bt_link s n2 d") (auto simp: F xch_def)
    qed
  next
    case False
    have iff: "bt_parent s n1 = Some a \<and> d = (Some n1 = bt_link s a True) \<longleftrightarrow> bt_link s a d = Some n1"
    proof
      assume h: "bt_parent s n1 = Some a \<and> d = (Some n1 = bt_link s a True)"
      then obtain e where e: "bt_link s a e = Some n1" using linkedD(2) [OF l(1,2)] by blast
      then show "bt_link s a d = Some n1" using h linked_side [OF l(1) a e] by simp
    next
      assume "bt_link s a d = Some n1"
      then show "bt_parent s n1 = Some a \<and> d = (Some n1 = bt_link s a True)"
        using par [OF a] linked_side [OF l(1) a] by simp
    qed
    have "bt_link s a d \<noteq> Some n2"
      using par [OF a, of d n2] p False by auto
    then show ?thesis
      using False iff by (cases "bt_link s a d") (auto simp: F xch_def)
  qed
qed

lemma swap_nodes_brep:
  assumes "brep s t" "n1 \<in> set (nodes t)" "n2 \<in> set (nodes t)" "n1 \<noteq> n2"
    and "bt_parent s n1 \<noteq> bt_parent s n2" "bt_parent s n1 \<noteq> Some n2"
  shows "brep (BAVL_swap_nodes s n1 n2) (rename (xch n1 n2) t)"
    and "bt_comparator (BAVL_swap_nodes s n1 n2) = bt_comparator s"
proof -
  define s1 where "s1 = (if bt_parent s n2 = Some n1 then swap_adjacent s n1 n2
      else swap_children True (swap_children False (swap_parents s n1 n2) n1 n2) n1 n2)"
  have code: "BAVL_swap_nodes s n1 n2 = set_balance n2 (bt_balance s1 n1) (set_balance n1 (bt_balance s1 n2) s1)"
    using assms(4,6) by (auto simp: BAVL_swap_nodes_def s1_def Let_def)
  have l: "linked s (set (nodes t))" using assms(1) by (rule linked_brep)
  have adj: "bt_parent s n1 \<noteq> Some n1 \<and> (\<forall>e. bt_link s n2 e \<noteq> Some n1)"
    using linkedD(2) [OF l assms(2)] linkedD(1) [OF l assms(3)] assms(6) by metis
  have f: "bt_balance s1 = bt_balance s" "bt_comparator s1 = bt_comparator s"
    using assms(4-6) adj by (simp_all add: s1_def swap_adjacent_fields swap_children_fields swap_parents_fields)
  show "bt_comparator (BAVL_swap_nodes s n1 n2) = bt_comparator s"
    by (simp add: code f)
  have root: "bt_root s1 = map_option (xch n1 n2) (bt_root s)"
  proof -
    have "bt_root s = Some n1 \<longleftrightarrow> bt_parent s n1 = None" "bt_root s = Some n2 \<longleftrightarrow> bt_parent s n2 = None"
      using linkedD(4) [OF l] assms(2,3) by auto
    then show ?thesis
      using assms(4-6) adj
      by (cases "bt_root s") (auto simp: s1_def swap_adjacent_fields swap_children_fields swap_parents_fields xch_def)
  qed
  have "bt_parent s1 (xch n1 n2 a) = map_option (xch n1 n2) (bt_parent s a) \<and>
      bt_link s1 (xch n1 n2 a) d = map_option (xch n1 n2) (bt_link s a d)" if "a \<in> set (nodes t)" for a d
    using swap_adjacent_rename [OF l assms(2-4) _ that] swap_distant_fields [OF l assms(2-5) _ assms(6) that]
    by (simp add: s1_def)
  then show "brep (BAVL_swap_nodes s n1 n2) (rename (xch n1 n2) t)"
    using assms(4) by (intro brep_rename [OF assms(1)]) (auto simp: code f root xch_def inj_on_def)
qed

section \<open>Comparators\<close>

lemma total_comparator_B_COMPARE: "total_comparator (\<lambda>x y. B_COMPARE (k x) (k y))"
  by (auto simp: total_comparator_def B_COMPARE_def)

lemma B_COMPARE_COMBINE_eq:
  "B_COMPARE_COMBINE (B_COMPARE a b) (B_COMPARE c d) = 
     (if a < b \<or> (a = b \<and> c < d) then -1 else if a = b \<and> c = d then 0 else 1)"
  by (auto simp: B_COMPARE_COMBINE_def B_COMPARE_def)

lemma total_comparatorD:
  assumes "total_comparator cmp"
  shows "cmp x y = -1 \<or> cmp x y = 0 \<or> cmp x y = 1" "cmp y x = - cmp x y"
    "cmp x y = -1 \<Longrightarrow> cmp y z = -1 \<Longrightarrow> cmp x z = -1" "cmp x y = 0 \<Longrightarrow> cmp x z = cmp y z"
    "cmp x x = 0"
proof -
  show "cmp x y = -1 \<or> cmp x y = 0 \<or> cmp x y = 1" and sym: "cmp y x = - cmp x y" for x y
    using assms unfolding total_comparator_def by blast+
  show "cmp x y = -1 \<Longrightarrow> cmp y z = -1 \<Longrightarrow> cmp x z = -1" "cmp x y = 0 \<Longrightarrow> cmp x z = cmp y z"
    using assms unfolding total_comparator_def by blast+
  show "cmp x x = 0" using sym [of x x] by simp
qed

lemma compare_values_eq:
  "total_comparator (bt_comparator s) \<Longrightarrow> BAVL_compare_values s v w = Some (bt_comparator s v w)"
  using total_comparatorD(1) [of "bt_comparator s" v w] by (auto simp: BAVL_compare_values_def)

lemma sorted_nodes_append:
  "sorted_nodes val cmp (xs @ ys) \<longleftrightarrow> sorted_nodes val cmp xs \<and> sorted_nodes val cmp ys \<and>
     (\<forall>a\<in>set xs. \<forall>b\<in>set ys. cmp (val a) (val b) = -1)"
  by (simp add: sorted_nodes_def sorted_wrt_append)

lemma sorted_nodes_Cons:
  "sorted_nodes val cmp (x # ys) \<longleftrightarrow> sorted_nodes val cmp ys \<and> (\<forall>b\<in>set ys. cmp (val x) (val b) = -1)"
  by (auto simp: sorted_nodes_def)

lemma path_ok_bounds:
  assumes "total_comparator cmp" "sorted_nodes val cmp (lnodes c @ rnodes c)" "path_ok (\<lambda>a. cmp v (val a)) c"
  shows "(\<forall>a\<in>set (lnodes c). cmp (val a) v = -1) \<and> (\<forall>a\<in>set (rnodes c). cmp v (val a) = -1)"
  using assms(2,3)
proof (induction c rule: lnodes.induct)
  case (2 d a b u c)
  note tc = total_comparatorD [OF assms(1)]
  have "sorted_nodes val cmp (lnodes c @ rnodes c)"
    using 2(2) by (cases d) (auto simp: sorted_nodes_append sorted_nodes_Cons)
  then have IH: "(\<forall>a\<in>set (lnodes c). cmp (val a) v = -1) \<and> (\<forall>a\<in>set (rnodes c). cmp v (val a) = -1)"
    using 2(1,3) by simp
  show ?case
  proof (cases d)
    case True
    then have av: "cmp (val a) v = -1" using 2(3) tc(2) [of "val a" v] by simp
    moreover have "\<forall>x\<in>set (nodes u). cmp (val x) (val a) = -1"
      using 2(2) True by (auto simp: sorted_nodes_append)
    ultimately have "\<forall>x\<in>set (nodes u). cmp (val x) v = -1" using tc(3) by blast
    then show ?thesis using IH av True by auto
  next
    case False
    then have av: "cmp v (val a) = -1" using 2(3) by simp
    moreover have "\<forall>x\<in>set (nodes u). cmp (val a) (val x) = -1"
      using 2(2) False by (auto simp: sorted_nodes_append sorted_nodes_Cons)
    ultimately have "\<forall>x\<in>set (nodes u). cmp v (val x) = -1" using tc(3) by blast
    then show ?thesis using IH av False by auto
  qed
qed simp

lemma tree_find_Inl: "tree_find f c t = Inl e \<Longrightarrow> e \<in> set (nodes t) \<and> f e = 0"
  by (induction f c t rule: tree_find.induct) (auto split: if_splits)

lemma tree_find_Inr:
  "tree_find f c t = Inr c' \<Longrightarrow> path_ok f c \<Longrightarrow> (\<And>a. f a = -1 \<or> f a = 0 \<or> f a = 1) \<Longrightarrow>
    plug c' Leaf = plug c t \<and> path_ok f c' \<and> (t \<noteq> Leaf \<longrightarrow> c' \<noteq> [])"
proof (induction f c t rule: tree_find.induct)
  case (2 f c l a b r)
  have "f a = 1 \<or> f a = -1 \<or> f a = 0" using 2(5) by auto
  moreover have "c' \<noteq> []" if "tree_find f (fr # c) u = Inr c'" for fr u
    using that by (induction f "fr # c" u arbitrary: fr c rule: tree_find.induct) (auto split: if_splits)
  ultimately show ?case
    using 2 by (auto simp: side_node_def split: if_splits)
qed auto

lemma find_cases:
  assumes t: "t \<noteq> Leaf" and tc: "total_comparator cmp"
  obtains e where "tree_find (\<lambda>a. cmp v (val a)) [] t = Inl e" "e \<in> set (nodes t)" "cmp v (val e) = 0"
  | p d b u c where "tree_find (\<lambda>a. cmp v (val a)) [] t = Inr ((d, p, b, u) # c)"
      "plug ((d, p, b, u) # c) Leaf = t" "path_ok (\<lambda>a. cmp v (val a)) ((d, p, b, u) # c)"
proof (cases "tree_find (\<lambda>a. cmp v (val a)) [] t")
  case (Inl e)
  then show thesis using that(1) tree_find_Inl by blast
next
  case (Inr c)
  have *: "plug c Leaf = t \<and> path_ok (\<lambda>a. cmp v (val a)) c \<and> (t \<noteq> Leaf \<longrightarrow> c \<noteq> [])"
    using tree_find_Inr [OF Inr] total_comparatorD(1) [OF tc] by simp
  then obtain d p b u c' where "c = (d, p, b, u) # c'" using t by (cases c) auto
  then show thesis using that(2) Inr * by simp
qed

text \<open>The loops follow the search.\<close>

lemma zrep_Node:
  assumes "zrep s c (Node l (a, b) r)"
  shows "bt_link s a False = troot l" "bt_link s a True = troot r"
    "zrep s ((False, a, b, r) # c) l" "zrep s ((True, a, b, l) # c) r"
  using assms by (auto simp: zrep_def)

lemma Insert_find_tree:
  assumes "zrep s c t" "troot t = Some m" "total_comparator (bt_comparator s)"
  shows "BAVL_Insert_find val s node m =
    Some (case tree_find (\<lambda>a. bt_comparator s (val node) (val a)) c t of
            Inl e \<Rightarrow> Inl e | Inr c' \<Rightarrow> Inr (fst (snd (hd c')), fst (hd c')))"
  using assms(1,2)
proof (induction t arbitrary: c m)
  case (Node l x r)
  then obtain b where x: "x = (m, b)" by (cases x) auto
  note z = zrep_Node [OF Node.prems(1) [unfolded x]]
  show ?case
    using Node.IH(1) [OF z(3)] Node.IH(2) [OF z(4)] assms(3)
    by (subst BAVL_Insert_find.simps)
      (cases l rule: troot.cases; cases r rule: troot.cases;
       auto simp: BAVL_compare_nodes_def compare_values_eq Let_def x z(1,2))
qed simp

lemma Lookup_loop_tree:
  assumes "zrep s c t" "troot t = Some m" "total_comparator (bt_comparator s)"
  shows "BAVL_Lookup_loop val s v m =
    Some (case tree_find (\<lambda>a. bt_comparator s v (val a)) c t of
            Inl e \<Rightarrow> Some e | Inr c' \<Rightarrow> Some (fst (snd (hd c'))))"
  using assms(1,2)
proof (induction t arbitrary: c m)
  case (Node l x r)
  then obtain b where x: "x = (m, b)" by (cases x) auto
  note z = zrep_Node [OF Node.prems(1) [unfolded x]]
  show ?case
    using Node.IH(1) [OF z(3)] Node.IH(2) [OF z(4)] assms(3)
    by (subst BAVL_Lookup_loop.simps)
      (cases l rule: troot.cases; cases r rule: troot.cases; auto simp: compare_values_eq x z(1,2))
qed simp

lemma LookupExact_loop_tree:
  assumes "zrep s c t" "troot t = Some m" "total_comparator (bt_comparator s)"
  shows "BAVL_LookupExact_loop val s v m =
    Some (case tree_find (\<lambda>a. bt_comparator s v (val a)) c t of Inl e \<Rightarrow> Some e | Inr c' \<Rightarrow> None)"
  using assms(1,2)
proof (induction t arbitrary: c m)
  case (Node l x r)
  then obtain b where x: "x = (m, b)" by (cases x) auto
  note z = zrep_Node [OF Node.prems(1) [unfolded x]]
  show ?case
    using Node.IH(1) [OF z(3)] Node.IH(2) [OF z(4)] assms(3)
    by (subst BAVL_LookupExact_loop.simps)
      (cases l rule: troot.cases; cases r rule: troot.cases; auto simp: compare_values_eq x z(1,2))
qed simp

section \<open>Insertion\<close>

lemma insert_leaf_zrep:
  assumes z: "zrep s ((d, p, b, u) # c) Leaf" and n: "n \<notin> set (lnodes ((d, p, b, u) # c))" "n \<notin> set (rnodes ((d, p, b, u) # c))"
  shows "zrep (set_balance n 0 (set_link n True None (set_link n False None (set_parent n (Some p) (set_link p d (Some n) s)))))
    ((d, p, b, u) # c) (Node Leaf (n, 0) Leaf)"
proof -
  have D: "p \<notin> set (nodes u)" "p \<notin> set (lnodes c)" "p \<notin> set (rnodes c)"
    using zrep_distinct [OF z] by (cases d; auto)+
  have N: "n \<noteq> p" "n \<notin> set (nodes u)" "n \<notin> set (lnodes c)" "n \<notin> set (rnodes c)"
    using n by (cases d; auto)+
  let ?s = "set_balance n 0 (set_link n True None (set_link n False None (set_parent n (Some p) (set_link p d (Some n) s))))"
  have "tr s (Some p) u \<longleftrightarrow> tr ?s (Some p) u"
    by (rule tr_cong) (use D N in auto)
  moreover have "cr s c (Some p) \<longleftrightarrow> cr ?s c (Some p)"
    by (rule cr_cong) (use D N in auto)
  moreover have "distinct (lnodes ((d, p, b, u) # c) @ [n] @ rnodes ((d, p, b, u) # c))"
    using zrep_distinct [OF z] n by auto
  ultimately show ?thesis
    using z N(1) by (auto simp: zrep_def)
qed

text \<open>The neighbour that \<open>BAVL_Insert\<close> and \<open>BAVL_Lookup\<close> report for a value between \<open>ls\<close> and \<open>rs\<close>.\<close>

definition neighbour :: "addr list \<Rightarrow> addr list \<Rightarrow> addr option \<Rightarrow> bool" where
  "neighbour ls rs r \<longleftrightarrow>
     (case r of None \<Rightarrow> ls = [] \<and> rs = []
      | Some p \<Rightarrow> (ls \<noteq> [] \<and> p = last ls) \<or> (rs \<noteq> [] \<and> p = hd rs))"

lemma neighbour_frame:
  "neighbour (lnodes ((d, p, b, u) # c)) (rnodes ((d, p, b, u) # c)) (Some p)"
  by (simp add: neighbour_def)

lemma index_repE:
  assumes "index_rep val s xs"
  obtains t where "zrep s [] t" "avl t" "nodes t = xs" "distinct xs"
    "sorted_nodes val (bt_comparator s) xs" "total_comparator (bt_comparator s)"
  using assms by (auto simp: index_rep_def brep_zrep brep_def zrep_def)

lemma insert_new:
  assumes z: "zrep s (f # c) Leaf" and avl: "avl (plug (f # c) Leaf)" and f: "f = (d, p, b, u)"
    and srt: "sorted_nodes val (bt_comparator s) (lnodes (f # c) @ rnodes (f # c))"
    and tc: "total_comparator (bt_comparator s)" and po: "path_ok (\<lambda>a. bt_comparator s (val n) (val a)) (f # c)"
    and n: "n \<notin> set (lnodes (f # c))" "n \<notin> set (rnodes (f # c))"
  defines "s1 \<equiv> set_balance n 0 (set_link n True None (set_link n False None (set_parent n (Some p) (set_link p d (Some n) s))))"
  shows "\<exists>s'. BAVL_rebalance s1 p d 1 = Some s' \<and> index_rep val s' (lnodes (f # c) @ n # rnodes (f # c)) \<and>
    bt_comparator s' = bt_comparator s"
proof -
  let ?cmp = "bt_comparator s"
  have z1: "zrep s1 ((d, p, b, u) # c) (Node Leaf (n, 0) Leaf)"
    unfolding s1_def using insert_leaf_zrep [of s d p b u c n] z n f by simp
  have ctx: "ctx_avl ((d, p, b, u) # c) 0"
    using avl avl_plug [of "(d, p, b, u) # c" Leaf] f by simp
  obtain s' t' where s': "BAVL_rebalance s1 p d 1 = Some s'" "brep s' t'" "avl t'"
    "nodes t' = nodes (plug ((d, p, b, u) # c) (Node Leaf (n, 0) Leaf))" "bt_comparator s' = bt_comparator s1"
    using rebalance_avl [OF z1 _ ctx, of 1] by auto
  have nt: "nodes t' = lnodes (f # c) @ n # rnodes (f # c)"
    using s'(4) by (simp only: nodes_plug f) simp
  have "(\<forall>a\<in>set (lnodes (f # c)). ?cmp (val a) (val n) = -1) \<and> (\<forall>a\<in>set (rnodes (f # c)). ?cmp (val n) (val a) = -1)"
    using tc srt po by (rule path_ok_bounds)
  then have "sorted_nodes val ?cmp (lnodes (f # c) @ n # rnodes (f # c))"
    using srt unfolding sorted_nodes_append sorted_nodes_Cons by auto
  moreover have "bt_comparator s' = ?cmp" using s'(5) by (simp add: s1_def)
  ultimately show ?thesis
    using s'(1-3) nt tc by (auto simp: index_rep_def simp del: lnodes.simps rnodes.simps)
qed

lemma BAVL_Insert_index:
  assumes rep: "index_rep val s xs" and n: "n \<notin> set xs"
  shows "(\<exists>e\<in>set xs. bt_comparator s (val n) (val e) = 0 \<and> BAVL_Insert val s n = Some (s, False, Some e)) \<or>
    (\<exists>ls rs s' r. xs = ls @ rs \<and> BAVL_Insert val s n = Some (s', True, r) \<and> neighbour ls rs r \<and>
      index_rep val s' (ls @ n # rs) \<and> bt_comparator s' = bt_comparator s)"
proof -
  obtain t where t: "zrep s [] t" "avl t" "nodes t = xs"
    and srt: "sorted_nodes val (bt_comparator s) xs" and tc: "total_comparator (bt_comparator s)"
    using rep by (elim index_repE)
  show ?thesis
  proof (cases "troot t")
    case None
    let ?s = "set_balance n 0 (set_link n True None (set_link n False None (set_parent n None (s\<lparr>bt_root := Some n\<rparr>))))"
    have ins: "BAVL_Insert val s n = Some (?s, True, None)"
      using t(1) None by (simp add: BAVL_Insert_def zrep_def Let_def)
    have "brep ?s (Node Leaf (n, 0) Leaf)" by (simp add: brep_def)
    moreover have "avl (Node Leaf (n, 0) Leaf)" "nodes (Node Leaf (n, 0) Leaf) = [n]" by simp_all
    ultimately have "index_rep val ?s [n]"
      using tc by (auto simp: index_rep_def sorted_nodes_def simp del: avl.simps nodes.simps)
    then show ?thesis
      using ins None t(3) by (intro disjI2 exI [of _ "[]"]) (auto simp: neighbour_def)
  next
    case (Some m)
    have root: "bt_root s = Some m" using t(1) Some by (simp add: zrep_def)
    have "t \<noteq> Leaf" using Some by auto
    then show ?thesis
      using tc
    proof (cases rule: find_cases [where v = "val n" and val = val])
      case 1
      then show ?thesis using root t(3) by (auto simp: BAVL_Insert_def Insert_find_tree [OF t(1) Some tc])
    next
      case (2 p d b u c)
      let ?f = "(d, p, b, u)"
      have xs: "xs = lnodes (?f # c) @ rnodes (?f # c)"
        using t(3) nodes_plug [of "?f # c" Leaf] 2(2) by simp
      have "zrep s (?f # c) Leaf" using t(1) 2(2) by (simp add: zrep_plug)
      then obtain s' where "index_rep val s' (lnodes (?f # c) @ n # rnodes (?f # c))"
        "BAVL_Insert val s n = Some (s', True, Some p)" "bt_comparator s' = bt_comparator s"
        using insert_new [of s ?f c d p b u val n] 2 t(2) srt tc n root
        by (auto simp: BAVL_Insert_def Insert_find_tree [OF t(1) Some tc] Let_def xs simp del: lnodes.simps rnodes.simps plug.simps path_ok.simps)
      then show ?thesis
        using neighbour_frame xs by blast
    qed
  qed
qed

section \<open>Removal\<close>

lemma lnodes_append: "lnodes (c @ c') = lnodes c' @ lnodes c"
  by (induction c rule: lnodes.induct) auto

lemma rnodes_append: "rnodes (c @ c') = rnodes c @ rnodes c'"
  by (induction c rule: rnodes.induct) auto

lemma replace_subtree_zrep:
  assumes z: "zrep s c (Node l (n, b) r)" and ch: "(ch = l \<and> r = Leaf) \<or> (ch = r \<and> l = Leaf)"
  shows "zrep (BAVL_replace_subtree s n (troot ch)) c ch"
proof -
  let ?X = "set (lnodes c) \<union> set (rnodes c)"
  let ?s = "BAVL_replace_subtree s n (troot ch)"
  have D: "distinct (lnodes c @ rnodes c)" "n \<notin> ?X" "set (nodes ch) \<inter> ?X = {}" "distinct (nodes ch)"
    "distinct (lnodes c @ nodes ch @ rnodes c)" "n \<notin> set (nodes ch)"
    using zrep_distinct [OF z] ch by auto
  have S: "cr s c (Some n)" "tr s (Some n) ch" "bt_parent s n = cparent c"
    using z ch by (auto simp: zrep_def)
  have F: "bt_parent ?s a = (if troot ch = Some a then cparent c else bt_parent s a)"
    "bt_link ?s a e = (if cparent c = Some a \<and> e = (Some n = bt_link s a True) then troot ch else bt_link s a e)"
    "bt_balance ?s = bt_balance s" "bt_root ?s = (if cparent c = None then troot ch else bt_root s)" for a e
    by (simp_all add: BAVL_replace_subtree_def Let_def S(3) bt_parent_set_parent_of bt_link_redirect bt_root_redirect)
  have "cr ?s c (troot ch)"
    by (rule cr_relink [OF S(1) D(1)]) (use D troot_in [of ch] in \<open>auto simp: F\<close>)
  moreover have "bt_link ?s a = bt_link s a" if "a \<in> set (nodes ch)" for a
    using cparent_in [of c a] D(3) that by (auto simp: F fun_eq_iff)
  then have "tr ?s (cparent c) ch"
    by (intro tr_reparent [OF S(2) D(4)]) (auto simp: F)
  ultimately show ?thesis using D(5) by (simp add: zrep_def)
qed

lemma Remove_detach_avl:
  assumes z: "zrep s c (Node l (n, b) r)" and avl: "avl (plug c (Node l (n, b) r))"
    and one: "l = Leaf \<or> r = Leaf"
  shows "\<exists>s' t'. BAVL_Remove_detach s n = Some s' \<and> brep s' t' \<and> avl t' \<and>
    nodes t' = lnodes c @ nodes l @ nodes r @ rnodes c \<and> bt_comparator s' = bt_comparator s"
proof -
  define ch where "ch = (if l \<noteq> Leaf then l else r)"
  let ?s = "BAVL_replace_subtree s n (troot ch)"
  have ch: "(ch = l \<and> r = Leaf) \<or> (ch = r \<and> l = Leaf)" using one by (auto simp: ch_def)
  have z': "zrep ?s c ch" by (rule replace_subtree_zrep [OF z ch])
  have A: "ctx_avl c (int (height (Node l (n, b) r)))" "avl (Node l (n, b) r)"
    using avl avl_plug by blast+
  then have "avl ch" and h: "int (height ch) = int (height (Node l (n, b) r)) + (-1)" using ch by auto
  have cmp: "bt_comparator ?s = bt_comparator s"
    by (simp add: BAVL_replace_subtree_def Let_def)
  have L: "bt_link s n False = troot l" "bt_link s n True = troot r" "bt_parent s n = cparent c"
    using z by (auto simp: zrep_def)
  have N: "nodes (plug c ch) = lnodes c @ nodes l @ nodes r @ rnodes c"
    using ch by (auto simp: nodes_plug)
  have code: "BAVL_Remove_detach s n = (case cparent c of
      Some p \<Rightarrow> BAVL_rebalance ?s p (Some n = bt_link s p True) (-1) | None \<Rightarrow> Some ?s)"
  proof -
    have "\<not> (bt_link s n False \<noteq> None \<and> bt_link s n True \<noteq> None)"
      "(if bt_link s n False \<noteq> None then bt_link s n False else bt_link s n True) = troot ch"
      using one by (auto simp: L ch_def)
    then show ?thesis unfolding BAVL_Remove_detach_def Let_def L(3) by presburger
  qed
  show ?thesis
  proof (cases c rule: cparent.cases)
    case 1
    then show ?thesis
      using z' \<open>avl ch\<close> N cmp by (auto simp: code brep_zrep)
  next
    case (2 d p b' u c')
    have "(Some n = bt_link s p True) = d"
      using zrep_side(2) [of s d p b' u c' "Node l (n, b) r" n] z 2 by simp
    then have "BAVL_Remove_detach s n = BAVL_rebalance ?s p d (-1)"
      using 2 by (simp add: code)
    moreover obtain s' t' where "BAVL_rebalance ?s p d (-1) = Some s'" "brep s' t'" "avl t'"
      "nodes t' = nodes (plug c ch)" "bt_comparator s' = bt_comparator ?s"
      using rebalance_avl [OF z' [unfolded 2] \<open>avl ch\<close> A(1) [unfolded 2] h] unfolding 2 by auto
    ultimately show ?thesis using N cmp by auto
  qed
qed

lemma subtree_max_spec:
  assumes "zrep s c t" "troot t = Some x"
  shows "\<exists>m ic l b. BAVL_subtree_max s x = Some m \<and> t = plug ic (Node l (m, b) Leaf) \<and> rnodes ic = []"
  using assms
proof (induction t arbitrary: c x)
  case (Node l y r)
  obtain b where y: "y = (x, b)" using Node.prems(2) by (cases y) auto
  have L: "bt_link s x True = troot r" using Node.prems(1) by (simp add: zrep_def y)
  show ?case
  proof (cases "troot r")
    case None
    then have "BAVL_subtree_max s x = Some x" "Node l y r = plug [] (Node l (x, b) Leaf)"
      using L y by (auto simp: BAVL_subtree_max.simps)
    then show ?thesis by (metis rnodes.simps(1))
  next
    case (Some z)
    have "zrep s ((True, x, b, l) # c) r"
      using Node.prems(1) by (simp add: zrep_frame side_node_def y)
    then obtain m ic l' b' where *: "BAVL_subtree_max s z = Some m" "r = plug ic (Node l' (m, b') Leaf)" "rnodes ic = []"
      using Node.IH(2) Some by blast
    have "BAVL_subtree_max s x = Some m"
      using * L Some by (subst BAVL_subtree_max.simps) simp
    moreover have "Node l y r = plug (ic @ [(True, x, b, l)]) (Node l' (m, b') Leaf)" "rnodes (ic @ [(True, x, b, l)]) = []"
      using * by (simp_all add: plug_append side_node_def y rnodes_append)
    ultimately show ?thesis by blast
  qed
qed simp

lemma rename_plug:
  assumes "\<And>a. a \<in> set (lnodes c) \<union> set (rnodes c) \<Longrightarrow> f a = a"
  shows "rename f (plug c t) = plug c (rename f t)"
  using assms
proof (induction c t rule: plug.induct)
  case (2 d a b u c t)
  have "f a = a" "rename f u = u"
    using 2(2) by (cases d; auto intro!: rename_id)+
  then have "rename f (side_node d (a, b) t u) = side_node d (a, b) (rename f t) u"
    by (simp add: side_node_def)
  moreover have "rename f (plug c (side_node d (a, b) t u)) = plug c (rename f (side_node d (a, b) t u))"
    using 2 by auto
  ultimately show ?case by simp
qed simp

lemma avl_rename [simp]: "avl (rename f t) = avl t" "height (rename f t) = height t"
proof -
  show h: "height (rename f t) = height t" for t by (simp add: rename_def)
  show "avl (rename f t) = avl t" by (induction t rule: avl.induct) (auto simp: h)
qed

lemma remove_swap:
  assumes z: "zrep s c (Node l (n, b) r)" and l: "l = plug ic (Node ll (m, mb) Leaf)" "rnodes ic = []"
  shows "zrep (BAVL_swap_nodes s n m) (ic @ (False, m, b, r) # c) (Node ll (n, mb) Leaf)"
    and "bt_comparator (BAVL_swap_nodes s n m) = bt_comparator s"
    and "plug (ic @ (False, m, b, r) # c) (Node ll (n, mb) Leaf) = rename (xch n m) (plug c (Node l (n, b) r))"
proof -
  let ?c = "ic @ (False, n, b, r) # c" and ?t = "plug c (Node l (n, b) r)"
  have t: "?t = plug ?c (Node ll (m, mb) Leaf)"
    by (simp add: l plug_append side_node_def)
  have zm: "zrep s ?c (Node ll (m, mb) Leaf)" using z t by (simp add: zrep_plug)
  have B: "brep s ?t" using z by (simp add: zrep_plug)
  have D: "n \<noteq> m" "m \<notin> set (lnodes c)" "m \<notin> set (rnodes c)" "n \<notin> set (lnodes c)" "n \<notin> set (rnodes c)"
    "m \<notin> set (nodes r)" "n \<notin> set (nodes r)" "m \<notin> set (lnodes ic)" "n \<notin> set (lnodes ic)" "m \<notin> set (nodes ll)" "n \<notin> set (nodes ll)"
    "set (lnodes ic) \<inter> (set (lnodes c) \<union> set (rnodes c)) = {}"
    using zrep_distinct [OF zm] by (auto simp: lnodes_append rnodes_append l)
  have pm: "bt_parent s m = cparent ?c" "bt_parent s n = cparent c"
    using zm z by (auto simp: zrep_def)
  have pp: "bt_parent s n \<noteq> bt_parent s m"
  proof (cases ic rule: cparent.cases)
    case 1
    then show ?thesis using pm D(4,5) cparent_in [of c n] by auto
  next
    case (2 d a b' u ic')
    then have "a \<in> set (lnodes ic)" using l(2) by (cases d) auto
    then show ?thesis using pm 2 D(12) cparent_in [of c a] by auto
  qed
  have pn: "bt_parent s n \<noteq> Some m" using pm(2) D(2,3) cparent_in [of c m] by auto
  have "m \<in> set (nodes ?t)" "n \<in> set (nodes ?t)" by (simp_all add: nodes_plug l)
  note sw = swap_nodes_brep [OF B this(2,1) D(1) pp pn]
  have "rename (xch n m) ?t = plug c (rename (xch n m) (Node l (n, b) r))"
    by (rule rename_plug) (use D(2-5) in \<open>auto simp: xch_def\<close>)
  also have "rename (xch n m) l = plug ic (rename (xch n m) (Node ll (m, mb) Leaf))"
    unfolding l by (rule rename_plug) (use D(8,9) l(2) in \<open>auto simp: xch_def\<close>)
  then have "rename (xch n m) (Node l (n, b) r) = Node (plug ic (Node ll (n, mb) Leaf)) (m, b) r"
    using D(6,7,10,11) rename_id [of ll "xch n m"] rename_id [of r "xch n m"] by (simp add: xch_def) (metis xch_def)
  finally show t': "plug (ic @ (False, m, b, r) # c) (Node ll (n, mb) Leaf) = rename (xch n m) ?t"
    by (simp add: plug_append side_node_def)
  show "zrep (BAVL_swap_nodes s n m) (ic @ (False, m, b, r) # c) (Node ll (n, mb) Leaf)"
    using sw(1) unfolding zrep_plug t' .
  show "bt_comparator (BAVL_swap_nodes s n m) = bt_comparator s" by (rule sw(2))
qed

lemma sorted_nodes_remove: "sorted_nodes val cmp xs \<Longrightarrow> sorted_nodes val cmp (remove1 n xs)"
  by (induction xs) (auto simp: sorted_nodes_Cons dest: notin_set_remove1 set_mp [OF set_remove1_subset])

lemma BAVL_Remove_index:
  assumes rep: "index_rep val s xs" and n: "n \<in> set xs"
  shows "\<exists>s'. BAVL_Remove s n = Some s' \<and> index_rep val s' (remove1 n xs) \<and> bt_comparator s' = bt_comparator s"
proof -
  obtain t where t: "zrep s [] t" "avl t" "nodes t = xs" "distinct xs"
    and srt: "sorted_nodes val (bt_comparator s) xs" and tc: "total_comparator (bt_comparator s)"
    using rep by (elim index_repE)
  obtain c l b r where c: "t = plug c (Node l (n, b) r)" "zrep s c (Node l (n, b) r)"
    using zrep_at [of s t n] t(1,3) n by (metis brep_zrep)
  have xs: "xs = lnodes c @ nodes l @ n # nodes r @ rnodes c"
    using t(3) by (simp add: c(1) nodes_plug)
  then have rm: "remove1 n xs = lnodes c @ nodes l @ nodes r @ rnodes c"
    using t(4) by (auto simp: remove1_append)
  have L: "bt_link s n False = troot l" "bt_link s n True = troot r"
    using c(2) by (auto simp: zrep_def)
  have "\<exists>s' t'. BAVL_Remove s n = Some s' \<and> brep s' t' \<and> avl t' \<and> nodes t' = remove1 n xs \<and>
      bt_comparator s' = bt_comparator s"
  proof (cases "l = Leaf \<or> r = Leaf")
    case True
    then have "BAVL_Remove s n = BAVL_Remove_detach s n"
      by (auto simp: BAVL_Remove_def L split: option.splits)
    then show ?thesis
      using Remove_detach_avl [OF c(2) _ True] t(2) c(1) rm by auto
  next
    case False
    then obtain x y where xy: "troot l = Some x" "troot r = Some y" by (cases l; cases r) auto
    have "zrep s ((False, n, b, r) # c) l" using c(2) by (simp add: zrep_frame side_node_def)
    then obtain m ic ll mb where m: "BAVL_subtree_max s x = Some m" "l = plug ic (Node ll (m, mb) Leaf)" "rnodes ic = []"
      using subtree_max_spec xy(1) by blast
    have "BAVL_Remove s n = BAVL_Remove_detach (BAVL_swap_nodes s n m) n"
      by (simp add: BAVL_Remove_def L xy m(1))
    moreover have "avl (plug (ic @ (False, m, b, r) # c) (Node ll (n, mb) Leaf))"
      unfolding remove_swap(3) [OF c(2) m(2,3)] using t(2) c(1) by simp
    moreover have "lnodes (ic @ (False, m, b, r) # c) @ nodes ll @ nodes Leaf @ rnodes (ic @ (False, m, b, r) # c) = remove1 n xs"
      unfolding rm by (simp add: m(2,3) nodes_plug lnodes_append rnodes_append)
    ultimately show ?thesis
      using Remove_detach_avl [OF remove_swap(1) [OF c(2) m(2,3)]] remove_swap(2) [OF c(2) m(2,3)] by auto
  qed
  then show ?thesis
    using sorted_nodes_remove [OF srt] tc by (auto simp: index_rep_def)
qed

section \<open>Lookups\<close>

lemma BAVL_LookupExact_index:
  assumes rep: "index_rep val s xs"
  shows "\<exists>r. BAVL_LookupExact val s v = Some r \<and>
    (case r of Some e \<Rightarrow> e \<in> set xs \<and> bt_comparator s v (val e) = 0
     | None \<Rightarrow> \<forall>e\<in>set xs. bt_comparator s v (val e) \<noteq> 0)"
proof -
  obtain t where t: "zrep s [] t" "nodes t = xs"
    and srt: "sorted_nodes val (bt_comparator s) xs" and tc: "total_comparator (bt_comparator s)"
    using rep by (elim index_repE)
  show ?thesis
  proof (cases "troot t")
    case None
    then show ?thesis using t by (auto simp: BAVL_LookupExact_def zrep_def)
  next
    case (Some m)
    have code: "BAVL_LookupExact val s v =
      Some (case tree_find (\<lambda>a. bt_comparator s v (val a)) [] t of Inl e \<Rightarrow> Some e | Inr c' \<Rightarrow> None)"
      using t(1) Some LookupExact_loop_tree [OF t(1) Some tc] by (simp add: BAVL_LookupExact_def zrep_def)
    have "t \<noteq> Leaf" using Some by auto
    then show ?thesis
      using tc
    proof (cases rule: find_cases [where v = v and val = val])
      case (2 p d b u c)
      then have xs: "xs = lnodes ((d, p, b, u) # c) @ rnodes ((d, p, b, u) # c)"
        using t(2) nodes_plug [of "(d, p, b, u) # c" Leaf] by simp
      have "bt_comparator s v (val e) \<noteq> 0" if "e \<in> set xs" for e
        using path_ok_bounds [OF tc srt [unfolded xs] 2(3)] that total_comparatorD(2) [OF tc, of v "val e"]
        unfolding xs by auto
      then show ?thesis using 2(1) code by simp
    qed (use t(2) code in simp)
  qed
qed

lemma BAVL_Lookup_index:
  assumes rep: "index_rep val s xs"
  shows "\<exists>r. BAVL_Lookup val s v = Some r \<and>
    ((\<exists>e\<in>set xs. r = Some e \<and> bt_comparator s v (val e) = 0) \<or>
     (\<exists>ls rs. xs = ls @ rs \<and> neighbour ls rs r \<and>
        (\<forall>a\<in>set ls. bt_comparator s (val a) v = -1) \<and> (\<forall>a\<in>set rs. bt_comparator s v (val a) = -1)))"
proof -
  obtain t where t: "zrep s [] t" "nodes t = xs"
    and srt: "sorted_nodes val (bt_comparator s) xs" and tc: "total_comparator (bt_comparator s)"
    using rep by (elim index_repE)
  show ?thesis
  proof (cases "troot t")
    case None
    then show ?thesis using t by (auto simp: BAVL_Lookup_def zrep_def neighbour_def)
  next
    case (Some m)
    have code: "BAVL_Lookup val s v =
      Some (case tree_find (\<lambda>a. bt_comparator s v (val a)) [] t of
              Inl e \<Rightarrow> Some e | Inr c' \<Rightarrow> Some (fst (snd (hd c'))))"
      using t(1) Some Lookup_loop_tree [OF t(1) Some tc] by (simp add: BAVL_Lookup_def zrep_def)
    have "t \<noteq> Leaf" using Some by auto
    then show ?thesis
      using tc
    proof (cases rule: find_cases [where v = v and val = val])
      case (2 p d b u c)
      then have xs: "xs = lnodes ((d, p, b, u) # c) @ rnodes ((d, p, b, u) # c)"
        using t(2) nodes_plug [of "(d, p, b, u) # c" Leaf] by simp
      then show ?thesis
        using path_ok_bounds [OF tc srt [unfolded xs] 2(3)] 2(1) code neighbour_frame [of d p b u c]
        by (intro exI [of _ "Some p"]) (auto simp del: lnodes.simps rnodes.simps)
    qed (use t(2) code in simp)
  qed
qed

section \<open>Traversal\<close>

lemma descend_left:
  assumes "zrep s c t" "troot t = Some m"
  shows "BAVL_descend s False m = Some (hd (nodes t))"
  using assms
proof (induction t arbitrary: c m)
  case (Node l x r)
  then obtain b where x: "x = (m, b)" by (cases x) auto
  note z = zrep_Node [OF Node.prems(1) [unfolded x]]
  show ?case
    using Node.IH(1) [OF z(3)] z(1) by (cases l) (auto simp: BAVL_descend.simps [of s False m] x hd_append)
qed simp

lemma descend_right:
  assumes "zrep s c t" "troot t = Some m"
  shows "BAVL_descend s True m = Some (last (nodes t))"
  using assms
proof (induction t arbitrary: c m)
  case (Node l x r)
  then obtain b where x: "x = (m, b)" by (cases x) auto
  note z = zrep_Node [OF Node.prems(1) [unfolded x]]
  show ?case
    using Node.IH(2) [OF z(4)] z(2) by (cases r) (auto simp: BAVL_descend.simps [of s True m] x)
qed simp

lemma ascend_right:
  assumes "zrep s c t" "troot t = Some n"
  shows "\<exists>m. BAVL_ascend s True n = Some m \<and>
    bt_parent s m = (case rnodes c of [] \<Rightarrow> None | x # _ \<Rightarrow> Some x)"
  using assms
proof (induction c arbitrary: t n)
  case Nil
  then have "bt_parent s n = None" by (cases t) (auto simp: zrep_def)
  then show ?case by (simp add: BAVL_ascend.simps)
next
  case (Cons f c)
  obtain d a b u where f: "f = (d, a, b, u)" by (cases f) auto
  note S = zrep_side [OF Cons.prems(1) [unfolded f] Cons.prems(2)]
  have z: "zrep s c (side_node d (a, b) t u)" using Cons.prems(1) by (simp add: f zrep_frame)
  show ?case
    using Cons.IH [OF z] S by (cases d) (auto simp: BAVL_ascend.simps [of s True n] f)
qed

lemma ascend_left:
  assumes "zrep s c t" "troot t = Some n"
  shows "\<exists>m. BAVL_ascend s False n = Some m \<and>
    bt_parent s m = (if lnodes c = [] then None else Some (last (lnodes c)))"
  using assms
proof (induction c arbitrary: t n)
  case Nil
  then have "bt_parent s n = None" by (cases t) (auto simp: zrep_def)
  then show ?case by (simp add: BAVL_ascend.simps)
next
  case (Cons f c)
  obtain d a b u where f: "f = (d, a, b, u)" by (cases f) auto
  note S = zrep_side [OF Cons.prems(1) [unfolded f] Cons.prems(2)]
  have L: "bt_link s a d = Some n" "d \<Longrightarrow> bt_link s a False \<noteq> Some n"
    using Cons.prems S(2) troot_in [of u n] zrep_distinct [OF Cons.prems(1)] troot_in [of t n]
    by (auto simp: zrep_def f)
  have z: "zrep s c (side_node d (a, b) t u)" using Cons.prems(1) by (simp add: f zrep_frame)
  show ?case
  proof (cases d)
    case True
    then have "BAVL_ascend s False n = Some n" using S L by (simp add: BAVL_ascend.simps [of s False n])
    then show ?thesis using S(1) True by (simp add: f)
  qed (use Cons.IH [OF z] S L in \<open>auto simp: BAVL_ascend.simps [of s False n] f\<close>)
qed

lemma index_rep_root:
  assumes "index_rep val s xs"
  obtains "xs = []" "bt_root s = None"
  | t m where "xs \<noteq> []" "bt_root s = Some m" "zrep s [] t" "troot t = Some m" "nodes t = xs"
proof -
  obtain t where t: "zrep s [] t" "nodes t = xs" using assms by (elim index_repE)
  show thesis
  proof (cases "troot t")
    case None
    then show thesis using t that(1) by (auto simp: zrep_def)
  next
    case (Some m)
    then have "xs \<noteq> []" "bt_root s = Some m" using t by (cases t; auto simp: zrep_def)+
    then show thesis using t Some that(2) by blast
  qed
qed

lemma BAVL_IsEmpty_index: "index_rep val s xs \<Longrightarrow> BAVL_IsEmpty s \<longleftrightarrow> xs = []"
  by (erule index_rep_root) (auto simp: BAVL_IsEmpty_def)

lemma BAVL_GetFirst_index:
  "index_rep val s xs \<Longrightarrow> BAVL_GetFirst s = Some (if xs = [] then None else Some (hd xs))"
  by (erule index_rep_root) (auto simp: BAVL_GetFirst_def descend_left)

lemma BAVL_GetLast_index:
  "index_rep val s xs \<Longrightarrow> BAVL_GetLast s = Some (if xs = [] then None else Some (last xs))"
  by (erule index_rep_root) (auto simp: BAVL_GetLast_def descend_right)

lemma index_rep_split:
  assumes "index_rep val s (ls @ n # rs)"
  obtains c l b r where "zrep s c (Node l (n, b) r)" "ls = lnodes c @ nodes l" "rs = nodes r @ rnodes c"
proof -
  obtain t where t: "zrep s [] t" "nodes t = ls @ n # rs" "distinct (ls @ n # rs)"
    using assms by (elim index_repE)
  obtain c l b r where c: "t = plug c (Node l (n, b) r)" "zrep s c (Node l (n, b) r)"
    using zrep_at [of s t n] t(1,2) by (metis brep_zrep in_set_conv_decomp)
  have "lnodes c @ nodes l @ n # nodes r @ rnodes c = ls @ n # rs"
    using t(2) by (simp add: c(1) nodes_plug)
  moreover have "n \<notin> set ls" "n \<notin> set (lnodes c @ nodes l)" "n \<notin> set (nodes r @ rnodes c)"
    using t(3) zrep_distinct [OF c(2)] by auto
  ultimately have "lnodes c @ nodes l = ls \<and> nodes r @ rnodes c = rs"
    using append_Cons_eq_iff [of n "lnodes c @ nodes l" "nodes r @ rnodes c" ls rs] by simp
  then show thesis using that c(2) by blast
qed

lemma BAVL_GetNext_index:
  assumes "index_rep val s (ls @ n # rs)"
  shows "BAVL_GetNext s n = Some (if rs = [] then None else Some (hd rs))"
proof -
  obtain c l b r where c: "zrep s c (Node l (n, b) r)" "rs = nodes r @ rnodes c"
    using index_rep_split [OF assms] by metis
  note z = zrep_Node [OF c(1)]
  show ?thesis
  proof (cases "troot r")
    case None
    then show ?thesis
      using ascend_right [OF c(1)] z(2) c(2) by (auto simp: BAVL_GetNext_def split: list.splits)
  next
    case (Some m)
    then have "nodes r \<noteq> []" by (cases r) auto
    then show ?thesis
      using descend_left [OF z(4) Some] z(2) Some c(2) by (simp add: BAVL_GetNext_def)
  qed
qed

lemma BAVL_GetPrev_index:
  assumes "index_rep val s (ls @ n # rs)"
  shows "BAVL_GetPrev s n = Some (if ls = [] then None else Some (last ls))"
proof -
  obtain c l b r where c: "zrep s c (Node l (n, b) r)" "ls = lnodes c @ nodes l"
    using index_rep_split [OF assms] by metis
  note z = zrep_Node [OF c(1)]
  show ?thesis
  proof (cases "troot l")
    case None
    then show ?thesis
      using ascend_left [OF c(1)] z(1) c(2) by (auto simp: BAVL_GetPrev_def)
  next
    case (Some m)
    then have "nodes l \<noteq> []" by (cases l) auto
    then show ?thesis
      using descend_right [OF z(3) Some] z(1) Some c(2) by (simp add: BAVL_GetPrev_def)
  qed
qed

section \<open>The self-check\<close>

lemma assert_recurser_tree:
  assumes "zrep s c t" "troot t = Some m" "avl t" "sorted_nodes val (bt_comparator s) (nodes t)"
    and tc: "total_comparator (bt_comparator s)"
  shows "BAVL_assert_recurser val s m = Some (int (height t))"
  using assms(1-4)
proof (induction t arbitrary: c m)
  case (Node l x r)
  then obtain b where x: "x = (m, b)" by (cases x) auto
  note z = zrep_Node [OF Node.prems(1) [unfolded x]]
  have srt: "sorted_nodes val (bt_comparator s) (nodes l)" "sorted_nodes val (bt_comparator s) (nodes r)"
    "\<And>a. a \<in> set (nodes l) \<Longrightarrow> bt_comparator s (val a) (val m) = -1"
    "\<And>a. a \<in> set (nodes r) \<Longrightarrow> bt_comparator s (val a) (val m) = 1"
    using Node.prems(4) total_comparatorD(2) [OF tc, of "val m"]
    by (auto simp: x sorted_nodes_append sorted_nodes_Cons)
  have b: "bt_balance s m = b" using Node.prems(1) by (simp add: zrep_def x)
  have avl: "b = int (height r) - int (height l)" "-1 \<le> b" "b \<le> 1" "avl l" "avl r"
    using Node.prems(3) by (auto simp: x)
  have L: "(case bt_link s m False of None \<Rightarrow> Some 0 | Some l \<Rightarrow>
      if bt_parent s l \<noteq> Some m then None
      else if BAVL_compare_nodes val s l m \<noteq> Some (-1) then None
      else BAVL_assert_recurser val s l) = Some (int (height l))"
  proof (cases "troot l")
    case (Some q)
    then have "bt_parent s q = Some m" using z(3) by (cases l) (auto simp: zrep_def)
    then show ?thesis
      using Some Node.IH(1) [OF z(3) Some avl(4) srt(1)] srt(3) [OF troot_in [OF Some]]
      by (simp add: z(1) BAVL_compare_nodes_def compare_values_eq [OF tc])
  qed (simp add: z(1))
  have R: "(case bt_link s m True of None \<Rightarrow> Some 0 | Some r \<Rightarrow>
      if bt_parent s r \<noteq> Some m then None
      else if BAVL_compare_nodes val s r m \<noteq> Some 1 then None
      else BAVL_assert_recurser val s r) = Some (int (height r))"
  proof (cases "troot r")
    case (Some q)
    then have "bt_parent s q = Some m" using z(4) by (cases r) (auto simp: zrep_def)
    then show ?thesis
      using Some Node.IH(2) [OF z(4) Some avl(5) srt(2)] srt(4) [OF troot_in [OF Some]]
      by (simp add: z(2) BAVL_compare_nodes_def compare_values_eq [OF tc])
  qed (simp add: z(2))
  show ?case
    unfolding BAVL_assert_recurser.simps [of val s m] L R using b avl
    by (auto simp: BAVL_MAX_def max_def)
qed simp

lemma BAVL_Verify_index: "index_rep val s xs \<Longrightarrow> BAVL_Verify val s = Some ()"
proof -
  assume rep: "index_rep val s xs"
  then obtain t where t: "zrep s [] t" "avl t" "nodes t = xs"
    and srt: "sorted_nodes val (bt_comparator s) xs" and tc: "total_comparator (bt_comparator s)"
    by (elim index_repE)
  show ?thesis
  proof (cases "troot t")
    case (Some m)
    have "bt_parent s m = None" using t(1) Some by (cases t) (auto simp: zrep_def)
    then show ?thesis
      using assert_recurser_tree [OF t(1) Some t(2) srt [folded t(3)] tc] t(1) Some
      by (simp add: BAVL_Verify_def zrep_def)
  qed (use t in \<open>simp add: BAVL_Verify_def zrep_def\<close>)
qed

section \<open>BAVL is an ordered index\<close>

lemma spec_insert_sorted:
  assumes "total_comparator cmp" "sorted_nodes val cmp (ls @ n # rs)"
  shows "spec_insert val cmp (ls @ rs) n = (ls @ n # rs, True)"
proof -
  note tc = total_comparatorD [OF assms(1)]
  have l: "cmp (val a) (val n) = -1" if "a \<in> set ls" for a
    using assms(2) that by (auto simp: sorted_nodes_append)
  have r: "cmp (val a) (val n) = 1" if "a \<in> set rs" for a
    using assms(2) that tc(2) [of "val n" "val a"] by (auto simp: sorted_nodes_append sorted_nodes_Cons)
  have "takeWhile (\<lambda>a. cmp (val a) (val n) = -1) (ls @ rs) = ls"
    "dropWhile (\<lambda>a. cmp (val a) (val n) = -1) (ls @ rs) = rs"
    using l r by (auto simp: takeWhile_append takeWhile_eq_Nil_iff dropWhile_append dropWhile_eq_self_iff dropWhile_eq_Nil_conv)
  moreover have "cmp (val n) (val e) \<noteq> 0" if "e \<in> set (ls @ rs)" for e
    using l r that tc(2) [of "val n" "val e"] by auto
  ultimately show ?thesis by (auto simp: spec_insert_def)
qed

lemma BAVL_Insert_spec:
  assumes "index_rep val s xs" "n \<notin> set xs"
  shows "\<exists>s' r. BAVL_Insert val s n = Some (s', snd (spec_insert val (bt_comparator s) xs n), r) \<and>
    index_rep val s' (fst (spec_insert val (bt_comparator s) xs n)) \<and> bt_comparator s' = bt_comparator s"
  using BAVL_Insert_index [OF assms]
proof
  assume "\<exists>e\<in>set xs. bt_comparator s (val n) (val e) = 0 \<and> BAVL_Insert val s n = Some (s, False, Some e)"
  then show ?thesis using assms(1) by (auto simp: spec_insert_def)
next
  assume "\<exists>ls rs s' r. xs = ls @ rs \<and> BAVL_Insert val s n = Some (s', True, r) \<and> neighbour ls rs r \<and>
      index_rep val s' (ls @ n # rs) \<and> bt_comparator s' = bt_comparator s"
  then obtain ls rs s' r where *: "xs = ls @ rs" "BAVL_Insert val s n = Some (s', True, r)"
    "index_rep val s' (ls @ n # rs)" "bt_comparator s' = bt_comparator s" by blast
  then have "spec_insert val (bt_comparator s) xs n = (ls @ n # rs, True)"
    using spec_insert_sorted by (metis index_rep_def)
  then show ?thesis using * by simp
qed

interpretation bavl: ordered_index val "\<lambda>x y. B_COMPARE (k x) (k y)"
  "\<lambda>s xs. bt_comparator s = (\<lambda>x y. B_COMPARE (k x) (k y)) \<and> index_rep val s xs"
  "BAVL_Insert val" BAVL_Remove BAVL_GetFirst BAVL_GetNext "BAVL_LookupExact val"
  for val :: "addr \<Rightarrow> 'v" and k :: "'v \<Rightarrow> 'k::linorder"
proof (unfold_locales, goal_cases)
  case 1
  show ?case by (rule total_comparator_B_COMPARE)
next
  case (2 s xs)
  then show ?case by (auto simp: index_rep_def)
next
  case (3 s xs n)
  then show ?case using BAVL_Insert_spec [of val s xs n] by auto
next
  case (4 s xs n)
  then show ?case using BAVL_Remove_index [of val s xs n] by auto
next
  case (5 s xs)
  then show ?case using BAVL_GetFirst_index by blast
next
  case (6 s ls n rs)
  then show ?case using BAVL_GetNext_index by blast
next
  case (7 s xs v)
  then show ?case using BAVL_LookupExact_index [of val s xs v] by (auto split: option.splits)
qed

text \<open>
  C8: For every sequence of insertions, removals, lookups and traversal steps that a client may make
  on a new tree whose comparator orders values by a key, every operation of the AVL tree returns
  (no assertion fails, no NULL pointer is followed, no loop runs forever), the results are
  those of a list kept sorted by key, and at the end the self-check \<open>BAVL_Verify\<close> passes: parent
  links, search order and balance factors are right.
\<close>

theorem bavl_is_sorted_index:
  assumes "index_ops_valid val (\<lambda>x y. B_COMPARE (k x) (k y)) [] ops"
  shows "\<exists>s'. index_run (do_index_op (BAVL_Insert val) BAVL_Remove (BAVL_LookupExact val) BAVL_GetFirst BAVL_GetNext)
      (BAVL_Init s (\<lambda>x y. B_COMPARE (k x) (k y))) ops =
        Some (s', snd (spec_index_run val (\<lambda>x y. B_COMPARE (k x) (k y)) [] ops)) \<and>
    (\<exists>t. brep s' t \<and> avl t \<and> nodes t = fst (spec_index_run val (\<lambda>x y. B_COMPARE (k x) (k y)) [] ops)) \<and>
    BAVL_Verify val s' = Some ()"
proof -
  let ?cmp = "\<lambda>x y. B_COMPARE (k x) (k y)"
  let ?s = "BAVL_Init s ?cmp"
  have "brep ?s Leaf" by (simp add: brep_def BAVL_Init_def)
  then have "\<exists>t. brep ?s t \<and> avl t \<and> nodes t = []" by (intro exI [of _ Leaf]) simp
  then have "bt_comparator ?s = ?cmp \<and> index_rep val ?s []"
    by (simp add: index_rep_def BAVL_Init_def sorted_nodes_def total_comparator_B_COMPARE)
  from bavl.run_refines [OF this assms] obtain s' where
    "index_run (do_index_op (BAVL_Insert val) BAVL_Remove (BAVL_LookupExact val) BAVL_GetFirst BAVL_GetNext) ?s ops =
        Some (s', snd (spec_index_run val ?cmp [] ops))"
    "index_rep val s' (fst (spec_index_run val ?cmp [] ops))" by blast
  then show ?thesis using BAVL_Verify_index by (auto simp: index_rep_def)
qed

definition bavl_sample_ops :: "nat index_op list" where
  "bavl_sample_ops = [Index_Insert 1, Index_Insert 2, Index_Insert 3, Index_Find 30, Index_Insert 13, Index_Remove 2, Index_First, Index_Next 1]"

theorem bavl_is_sorted_index_witness:
  "index_ops_valid (\<lambda>a. 10 * (a mod 10)) (\<lambda>x y. B_COMPARE x y) [] bavl_sample_ops \<and>
   spec_index_run (\<lambda>a. 10 * (a mod 10)) (\<lambda>x y. B_COMPARE x y) [] bavl_sample_ops =
     ([1, 3], [Index_Inserted True, Index_Inserted True, Index_Inserted True, Index_Node (Some 3),
       Index_Inserted False, Index_Done, Index_Node (Some 1), Index_Node (Some 3)]) \<and>
   (\<exists>s'. index_run (do_index_op (BAVL_Insert (\<lambda>a. 10 * (a mod 10))) BAVL_Remove
        (BAVL_LookupExact (\<lambda>a. 10 * (a mod 10))) BAVL_GetFirst BAVL_GetNext)
      (BAVL_Init \<lparr>bt_comparator = \<lambda>_ _. 0, bt_root = None, bt_parent = \<lambda>_. None, bt_link = \<lambda>_ _. None, bt_balance = \<lambda>_. 0\<rparr>
        (\<lambda>x y. B_COMPARE x y)) bavl_sample_ops =
        Some (s', snd (spec_index_run (\<lambda>a. 10 * (a mod 10)) (\<lambda>x y. B_COMPARE x y) [] bavl_sample_ops)))"
proof -
  have v: "index_ops_valid (\<lambda>a. 10 * (a mod 10)) (\<lambda>x y. B_COMPARE x y) [] bavl_sample_ops" by code_simp
  have r: "spec_index_run (\<lambda>a. 10 * (a mod 10)) (\<lambda>x y. B_COMPARE x y) [] bavl_sample_ops =
     ([1, 3], [Index_Inserted True, Index_Inserted True, Index_Inserted True, Index_Node (Some 3),
       Index_Inserted False, Index_Done, Index_Node (Some 1), Index_Node (Some 3)])" by code_simp
  show ?thesis
    using v r bavl_is_sorted_index [where k = "\<lambda>x. x", OF v] by blast
qed

text \<open>
  The exchange of nodes is only right for nodes that are not siblings: after the left sibling has
  taken the place of the right one, the test for its side reads the link that was just written.
  \<open>BAVL_Remove\<close> never asks for this case.
\<close>

definition sibling_sample :: "nat bavl" where
  "sibling_sample = \<lparr>bt_comparator = (\<lambda>x y. B_COMPARE x y), bt_root = Some 1,
     bt_parent = (\<lambda>_. None)(2 := Some 1, 3 := Some 1),
     bt_link = (\<lambda>_ _. None)(1 := (\<lambda>d. if d then Some 3 else Some 2)), bt_balance = (\<lambda>_. 0)\<rparr>"

lemma swap_siblings_wrong:
  "brep sibling_sample (Node (Node Leaf (2, 0) Leaf) (1, 0) (Node Leaf (3, 0) Leaf)) \<and>
   bt_link (BAVL_swap_nodes sibling_sample 2 3) 1 False = Some 2"
  by (simp add: sibling_sample_def brep_def BAVL_swap_nodes_def swap_parents_def swap_children_def
      redirect_def set_parent_of_def Let_def)

end
