(* ===== verification/CAvl.thy ===== *)
theory CAvl
  imports BAVL_Index
begin

text \<open>
  The generic AVL tree of structure/CAvl_impl.h and its wrapper structure/SAvl_impl.h, in the
  configuration of the two trees of this program (flow/PacketPassFairQueue_tree.h and
  system/BReactor_badvpn_timerstree.h): no counts, no keys, no associative values.

  A reference (link and pointer) is the address of the entry, and the null reference is None.  The tree
  and the nodes are the record of BAVL.thy, with the fields CAvl_parent, CAvl_link and CAvl_balance.
  The functions here pass parents along and assert that they are right, so they are first shown to
  agree with those of structure/BAVL.h on every well-formed tree, and then to implement the same
  interface.
\<close>

section \<open>structure/CAvl_impl.h\<close>

definition CAvl_MAX :: "int \<Rightarrow> int \<Rightarrow> int" where
  "CAvl_MAX a b = (if a > b then a else b)"

definition CAvl_OPTNEG :: "int \<Rightarrow> bool \<Rightarrow> int" where
  "CAvl_OPTNEG a neg = (if neg then - a else a)"

definition CAvl_compare_entries :: "(addr \<Rightarrow> 'v) \<Rightarrow> 'v bavl \<Rightarrow> addr \<Rightarrow> addr \<Rightarrow> int option" where
  "CAvl_compare_entries val s node1 node2 =
     (let res = bt_comparator s (val node1) (val node2)
      in if res \<ge> -1 \<and> res \<le> 1 then Some res else None)"

definition CAvl_check_parent :: "'v bavl \<Rightarrow> addr option \<Rightarrow> addr \<Rightarrow> bool" where
  "CAvl_check_parent s p c \<longleftrightarrow>
     p = bt_parent s c \<and>
     (case p of None \<Rightarrow> True | Some q \<Rightarrow> Some c = bt_link s q False \<or> Some c = bt_link s q True)"

partial_function (option) CAvl_verify_recurser ::
    "(addr \<Rightarrow> 'v) \<Rightarrow> 'v bavl \<Rightarrow> addr \<Rightarrow> int option" where
  "CAvl_verify_recurser val s n =
     (if \<not> (bt_balance s n \<ge> -1 \<and> bt_balance s n \<le> 1) then None
      else do {
        height_left \<leftarrow>
          (case bt_link s n False of
             None \<Rightarrow> Some 0
           | Some l \<Rightarrow>
               if bt_parent s l \<noteq> Some n then None
               else if CAvl_compare_entries val s l n \<noteq> Some (-1) then None
               else CAvl_verify_recurser val s l);
        height_right \<leftarrow>
          (case bt_link s n True of
             None \<Rightarrow> Some 0
           | Some r \<Rightarrow>
               if bt_parent s r \<noteq> Some n then None
               else if CAvl_compare_entries val s r n \<noteq> Some 1 then None
               else CAvl_verify_recurser val s r);
        if bt_balance s n \<noteq> height_right - height_left then None
        else Some (CAvl_MAX height_left height_right + 1)
      })"

declare CAvl_verify_recurser.simps [code]

definition CAvl_rotate :: "'v bavl \<Rightarrow> addr \<Rightarrow> bool \<Rightarrow> addr option \<Rightarrow> 'v bavl option" where
  "CAvl_rotate s r dir r_parent =
     (if \<not> CAvl_check_parent s r_parent r then None
      else do {
        nr \<leftarrow> bt_link s r (\<not> dir);
        let s = set_link r (\<not> dir) (bt_link s nr dir) s;
        let s = set_parent_of (bt_link s r (\<not> dir)) (Some r) s;
        let s = set_link nr dir (Some r) s;
        let s = set_parent nr r_parent s;
        let s = redirect r_parent r (Some nr) s;
        Some (set_parent r (Some nr) s)
      })"

partial_function (option) CAvl_subtree_min :: "'v bavl \<Rightarrow> addr \<Rightarrow> addr option" where
  "CAvl_subtree_min s n =
     (case bt_link s n False of Some m \<Rightarrow> CAvl_subtree_min s m | None \<Rightarrow> Some n)"

declare CAvl_subtree_min.simps [code]

partial_function (option) CAvl_subtree_max :: "'v bavl \<Rightarrow> addr \<Rightarrow> addr option" where
  "CAvl_subtree_max s n =
     (case bt_link s n True of Some m \<Rightarrow> CAvl_subtree_max s m | None \<Rightarrow> Some n)"

declare CAvl_subtree_max.simps [code]

definition CAvl_replace_subtree_fix_assoc ::
    "'v bavl \<Rightarrow> addr \<Rightarrow> addr option \<Rightarrow> addr option \<Rightarrow> 'v bavl option" where
  "CAvl_replace_subtree_fix_assoc s dest n dest_parent =
     (if \<not> CAvl_check_parent s dest_parent dest then None
      else let s = redirect dest_parent dest n s
           in Some (set_parent_of n (bt_parent s dest) s))"

definition CAvl_swap_for_remove ::
    "'v bavl \<Rightarrow> addr \<Rightarrow> addr \<Rightarrow> addr option \<Rightarrow> addr option \<Rightarrow> 'v bavl option" where
  "CAvl_swap_for_remove s node enode node_parent enode_parent =
     (if \<not> (CAvl_check_parent s node_parent node \<and> CAvl_check_parent s enode_parent enode) then None
      else
        let s =
          (if enode_parent = Some node then
             let side = (Some enode = bt_link s node True);
                 c = bt_link s node (\<not> side);
                 s = take_child False s node enode;
                 s = take_child True s node enode;
                 s = set_parent enode (bt_parent s node) s;
                 s = redirect node_parent node (Some enode) s;
                 s = set_link enode side (Some node) s;
                 s = set_parent node (Some enode) s;
                 s = set_link enode (\<not> side) c s
             in set_parent_of c (Some enode) s
           else
             let temp = node_parent;
                 s = set_parent node (bt_parent s enode) s;
                 s = redirect enode_parent enode (Some node) s;
                 s = set_parent enode temp s;
                 s = redirect temp node (Some enode) s;
                 s = swap_children False s node enode
             in swap_children True s node enode);
          b = bt_balance s node;
          s = set_balance node (bt_balance s enode) s
        in Some (set_balance enode b s))"

definition CAvl_rebalance_rotate ::
    "'v bavl \<Rightarrow> addr \<Rightarrow> int \<Rightarrow> ('v bavl \<times> addr \<times> int) option" where
  "CAvl_rebalance_rotate s node delta =
     (let bside = (bt_balance s node = 2);
          bsidef = (if bside then 1 else -1)
      in do {
        child \<leftarrow> bt_link s node bside;
        if bt_balance s child * bsidef = 1 then do {
          s \<leftarrow> CAvl_rotate s node (\<not> bside) (bt_parent s node);
          let s = set_balance node 0 s;
          let s = set_balance child 0 s;
          Some (s, child, delta - 1)
        } else if bt_balance s child * bsidef = 0 then do {
          s \<leftarrow> CAvl_rotate s node (\<not> bside) (bt_parent s node);
          let s = set_balance node bsidef s;
          let s = set_balance child (- bsidef) s;
          Some (s, child, delta)
        } else if bt_balance s child * bsidef = -1 then do {
          gchild \<leftarrow> bt_link s child (\<not> bside);
          s \<leftarrow> CAvl_rotate s child bside (Some node);
          s \<leftarrow> CAvl_rotate s node (\<not> bside) (bt_parent s node);
          let s = set_balance node (- CAvl_MAX 0 (bt_balance s gchild * bsidef) * bsidef) s;
          let s = set_balance child (CAvl_MAX 0 (- bt_balance s gchild * bsidef) * bsidef) s;
          let s = set_balance gchild 0 s;
          Some (s, gchild, delta - 1)
        } else None
      })"

definition CAvl_rebalance_node ::
    "'v bavl \<Rightarrow> addr \<Rightarrow> bool \<Rightarrow> int \<Rightarrow> ('v bavl \<times> addr \<times> int) option" where
  "CAvl_rebalance_node s node side deltac =
     (let bal = CAvl_OPTNEG (bt_balance s node) side;
          delta = CAvl_MAX deltac bal - CAvl_MAX 0 bal
      in if \<not> (delta \<ge> -1 \<and> delta \<le> 1) then None
      else let s = set_balance node (bt_balance s node - CAvl_OPTNEG deltac side) s in
      if bt_balance s node = 2 \<or> bt_balance s node = -2 then CAvl_rebalance_rotate s node delta
      else Some (s, node, delta))"

partial_function (option) CAvl_rebalance ::
    "'v bavl \<Rightarrow> addr \<Rightarrow> bool \<Rightarrow> int \<Rightarrow> 'v bavl option" where
  "CAvl_rebalance s node side deltac =
     (if \<not> (deltac \<ge> -1 \<and> deltac \<le> 1 \<and> bt_balance s node \<ge> -1 \<and> bt_balance s node \<le> 1) then None
      else if deltac = 0 then Some s
      else do {
        (s, node, delta) \<leftarrow> CAvl_rebalance_node s node side deltac;
        if \<not> (delta \<ge> -1 \<and> delta \<le> 1) then None
        else case bt_parent s node of
          Some node_parent \<Rightarrow> CAvl_rebalance s node_parent (Some node = bt_link s node_parent True) delta
        | None \<Rightarrow> Some s
      })"

declare CAvl_rebalance.simps [code]

definition CAvl_Init :: "'v bavl \<Rightarrow> ('v \<Rightarrow> 'v \<Rightarrow> int) \<Rightarrow> 'v bavl" where
  "CAvl_Init s comparator = s\<lparr>bt_comparator := comparator, bt_root := None\<rparr>"

partial_function (option) CAvl_Insert_find ::
    "(addr \<Rightarrow> 'v) \<Rightarrow> 'v bavl \<Rightarrow> addr \<Rightarrow> addr \<Rightarrow> (addr + addr \<times> bool) option" where
  "CAvl_Insert_find val s node c =
     do {
       comp \<leftarrow> CAvl_compare_entries val s node c;
       if comp = 0 then Some (Inl c)
       else let side = (comp = 1) in
         case bt_link s c side of
           None \<Rightarrow> Some (Inr (c, side))
         | Some c' \<Rightarrow> CAvl_Insert_find val s node c'
     }"

declare CAvl_Insert_find.simps [code]

definition CAvl_Insert ::
    "(addr \<Rightarrow> 'v) \<Rightarrow> 'v bavl \<Rightarrow> addr \<Rightarrow> ('v bavl \<times> bool \<times> addr option) option" where
  "CAvl_Insert val s node =
     (case bt_root s of
        None \<Rightarrow>
          (let s = s\<lparr>bt_root := Some node\<rparr>;
               s = set_parent node None s;
               s = set_link node False None s;
               s = set_link node True None s;
               s = set_balance node 0 s
           in Some (s, True, None))
      | Some c \<Rightarrow> do {
          res \<leftarrow> CAvl_Insert_find val s node c;
          (case res of
             Inl c \<Rightarrow> Some (s, False, Some c)
           | Inr (c, side) \<Rightarrow>
               (let s = set_link c side (Some node) s;
                    s = set_parent node (Some c) s;
                    s = set_link node False None s;
                    s = set_link node True None s;
                    s = set_balance node 0 s
                in do {
                  s \<leftarrow> CAvl_rebalance s c side 1;
                  Some (s, True, Some c)
                }))
        })"

definition CAvl_Remove_detach :: "'v bavl \<Rightarrow> addr \<Rightarrow> 'v bavl option" where
  "CAvl_Remove_detach s node =
     (if \<not> (bt_link s node False = None \<or> bt_link s node True = None) then None
      else
        let paren = bt_parent s node;
            child = (if bt_link s node False \<noteq> None then bt_link s node False else bt_link s node True)
        in case paren of
             Some p \<Rightarrow>
               (let side = (Some node = bt_link s p True) in do {
                  s \<leftarrow> CAvl_replace_subtree_fix_assoc s node child paren;
                  CAvl_rebalance s p side (-1)
                })
           | None \<Rightarrow> CAvl_replace_subtree_fix_assoc s node child paren)"

definition CAvl_Remove :: "'v bavl \<Rightarrow> addr \<Rightarrow> 'v bavl option" where
  "CAvl_Remove s node =
     (if bt_root s = None then None
      else do {
        s \<leftarrow> (case (bt_link s node False, bt_link s node True) of
                (Some l, Some r) \<Rightarrow> do {
                  m \<leftarrow> CAvl_subtree_max s l;
                  CAvl_swap_for_remove s node m (bt_parent s node) (bt_parent s m)
                }
              | _ \<Rightarrow> Some s);
        CAvl_Remove_detach s node
      })"

definition CAvl_GetFirst :: "'v bavl \<Rightarrow> addr option option" where
  "CAvl_GetFirst s =
     (case bt_root s of None \<Rightarrow> Some None | Some n \<Rightarrow> map_option Some (CAvl_subtree_min s n))"

definition CAvl_GetLast :: "'v bavl \<Rightarrow> addr option option" where
  "CAvl_GetLast s =
     (case bt_root s of None \<Rightarrow> Some None | Some n \<Rightarrow> map_option Some (CAvl_subtree_max s n))"

definition CAvl_GetNext :: "'v bavl \<Rightarrow> addr \<Rightarrow> addr option option" where
  "CAvl_GetNext s node =
     (if bt_root s = None then None
      else case bt_link s node True of
        Some m \<Rightarrow> map_option Some (BAVL_descend s False m)
      | None \<Rightarrow> map_option (bt_parent s) (BAVL_ascend s True node))"

definition CAvl_GetPrev :: "'v bavl \<Rightarrow> addr \<Rightarrow> addr option option" where
  "CAvl_GetPrev s node =
     (if bt_root s = None then None
      else case bt_link s node False of
        Some m \<Rightarrow> map_option Some (BAVL_descend s True m)
      | None \<Rightarrow> map_option (bt_parent s) (BAVL_ascend s False node))"

definition CAvl_IsEmpty :: "'v bavl \<Rightarrow> bool" where
  "CAvl_IsEmpty s \<longleftrightarrow> bt_root s = None"

definition CAvl_Verify :: "(addr \<Rightarrow> 'v) \<Rightarrow> 'v bavl \<Rightarrow> unit option" where
  "CAvl_Verify val s =
     (case bt_root s of
        None \<Rightarrow> Some ()
      | Some r \<Rightarrow>
          if bt_parent s r \<noteq> None then None
          else map_option (\<lambda>_. ()) (CAvl_verify_recurser val s r))"

section \<open>structure/SAvl_impl.h\<close>

definition SAvl_Init :: "'v bavl \<Rightarrow> ('v \<Rightarrow> 'v \<Rightarrow> int) \<Rightarrow> 'v bavl" where
  "SAvl_Init s comparator = CAvl_Init s comparator"

definition SAvl_Insert ::
    "(addr \<Rightarrow> 'v) \<Rightarrow> 'v bavl \<Rightarrow> addr \<Rightarrow> ('v bavl \<times> bool \<times> addr option) option" where
  "SAvl_Insert val s entry = CAvl_Insert val s entry"

definition SAvl_Remove :: "'v bavl \<Rightarrow> addr \<Rightarrow> 'v bavl option" where
  "SAvl_Remove s entry = CAvl_Remove s entry"

definition SAvl_GetFirst :: "'v bavl \<Rightarrow> addr option option" where
  "SAvl_GetFirst s = CAvl_GetFirst s"

definition SAvl_GetLast :: "'v bavl \<Rightarrow> addr option option" where
  "SAvl_GetLast s = CAvl_GetLast s"

definition SAvl_GetNext :: "'v bavl \<Rightarrow> addr \<Rightarrow> addr option option" where
  "SAvl_GetNext s entry = CAvl_GetNext s entry"

definition SAvl_GetPrev :: "'v bavl \<Rightarrow> addr \<Rightarrow> addr option option" where
  "SAvl_GetPrev s entry = CAvl_GetPrev s entry"

definition SAvl_IsEmpty :: "'v bavl \<Rightarrow> bool" where
  "SAvl_IsEmpty s \<longleftrightarrow> CAvl_IsEmpty s"

definition SAvl_Verify :: "(addr \<Rightarrow> 'v) \<Rightarrow> 'v bavl \<Rightarrow> unit option" where
  "SAvl_Verify val s = CAvl_Verify val s"

section \<open>Agreement with structure/BAVL.h\<close>

lemma CAvl_MAX_BAVL [simp]: "CAvl_MAX = BAVL_MAX" "CAvl_OPTNEG = BAVL_OPTNEG"
  by (auto simp: fun_eq_iff CAvl_MAX_def BAVL_MAX_def CAvl_OPTNEG_def BAVL_OPTNEG_def)

lemma CAvl_compare_entries_BAVL:
  "total_comparator (bt_comparator s) \<Longrightarrow> CAvl_compare_entries val s a b = BAVL_compare_nodes val s a b"
  using total_comparatorD(1) [of "bt_comparator s" "val a" "val b"]
  by (auto simp: CAvl_compare_entries_def BAVL_compare_nodes_def BAVL_compare_values_def)

lemma zrep_check_parent:
  assumes "zrep s c t" "troot t = Some n"
  shows "bt_parent s n = cparent c" "CAvl_check_parent s (cparent c) n"
proof -
  show "bt_parent s n = cparent c" using assms by (cases t) (auto simp: zrep_def)
  moreover have "Some n = bt_link s q False \<or> Some n = bt_link s q True" if "cparent c = Some q" for q
  proof (cases c rule: cparent.cases)
    case (2 d a b u c')
    then have "bt_link s q d = Some n" using assms that by (simp add: zrep_def)
    then show ?thesis by (cases d) simp_all
  qed (use that in simp)
  ultimately show "CAvl_check_parent s (cparent c) n"
    by (simp add: CAvl_check_parent_def split: option.split)
qed

lemma CAvl_rotate_BAVL:
  assumes z: "zrep s c (side_node (\<not> d) (r, br) (side_node d (n, bn) B A) C)"
  shows "CAvl_rotate s r d (cparent c) = BAVL_rotate s r d"
proof -
  have L: "bt_link s r (\<not> d) = Some n" "bt_link s n d = troot B"
    using z by (auto simp: zrep_def)
  have D: "r \<noteq> n" "troot B \<noteq> Some r"
    using zrep_distinct [OF z] troot_in [of B r] by (cases d; auto simp: nodes_side_node)+
  have "CAvl_check_parent s (cparent c) r" "bt_parent s r = cparent c"
    using zrep_check_parent [OF z] by simp_all
  then show ?thesis
    using L D by (simp add: CAvl_rotate_def BAVL_rotate_def rotate_links_def Let_def bt_parent_set_parent_of)
qed

lemma CAvl_rebalance_rotate_BAVL:
  assumes z: "zrep s c (side_node e (a, if e then 2 else -2) X Y)"
  shows "CAvl_rebalance_rotate s a delta = BAVL_rebalance_rotate s a delta"
proof (cases "X = Leaf")
  case True
  then have "bt_link s a e = None" "bt_balance s a = 2 \<longleftrightarrow> e" using z by (auto simp: zrep_def)
  then show ?thesis by (simp add: CAvl_rebalance_rotate_def BAVL_rebalance_rotate_def)
next
  case False
  then obtain x bx Q P where X: "X = side_node (\<not> e) (x, bx) Q P" by (rule side_node_cases)
  have S: "bt_link s a e = Some x" "bt_balance s a = 2 \<longleftrightarrow> e" "bt_parent s a = cparent c" "bt_link s x (\<not> e) = troot Q"
    using z by (auto simp: zrep_def X)
  have r1: "CAvl_rotate s a (\<not> e) (cparent c) = BAVL_rotate s a (\<not> e)"
    using CAvl_rotate_BAVL [of s c "\<not> e" a _ x bx Q P Y] z by (simp add: X)
  show ?thesis
  proof (cases "Q = Leaf")
    case True
    then show ?thesis using S r1 by (simp add: CAvl_rebalance_rotate_def BAVL_rebalance_rotate_def Let_def)
  next
    case False
    then obtain g bg Q1 Q2 where Q: "Q = side_node e (g, bg) Q1 Q2" by (rule side_node_cases)
    have z1: "zrep s ((e, a, if e then 2 else -2, Y) # c) (side_node (\<not> e) (x, bx) (side_node e (g, bg) Q1 Q2) P)"
      using z by (simp add: zrep_frame X Q)
    have r2: "CAvl_rotate s x e (Some a) = BAVL_rotate s x e"
      using CAvl_rotate_BAVL [OF z1] by simp
    obtain s1 where s1: "BAVL_rotate s x e = Some s1"
      "zrep s1 ((e, a, if e then 2 else -2, Y) # c) (side_node e (g, bg) (side_node (\<not> e) (x, bx) Q1 P) Q2)"
      using BAVL_rotate_zrep [OF z1] by metis
    have z2: "zrep s1 c (side_node (\<not> (\<not> e)) (a, if e then 2 else -2) (side_node (\<not> e) (g, bg) Q2 (side_node (\<not> e) (x, bx) Q1 P)) Y)"
      using s1(2) by (simp add: zrep_frame side_node_flip)
    have r3: "CAvl_rotate s1 a (\<not> e) (bt_parent s1 a) = BAVL_rotate s1 a (\<not> e)"
      using CAvl_rotate_BAVL [OF z2] zrep_check_parent(1) [OF z2] by simp
    show ?thesis
      using S r1 r2 r3 s1(1) by (simp add: CAvl_rebalance_rotate_def BAVL_rebalance_rotate_def Let_def)
  qed
qed

lemma CAvl_rebalance_node_BAVL:
  assumes z: "zrep s ((d, a, b, u) # c) t"
  shows "CAvl_rebalance_node s a d deltac = BAVL_rebalance_node s a d deltac"
proof -
  define b' where "b' = bt_balance s a - BAVL_OPTNEG deltac d"
  have z1: "zrep (set_balance a b' s) c (side_node d (a, b') t u)"
    using zrep_set_balance [of s c d a b t u b'] z by (simp add: zrep_frame)
  have "CAvl_rebalance_rotate (set_balance a b' s) a delta = BAVL_rebalance_rotate (set_balance a b' s) a delta"
    if "b' = 2 \<or> b' = -2" for delta
  proof -
    define e where "e \<longleftrightarrow> b' = 2"
    have b': "b' = (if e then 2 else -2)" using that by (auto simp: e_def)
    have eq: "side_node d (a, b') t u = side_node e (a, if e then 2 else -2) (if d = e then t else u) (if d = e then u else t)"
      by (auto simp: side_node_def b')
    show ?thesis using CAvl_rebalance_rotate_BAVL [OF z1 [unfolded eq]] .
  qed
  then show ?thesis
    by (simp add: CAvl_rebalance_node_def BAVL_rebalance_node_def Let_def b'_def)
qed

lemma CAvl_rebalance_BAVL:
  assumes "zrep s ((d, a, b, u) # c) t" "avl t"
    and "ctx_avl ((d, a, b, u) # c) h" "int (height t) = h + deltac" "-1 \<le> deltac" "deltac \<le> 1"
  shows "CAvl_rebalance s a d deltac = BAVL_rebalance s a d deltac"
  using assms
proof (induction c arbitrary: s d a b u t h deltac)
  case (Nil s d a b u t h deltac)
  show ?case
  proof (cases "deltac = 0")
    case False
    then have "deltac = 1 \<or> deltac = -1" using Nil(5,6) by linarith
    then obtain s' n t' delta where "BAVL_rebalance_node s a d deltac = Some (s', n, delta)"
      "zrep s' [] t'" "troot t' = Some n"
      using rebalance_node_avl [OF Nil(1-4)] by metis
    moreover from this have "bt_parent s' n = None" using zrep_check_parent(1) by fastforce
    ultimately show ?thesis
      unfolding CAvl_rebalance.simps [of s a] BAVL_rebalance.simps [of s a] CAvl_rebalance_node_BAVL [OF Nil(1)]
      by simp
  qed (simp add: CAvl_rebalance.simps [of s a] BAVL_rebalance.simps [of s a])
next
  case (Cons fr c s d a b u t h deltac)
  obtain d1 a1 b1 u1 where fr: "fr = (d1, a1, b1, u1)" by (cases fr) auto
  show ?case
  proof (cases "deltac = 0")
    case False
    then have "deltac = 1 \<or> deltac = -1" using Cons.prems(5,6) by linarith
    then obtain s' n t' delta where *: "BAVL_rebalance_node s a d deltac = Some (s', n, delta)"
      "zrep s' ((d1, a1, b1, u1) # c) t'" "troot t' = Some n" "avl t'"
      "int (height t') = max h (int (height u)) + 1 + delta" "-1 \<le> delta" "delta \<le> 1"
      using rebalance_node_avl [OF Cons.prems(1-4)] fr by metis
    have "ctx_avl ((d1, a1, b1, u1) # c) (max h (int (height u)) + 1)"
      using Cons.prems(3) fr by simp
    from Cons.IH [OF *(2,4) this *(5-7)] show ?thesis
      unfolding CAvl_rebalance.simps [of s a] BAVL_rebalance.simps [of s a] CAvl_rebalance_node_BAVL [OF Cons.prems(1)]
      using * zrep_side [OF *(2,3)] by simp
  qed (simp add: CAvl_rebalance.simps [of s a] BAVL_rebalance.simps [of s a])
qed

lemma CAvl_Insert_find_BAVL:
  assumes "zrep s c t" "troot t = Some m" "total_comparator (bt_comparator s)"
  shows "CAvl_Insert_find val s node m = BAVL_Insert_find val s node m"
  using assms(1,2)
proof (induction t arbitrary: c m)
  case (Node l x r)
  then obtain b where x: "x = (m, b)" by (cases x) auto
  note z = zrep_Node [OF Node.prems(1) [unfolded x]]
  have eq: "(case bt_link s m d of None \<Rightarrow> Some (Inr (m, d)) | Some q \<Rightarrow> CAvl_Insert_find val s node q) =
      (case bt_link s m d of None \<Rightarrow> Some (Inr (m, d)) | Some q \<Rightarrow> BAVL_Insert_find val s node q)" for d
    using Node.IH(1) [OF z(3)] Node.IH(2) [OF z(4)] z(1,2) by (cases d) (auto split: option.split)
  show ?case
    unfolding CAvl_Insert_find.simps [of val s node m] BAVL_Insert_find.simps [of val s node m]
      CAvl_compare_entries_BAVL [OF assms(3)] Let_def eq ..
qed simp

lemma CAvl_Insert_BAVL:
  assumes rep: "index_rep val s xs" and n: "n \<notin> set xs"
  shows "CAvl_Insert val s n = BAVL_Insert val s n"
proof -
  obtain t where t: "zrep s [] t" "avl t" "nodes t = xs" and tc: "total_comparator (bt_comparator s)"
    using rep by (elim index_repE)
  show ?thesis
  proof (cases "troot t")
    case None
    then show ?thesis using t(1) by (simp add: CAvl_Insert_def BAVL_Insert_def zrep_def)
  next
    case (Some m)
    have root: "bt_root s = Some m" using t(1) Some by (simp add: zrep_def)
    have "t \<noteq> Leaf" using Some by auto
    then show ?thesis
      using tc
    proof (cases rule: find_cases [where v = "val n" and val = val])
      case (1 e)
      then show ?thesis
        using root by (simp add: CAvl_Insert_def BAVL_Insert_def CAvl_Insert_find_BAVL [OF t(1) Some tc]
            Insert_find_tree [OF t(1) Some tc])
    next
      case (2 p d b u c)
      let ?s = "set_balance n 0 (set_link n True None (set_link n False None (set_parent n (Some p) (set_link p d (Some n) s))))"
      have "nodes t = lnodes ((d, p, b, u) # c) @ rnodes ((d, p, b, u) # c)"
        using nodes_plug [of "(d, p, b, u) # c" Leaf] 2(2) by simp
      then have z: "zrep ?s ((d, p, b, u) # c) (Node Leaf (n, 0) Leaf)"
        using insert_leaf_zrep [of s d p b u c n] t(1,3) n 2(2) by (auto simp: zrep_plug)
      have "ctx_avl ((d, p, b, u) # c) 0"
        using t(2) avl_plug [of "(d, p, b, u) # c" Leaf] 2(2) by simp
      then have "CAvl_rebalance ?s p d 1 = BAVL_rebalance ?s p d 1"
        using CAvl_rebalance_BAVL [OF z, of 0 1] by simp
      then show ?thesis
        using root 2(1) by (simp add: CAvl_Insert_def BAVL_Insert_def CAvl_Insert_find_BAVL [OF t(1) Some tc]
            Insert_find_tree [OF t(1) Some tc] Let_def)
    qed
  qed
qed

lemma CAvl_subtree_max_BAVL:
  "zrep s c t \<Longrightarrow> troot t = Some m \<Longrightarrow> CAvl_subtree_max s m = BAVL_subtree_max s m"
proof (induction t arbitrary: c m)
  case (Node l x r)
  then obtain b where x: "x = (m, b)" by (cases x) auto
  note z = zrep_Node [OF Node.prems(1) [unfolded x]]
  show ?case
    using Node.IH(2) [OF z(4)] z(2)
    by (subst CAvl_subtree_max.simps, subst BAVL_subtree_max.simps) (auto split: option.split)
qed simp

lemma CAvl_Remove_detach_BAVL:
  assumes z: "zrep s c (Node l (n, b) r)" and avl: "avl (plug c (Node l (n, b) r))" and one: "l = Leaf \<or> r = Leaf"
  shows "CAvl_Remove_detach s n = BAVL_Remove_detach s n"
proof -
  define ch where "ch = (if l \<noteq> Leaf then l else r)"
  have ch: "(ch = l \<and> r = Leaf) \<or> (ch = r \<and> l = Leaf)" using one by (auto simp: ch_def)
  have L: "bt_link s n False = troot l" "bt_link s n True = troot r" using z by (auto simp: zrep_def)
  note cp = zrep_check_parent [OF z, of n, simplified]
  have child: "(if troot l \<noteq> None then troot l else troot r) = troot ch"
    "(troot l = None \<or> troot r = None)" using one by (auto simp: ch_def)
  have rs: "CAvl_replace_subtree_fix_assoc s n (troot ch) (cparent c) = Some (BAVL_replace_subtree s n (troot ch))"
    using cp by (simp add: CAvl_replace_subtree_fix_assoc_def BAVL_replace_subtree_def)
  have z': "zrep (BAVL_replace_subtree s n (troot ch)) c ch" by (rule replace_subtree_zrep [OF z ch])
  have A: "ctx_avl c (int (height (Node l (n, b) r)))" "avl (Node l (n, b) r)"
    using avl avl_plug by blast+
  then have "avl ch" and h: "int (height ch) = int (height (Node l (n, b) r)) + (-1)" using ch by auto
  show ?thesis
  proof (cases c rule: cparent.cases)
    case 1
    then show ?thesis
      using rs cp(1) child unfolding CAvl_Remove_detach_def BAVL_Remove_detach_def Let_def L by simp
  next
    case (2 d p b' u c')
    have side: "(Some n = bt_link s p True) = d"
      using zrep_side(2) [of s d p b' u c' "Node l (n, b) r" n] z 2 by simp
    have "CAvl_rebalance (BAVL_replace_subtree s n (troot ch)) p d (-1) = BAVL_rebalance (BAVL_replace_subtree s n (troot ch)) p d (-1)"
      using CAvl_rebalance_BAVL [OF z' [unfolded 2] \<open>avl ch\<close> A(1) [unfolded 2] h] by simp
    then show ?thesis
      using rs cp(1) child side 2 unfolding CAvl_Remove_detach_def BAVL_Remove_detach_def Let_def L by auto
  qed
qed

lemma CAvl_swap_BAVL:
  assumes z: "zrep s c (Node l (n, b) r)" and l: "l = plug ic (Node ll (m, mb) Leaf)" "rnodes ic = []"
  shows "CAvl_swap_for_remove s n m (bt_parent s n) (bt_parent s m) = Some (BAVL_swap_nodes s n m)"
proof -
  let ?c = "ic @ (False, n, b, r) # c"
  have zm: "zrep s ?c (Node ll (m, mb) Leaf)"
    using z by (simp add: zrep_plug l plug_append side_node_def)
  note cn = zrep_check_parent [OF z, of n, simplified] and cm = zrep_check_parent [OF zm, of m, simplified]
  have "m \<noteq> n" "cparent c \<noteq> Some m"
    using zrep_distinct [OF zm] cparent_in [of c m] by (auto simp: lnodes_append rnodes_append)
  moreover have "bt_link s m d \<noteq> Some n" for d
    using zrep_local(4) [OF zm, of d n] cn(1) \<open>cparent c \<noteq> Some m\<close> by auto
  then have "bt_parent (take_child True (take_child False s n m) n m) n = bt_parent s n"
    using \<open>m \<noteq> n\<close> by (simp add: take_child_fields)
  ultimately show ?thesis
    using cn cm by (simp add: CAvl_swap_for_remove_def BAVL_swap_nodes_def swap_adjacent_def swap_parents_def Let_def)
qed

lemma CAvl_Remove_BAVL:
  assumes rep: "index_rep val s xs" and n: "n \<in> set xs"
  shows "CAvl_Remove s n = BAVL_Remove s n"
proof -
  obtain t where t: "zrep s [] t" "avl t" "nodes t = xs" using rep by (elim index_repE)
  obtain c l b r where c: "t = plug c (Node l (n, b) r)" "zrep s c (Node l (n, b) r)"
    using zrep_at [of s t n] t(1,3) n by (metis brep_zrep)
  have "bt_root s \<noteq> None" using t n by (cases t) (auto simp: zrep_def)
  have L: "bt_link s n False = troot l" "bt_link s n True = troot r"
    using c(2) by (auto simp: zrep_def)
  show ?thesis
  proof (cases "l = Leaf \<or> r = Leaf")
    case True
    then show ?thesis
      using CAvl_Remove_detach_BAVL [OF c(2) _ True] t(2) c(1) \<open>bt_root s \<noteq> None\<close>
      by (auto simp: CAvl_Remove_def BAVL_Remove_def L split: option.splits)
  next
    case False
    then obtain x y where xy: "troot l = Some x" "troot r = Some y" by (cases l; cases r) auto
    have zl: "zrep s ((False, n, b, r) # c) l" using c(2) by (simp add: zrep_frame side_node_def)
    then obtain m ic ll mb where m: "BAVL_subtree_max s x = Some m" "l = plug ic (Node ll (m, mb) Leaf)" "rnodes ic = []"
      using subtree_max_spec xy(1) by blast
    note rs = remove_swap [OF c(2) m(2,3)]
    have "avl (plug (ic @ (False, m, b, r) # c) (Node ll (n, mb) Leaf))"
      unfolding rs(3) using t(2) c(1) by simp
    then show ?thesis
      using CAvl_Remove_detach_BAVL [OF rs(1)] CAvl_swap_BAVL [OF c(2) m(2,3)] \<open>bt_root s \<noteq> None\<close>
      by (auto simp: CAvl_Remove_def BAVL_Remove_def L xy m(1) CAvl_subtree_max_BAVL [OF zl xy(1)])
  qed
qed

lemma CAvl_GetFirst_BAVL: "index_rep val s xs \<Longrightarrow> CAvl_GetFirst s = BAVL_GetFirst s"
proof (erule index_rep_root)
  fix t m assume t: "zrep s [] t" "troot t = Some m" "bt_root s = Some m"
  have "CAvl_subtree_min s m = BAVL_descend s False m" if "zrep s c t" "troot t = Some m" for c m t
    using that
  proof (induction t arbitrary: c m)
    case (Node l x r)
    then obtain b where x: "x = (m, b)" by (cases x) auto
    note z = zrep_Node [OF Node.prems(1) [unfolded x]]
    show ?case
      using Node.IH(1) [OF z(3)] z(1)
      by (subst CAvl_subtree_min.simps, subst BAVL_descend.simps) (auto split: option.split)
  qed simp
  then show ?thesis using t by (simp add: CAvl_GetFirst_def BAVL_GetFirst_def)
qed (simp add: CAvl_GetFirst_def BAVL_GetFirst_def)

lemma CAvl_GetNext_BAVL: "index_rep val s xs \<Longrightarrow> xs \<noteq> [] \<Longrightarrow> CAvl_GetNext s n = BAVL_GetNext s n"
  by (erule index_rep_root) (auto simp: CAvl_GetNext_def BAVL_GetNext_def)

lemma CAvl_GetPrev_BAVL: "index_rep val s xs \<Longrightarrow> xs \<noteq> [] \<Longrightarrow> CAvl_GetPrev s n = BAVL_GetPrev s n"
  by (erule index_rep_root) (auto simp: CAvl_GetPrev_def BAVL_GetPrev_def)

lemma CAvl_verify_recurser_BAVL:
  assumes "zrep s c t" "troot t = Some m" "total_comparator (bt_comparator s)"
  shows "CAvl_verify_recurser val s m = BAVL_assert_recurser val s m"
  using assms(1,2)
proof (induction t arbitrary: c m)
  case (Node l x r)
  then obtain b where x: "x = (m, b)" by (cases x) auto
  note z = zrep_Node [OF Node.prems(1) [unfolded x]]
  have l: "(case bt_link s m False of None \<Rightarrow> Some 0 | Some l \<Rightarrow>
       if bt_parent s l \<noteq> Some m then None else if BAVL_compare_nodes val s l m \<noteq> Some (-1) then None
       else CAvl_verify_recurser val s l) =
     (case bt_link s m False of None \<Rightarrow> Some 0 | Some l \<Rightarrow>
       if bt_parent s l \<noteq> Some m then None else if BAVL_compare_nodes val s l m \<noteq> Some (-1) then None
       else BAVL_assert_recurser val s l)"
    using Node.IH(1) [OF z(3)] z(1) by (auto split: option.split)
  have r: "(case bt_link s m True of None \<Rightarrow> Some 0 | Some r \<Rightarrow>
       if bt_parent s r \<noteq> Some m then None else if BAVL_compare_nodes val s r m \<noteq> Some 1 then None
       else CAvl_verify_recurser val s r) =
     (case bt_link s m True of None \<Rightarrow> Some 0 | Some r \<Rightarrow>
       if bt_parent s r \<noteq> Some m then None else if BAVL_compare_nodes val s r m \<noteq> Some 1 then None
       else BAVL_assert_recurser val s r)"
    using Node.IH(2) [OF z(4)] z(2) by (auto split: option.split)
  show ?case
    unfolding CAvl_verify_recurser.simps [of val s m] BAVL_assert_recurser.simps [of val s m]
      CAvl_compare_entries_BAVL [OF assms(3)] CAvl_MAX_BAVL l r ..
qed simp

lemma CAvl_Verify_BAVL:
  assumes "index_rep val s xs"
  shows "CAvl_Verify val s = BAVL_Verify val s"
proof -
  obtain t where t: "zrep s [] t" "total_comparator (bt_comparator s)" using assms by (elim index_repE)
  show ?thesis
    using CAvl_verify_recurser_BAVL [OF t(1) _ t(2)] t(1)
    by (cases "troot t") (auto simp: CAvl_Verify_def BAVL_Verify_def zrep_def)
qed

lemmas SAvl_defs = SAvl_Insert_def SAvl_Remove_def SAvl_GetFirst_def SAvl_GetNext_def

section \<open>SAvl is a sorted tree\<close>

interpretation savl: sorted_tree val "\<lambda>x y. B_COMPARE (k x) (k y)"
  "\<lambda>s xs. bt_comparator s = (\<lambda>x y. B_COMPARE (k x) (k y)) \<and> index_rep val s xs"
  "SAvl_Insert val" SAvl_Remove SAvl_GetFirst SAvl_GetNext
  for val :: "addr \<Rightarrow> 'v" and k :: "'v \<Rightarrow> 'k::linorder"
proof (unfold_locales, goal_cases)
  case 1
  show ?case by (rule total_comparator_B_COMPARE)
next
  case (2 s xs)
  then show ?case by (auto simp: index_rep_def)
next
  case (3 s xs n)
  then show ?case using bavl.ins_law [of s k val xs n] CAvl_Insert_BAVL [of val s xs n] by (simp add: SAvl_Insert_def)
next
  case (4 s xs n)
  then show ?case using bavl.rem_law [of s k val xs n] CAvl_Remove_BAVL [of val s xs n] by (simp add: SAvl_Remove_def)
next
  case (5 s xs)
  then show ?case using bavl.fst_law [of s k val xs] CAvl_GetFirst_BAVL [of val s xs] by (simp add: SAvl_GetFirst_def)
next
  case (6 s ls n rs)
  then show ?case
    using bavl.nxt_law [of s k val ls n rs] CAvl_GetNext_BAVL [of val s "ls @ n # rs" n] by (simp add: SAvl_GetNext_def)
qed

lemma SAvl_IsEmpty_index: "index_rep val s xs \<Longrightarrow> SAvl_IsEmpty s \<longleftrightarrow> xs = []"
  using BAVL_IsEmpty_index by (fastforce simp: SAvl_IsEmpty_def CAvl_IsEmpty_def BAVL_IsEmpty_def)

lemma SAvl_Init_index:
  "index_rep val (SAvl_Init s (\<lambda>x y. B_COMPARE (k x) (k y))) []"
  "bt_comparator (SAvl_Init s c) = c"
proof -
  have "brep (SAvl_Init s (\<lambda>x y. B_COMPARE (k x) (k y))) Leaf"
    by (simp add: brep_def SAvl_Init_def CAvl_Init_def)
  then show "index_rep val (SAvl_Init s (\<lambda>x y. B_COMPARE (k x) (k y))) []"
    by (auto simp: index_rep_def sorted_nodes_def total_comparator_B_COMPARE SAvl_Init_def CAvl_Init_def
        intro!: exI [of _ Leaf])
  show "bt_comparator (SAvl_Init s c) = c" by (simp add: SAvl_Init_def CAvl_Init_def)
qed



end
