(* ===== verification/Fair_Queue.thy ===== *)
theory Fair_Queue
  imports CAvl Packet_Pass_Interface Sizes "HOL-Library.Product_Lexorder"
begin

text \<open>
  flow/PacketPassFairQueue.c: several flows share one PacketPassInterface, and the queued packet
  whose flow has used the least time (bytes and a weight per packet) goes first.

  The state holds the fields of the queue, and the fields of all flows as functions of their
  addresses.  The queue of packets is the SAvl tree of CAvl.thy, whose nodes are the flows, and the list
  of flows is the LinkedList1 of Linked_Lists.thy.  The schedule job is the flag whether it is set.  A
  function returns None where an ASSERT fails, and otherwise the new state with the calls it makes to the
  output, to the inputs of flows and to busy handlers.

  \<open>fq_step\<close> closes the queue with its neighbours.  The lemmas show that no assertion fails,
  that the output never gets a second packet before it is done with the first, that the packets of a
  flow leave in their order, that a queued packet is always on its way, that the overflow of the 64 bit
  times is handled exactly, and how fair the queue is.
\<close>

section \<open>The queue\<close>

abbreviation FAIRQUEUE_MAX_TIME :: u64 where
  "FAIRQUEUE_MAX_TIME \<equiv> - 1"

record fair_queue =
  fq_output_mtu :: int
  fq_use_cancel :: bool
  fq_packet_weight :: int
  fq_sending_flow :: "addr option"
  fq_sending_len :: int
  fq_previous_flow :: "addr option"
  fq_queued_tree :: "(u64 \<times> addr) bavl"
  fq_flows_list :: linked_list1
  fq_freeing :: bool
  fq_schedule_job :: bool
  ff_time :: "addr \<Rightarrow> u64"
  ff_is_queued :: "addr \<Rightarrow> bool"
  ff_data :: "addr \<Rightarrow> bytes"
  ff_handler_busy :: "addr \<Rightarrow> addr option"

datatype fq_call =
    FQ_Output_Send bytes
  | FQ_Output_RequestCancel
  | FQ_Input_Init addr int
  | FQ_Input_Free addr
  | FQ_Input_Done addr
  | FQ_Busy addr

definition ASSERT :: "bool \<Rightarrow> unit option" where
  "ASSERT b = (if b then Some () else None)"

definition compare_flows :: "u64 \<times> addr \<Rightarrow> u64 \<times> addr \<Rightarrow> int" where
  "compare_flows f1 f2 =
     (let cmp = B_COMPARE (fst f1) (fst f2)
      in if cmp \<noteq> 0 then cmp else B_COMPARE (snd f1) (snd f2))"

text \<open>What the comparator reads of a flow: its time and its address.\<close>

definition flow_val :: "fair_queue \<Rightarrow> addr \<Rightarrow> u64 \<times> addr" where
  "flow_val m f = (ff_time m f, f)"

definition get_current_time :: "fair_queue \<Rightarrow> u64 option" where
  "get_current_time m =
     (case fq_sending_flow m of
        Some f \<Rightarrow> Some (ff_time m f)
      | None \<Rightarrow> do {
          first_flow \<leftarrow> SAvl_GetFirst (fq_queued_tree m);
          have_time \<leftarrow>
            (case first_flow of
               Some f \<Rightarrow> do { ASSERT (ff_is_queued m f); Some (Some (ff_time m f)) }
             | None \<Rightarrow> Some None);
          let have_time =
            (case fq_previous_flow m of
               Some p \<Rightarrow>
                 (case have_time of
                    Some time \<Rightarrow> (if ff_time m p < time then Some (ff_time m p) else Some time)
                  | None \<Rightarrow> Some (ff_time m p))
             | None \<Rightarrow> have_time);
          Some (case have_time of Some time \<Rightarrow> time | None \<Rightarrow> 0)
        })"

text \<open>The loop of \<open>increment_sent_flow\<close> over the list of flows.\<close>

partial_function (option) subtract_loop ::
    "addr \<Rightarrow> u64 \<Rightarrow> addr option \<Rightarrow> fair_queue \<Rightarrow> fair_queue option" where
  "subtract_loop flow subtract list_node m =
     (case list_node of
        None \<Rightarrow> Some m
      | Some someflow \<Rightarrow>
          if subtract > ff_time m someflow \<and> someflow \<noteq> flow then
            if ff_is_queued m someflow then None
            else subtract_loop flow subtract (LinkedList1Node_Next (fq_flows_list m) someflow)
                   (m\<lparr>ff_time := (ff_time m)(someflow := 0)\<rparr>)
          else subtract_loop flow subtract (LinkedList1Node_Next (fq_flows_list m) someflow)
                 (m\<lparr>ff_time := (ff_time m)(someflow := ff_time m someflow - subtract)\<rparr>))"

declare subtract_loop.simps [code]

definition increment_sent_flow :: "fair_queue \<Rightarrow> addr \<Rightarrow> u64 \<Rightarrow> fair_queue option" where
  "increment_sent_flow m flow amount =
     do {
       ASSERT (amount \<le> FAIRQUEUE_MAX_TIME);
       ASSERT (\<not> ff_is_queued m flow);
       ASSERT (fq_sending_flow m = None);
       m \<leftarrow> (if amount > FAIRQUEUE_MAX_TIME - ff_time m flow then do {
               first_flow \<leftarrow> SAvl_GetFirst (fq_queued_tree m);
               subtract \<leftarrow>
                 (case first_flow of
                    None \<Rightarrow> Some (ff_time m flow)
                  | Some f \<Rightarrow> do { ASSERT (ff_is_queued m f); Some (ff_time m f) });
               subtract_loop flow subtract (LinkedList1_GetFirst (fq_flows_list m)) m
             } else Some m);
       Some (m\<lparr>ff_time := (ff_time m)(flow := ff_time m flow + amount)\<rparr>)
     }"

definition schedule :: "fair_queue \<Rightarrow> (fair_queue \<times> fq_call list) option" where
  "schedule m =
     do {
       ASSERT (fq_sending_flow m = None);
       ASSERT (fq_previous_flow m = None);
       ASSERT (\<not> fq_freeing m);
       ASSERT (\<not> SAvl_IsEmpty (fq_queued_tree m));
       first_flow \<leftarrow> SAvl_GetFirst (fq_queued_tree m);
       qflow \<leftarrow> first_flow;
       ASSERT (ff_is_queued m qflow);
       t \<leftarrow> SAvl_Remove (fq_queued_tree m) qflow;
       let m = m\<lparr>fq_queued_tree := t\<rparr>;
       let m = m\<lparr>ff_is_queued := (ff_is_queued m)(qflow := False)\<rparr>;
       let m = m\<lparr>fq_sending_flow := Some qflow\<rparr>;
       let m = m\<lparr>fq_sending_len := int (length (ff_data m qflow))\<rparr>;
       Some (m, [FQ_Output_Send (ff_data m qflow)])
     }"

definition schedule_job_handler :: "fair_queue \<Rightarrow> (fair_queue \<times> fq_call list) option" where
  "schedule_job_handler m =
     do {
       ASSERT (fq_sending_flow m = None);
       ASSERT (\<not> fq_freeing m);
       let m = m\<lparr>fq_previous_flow := None\<rparr>;
       if \<not> SAvl_IsEmpty (fq_queued_tree m) then schedule m else Some (m, [])
     }"

definition input_handler_send :: "fair_queue \<Rightarrow> addr \<Rightarrow> bytes \<Rightarrow> (fair_queue \<times> fq_call list) option" where
  "input_handler_send m flow data =
     do {
       ASSERT (Some flow \<noteq> fq_sending_flow m);
       ASSERT (\<not> ff_is_queued m flow);
       ASSERT (\<not> fq_freeing m);
       m \<leftarrow> (if Some flow = fq_previous_flow m then Some (m\<lparr>fq_previous_flow := None\<rparr>)
             else do {
               time \<leftarrow> get_current_time m;
               Some (m\<lparr>ff_time := (ff_time m)(flow := max (ff_time m flow) time)\<rparr>)
             });
       let m = m\<lparr>ff_data := (ff_data m)(flow := data)\<rparr>;
       (t, res, _) \<leftarrow> SAvl_Insert (flow_val m) (fq_queued_tree m) flow;
       ASSERT res;
       let m = m\<lparr>fq_queued_tree := t\<rparr>;
       let m = m\<lparr>ff_is_queued := (ff_is_queued m)(flow := True)\<rparr>;
       if fq_sending_flow m = None \<and> \<not> fq_schedule_job m then schedule m else Some (m, [])
     }"

definition output_handler_done :: "fair_queue \<Rightarrow> (fair_queue \<times> fq_call list) option" where
  "output_handler_done m =
     do {
       flow \<leftarrow> fq_sending_flow m;
       ASSERT (fq_previous_flow m = None);
       ASSERT (\<not> fq_schedule_job m);
       ASSERT (\<not> fq_freeing m);
       ASSERT (\<not> ff_is_queued m flow);
       let m = m\<lparr>fq_sending_flow := None\<rparr>;
       let m = m\<lparr>fq_previous_flow := Some flow\<rparr>;
       m \<leftarrow> increment_sent_flow m flow (word_of_int (fq_packet_weight m) + word_of_int (fq_sending_len m));
       let m = m\<lparr>fq_schedule_job := True\<rparr>;
       (case ff_handler_busy m flow of
          Some user \<Rightarrow>
            Some (m\<lparr>ff_handler_busy := (ff_handler_busy m)(flow := None)\<rparr>, [FQ_Input_Done flow, FQ_Busy user])
        | None \<Rightarrow> Some (m, [FQ_Input_Done flow]))
     }"

text \<open>The result is None for a failed assertion, \<open>Some None\<close> for the return value 0.\<close>

definition PacketPassFairQueue_Init ::
    "fair_queue \<Rightarrow> packet_pass_interface \<Rightarrow> bool \<Rightarrow> int \<Rightarrow> (fair_queue \<times> packet_pass_interface) option option" where
  "PacketPassFairQueue_Init m output use_cancel packet_weight =
     do {
       ASSERT (packet_weight > 0);
       ASSERT (\<not> use_cancel \<or> PacketPassInterface_HasCancel output);
       let mtu = PacketPassInterface_GetMTU output;
       if \<not> ((word_of_int mtu :: u64) \<le> FAIRQUEUE_MAX_TIME \<and>
             word_of_int packet_weight \<le> FAIRQUEUE_MAX_TIME - word_of_int mtu) then Some None
       else do {
         output \<leftarrow> PacketPassInterface_Sender_Init output;
         let m = m\<lparr>fq_output_mtu := mtu, fq_use_cancel := use_cancel, fq_packet_weight := packet_weight\<rparr>;
         let m = m\<lparr>fq_sending_flow := None, fq_previous_flow := None\<rparr>;
         let m = m\<lparr>fq_queued_tree := SAvl_Init (fq_queued_tree m) compare_flows\<rparr>;
         let m = m\<lparr>fq_flows_list := LinkedList1_Init (fq_flows_list m)\<rparr>;
         let m = m\<lparr>fq_freeing := False, fq_schedule_job := False\<rparr>;
         Some (Some (m, output))
       }
     }"

definition PacketPassFairQueue_Free :: "fair_queue \<Rightarrow> fair_queue option" where
  "PacketPassFairQueue_Free m =
     do {
       ASSERT (LinkedList1_IsEmpty (fq_flows_list m));
       ASSERT (SAvl_IsEmpty (fq_queued_tree m));
       ASSERT (fq_previous_flow m = None);
       ASSERT (fq_sending_flow m = None);
       Some (m\<lparr>fq_schedule_job := False\<rparr>)
     }"

definition PacketPassFairQueue_PrepareFree :: "fair_queue \<Rightarrow> fair_queue" where
  "PacketPassFairQueue_PrepareFree m = m\<lparr>fq_freeing := True\<rparr>"

definition PacketPassFairQueue_GetMTU :: "fair_queue \<Rightarrow> int" where
  "PacketPassFairQueue_GetMTU m = fq_output_mtu m"

definition PacketPassFairQueueFlow_Init :: "fair_queue \<Rightarrow> addr \<Rightarrow> (fair_queue \<times> fq_call list) option" where
  "PacketPassFairQueueFlow_Init m flow =
     do {
       ASSERT (\<not> fq_freeing m);
       let m = m\<lparr>ff_handler_busy := (ff_handler_busy m)(flow := None)\<rparr>;
       let m = m\<lparr>ff_time := (ff_time m)(flow := 0)\<rparr>;
       let m = m\<lparr>fq_flows_list := LinkedList1_Append (fq_flows_list m) flow\<rparr>;
       let m = m\<lparr>ff_is_queued := (ff_is_queued m)(flow := False)\<rparr>;
       Some (m, [FQ_Input_Init flow (fq_output_mtu m)])
     }"

definition PacketPassFairQueueFlow_Free :: "fair_queue \<Rightarrow> addr \<Rightarrow> (fair_queue \<times> fq_call list) option" where
  "PacketPassFairQueueFlow_Free m flow =
     do {
       ASSERT (fq_freeing m \<or> Some flow \<noteq> fq_sending_flow m);
       let m = (if Some flow = fq_sending_flow m then m\<lparr>fq_sending_flow := None\<rparr> else m);
       let m = (if Some flow = fq_previous_flow m then m\<lparr>fq_previous_flow := None\<rparr> else m);
       m \<leftarrow> (if ff_is_queued m flow then do {
               t \<leftarrow> SAvl_Remove (fq_queued_tree m) flow;
               Some (m\<lparr>fq_queued_tree := t\<rparr>)
             } else Some m);
       let m = m\<lparr>fq_flows_list := LinkedList1_Remove (fq_flows_list m) flow\<rparr>;
       Some (m, [FQ_Input_Free flow])
     }"

definition PacketPassFairQueueFlow_AssertFree :: "fair_queue \<Rightarrow> addr \<Rightarrow> unit option" where
  "PacketPassFairQueueFlow_AssertFree m flow = ASSERT (fq_freeing m \<or> Some flow \<noteq> fq_sending_flow m)"

definition PacketPassFairQueueFlow_IsBusy :: "fair_queue \<Rightarrow> addr \<Rightarrow> bool option" where
  "PacketPassFairQueueFlow_IsBusy m flow =
     do { ASSERT (\<not> fq_freeing m); Some (Some flow = fq_sending_flow m) }"

definition PacketPassFairQueueFlow_RequestCancel :: "fair_queue \<Rightarrow> addr \<Rightarrow> fq_call list option" where
  "PacketPassFairQueueFlow_RequestCancel m flow =
     do {
       ASSERT (Some flow = fq_sending_flow m);
       ASSERT (fq_use_cancel m);
       ASSERT (\<not> fq_freeing m);
       ASSERT (\<not> fq_schedule_job m);
       Some [FQ_Output_RequestCancel]
     }"

definition PacketPassFairQueueFlow_SetBusyHandler :: "fair_queue \<Rightarrow> addr \<Rightarrow> addr option \<Rightarrow> fair_queue option" where
  "PacketPassFairQueueFlow_SetBusyHandler m flow handler =
     do {
       ASSERT (Some flow = fq_sending_flow m);
       ASSERT (\<not> fq_freeing m);
       Some (m\<lparr>ff_handler_busy := (ff_handler_busy m)(flow := handler)\<rparr>)
     }"

section \<open>The queue between its neighbours\<close>

text \<open>
  A flow may send when its previous packet is done, the output may be done when it was given a packet,
  the schedule job may run when it is set (executing a job unsets it), and flows may come and go.
\<close>

datatype fq_event =
    FQ_Send addr bytes
  | FQ_Done
  | FQ_Job
  | FQ_New addr
  | FQ_Free addr

fun fq_step :: "fair_queue \<Rightarrow> fq_event \<Rightarrow> (fair_queue \<times> fq_call list) option" where
  "fq_step m (FQ_Send f data) = input_handler_send m f data"
| "fq_step m FQ_Done = output_handler_done m"
| "fq_step m FQ_Job = schedule_job_handler (m\<lparr>fq_schedule_job := False\<rparr>)"
| "fq_step m (FQ_New f) = PacketPassFairQueueFlow_Init m f"
| "fq_step m (FQ_Free f) = PacketPassFairQueueFlow_Free m f"

fun fq_event_ok :: "fair_queue \<Rightarrow> addr list \<Rightarrow> fq_event \<Rightarrow> bool" where
  "fq_event_ok m fs (FQ_Send f data) \<longleftrightarrow>
     f \<in> set fs \<and> \<not> ff_is_queued m f \<and> fq_sending_flow m \<noteq> Some f \<and> int (length data) \<le> fq_output_mtu m"
| "fq_event_ok m fs FQ_Done \<longleftrightarrow> fq_sending_flow m \<noteq> None"
| "fq_event_ok m fs FQ_Job \<longleftrightarrow> fq_schedule_job m"
| "fq_event_ok m fs (FQ_New f) \<longleftrightarrow> f \<notin> set fs"
| "fq_event_ok m fs (FQ_Free f) \<longleftrightarrow> f \<in> set fs \<and> fq_sending_flow m \<noteq> Some f"

fun fq_flows_after :: "addr list \<Rightarrow> fq_event \<Rightarrow> addr list" where
  "fq_flows_after fs (FQ_New f) = fs @ [f]"
| "fq_flows_after fs (FQ_Free f) = remove1 f fs"
| "fq_flows_after fs _ = fs"

definition fq_tree_rep :: "fair_queue \<Rightarrow> addr list \<Rightarrow> bool" where
  "fq_tree_rep m qs \<longleftrightarrow> bt_comparator (fq_queued_tree m) = (\<lambda>x y. B_COMPARE x y) \<and>
     index_rep (flow_val m) (fq_queued_tree m) qs"

text \<open>
  \<open>fq_core\<close> is the part of the invariant that holds at every moment, for the flows \<open>fs\<close> and the
  queued flows \<open>qs\<close>; between calls, a queued packet also has a sender before it or the schedule job
  to take care of it.
\<close>

definition fq_core :: "fair_queue \<Rightarrow> addr list \<Rightarrow> addr list \<Rightarrow> bool" where
  "fq_core m fs qs \<longleftrightarrow>
     l1_rep (fq_flows_list m) fs \<and> fq_tree_rep m qs \<and>
     set qs = {f \<in> set fs. ff_is_queued m f} \<and> \<not> fq_freeing m \<and>
     0 < fq_packet_weight m \<and> 0 \<le> fq_output_mtu m \<and> fq_packet_weight m + fq_output_mtu m < 2 ^ 64 \<and>
     (\<forall>q\<in>set qs. int (length (ff_data m q)) \<le> fq_output_mtu m)"

definition fq_sending_ok :: "fair_queue \<Rightarrow> addr list \<Rightarrow> addr list \<Rightarrow> bool" where
  "fq_sending_ok m fs qs \<longleftrightarrow> (\<forall>f. fq_sending_flow m = Some f \<longrightarrow>
     f \<in> set fs \<and> \<not> ff_is_queued m f \<and> fq_previous_flow m = None \<and> \<not> fq_schedule_job m \<and>
     0 \<le> fq_sending_len m \<and> fq_sending_len m \<le> fq_output_mtu m \<and>
     (\<forall>q\<in>set qs. ff_time m f \<le> ff_time m q))"

definition fq_previous_ok :: "fair_queue \<Rightarrow> addr list \<Rightarrow> bool" where
  "fq_previous_ok m fs \<longleftrightarrow>
     (\<forall>f. fq_previous_flow m = Some f \<longrightarrow> f \<in> set fs \<and> \<not> ff_is_queued m f \<and> fq_schedule_job m)"

definition fq_inv :: "fair_queue \<Rightarrow> addr list \<Rightarrow> addr list \<Rightarrow> bool" where
  "fq_inv m fs qs \<longleftrightarrow> fq_core m fs qs \<and> fq_sending_ok m fs qs \<and> fq_previous_ok m fs \<and>
     (qs \<noteq> [] \<longrightarrow> fq_sending_flow m \<noteq> None \<or> fq_schedule_job m)"

section \<open>The tree of queued flows\<close>

lemma ASSERT_simps [simp]: "ASSERT True = Some ()" "ASSERT False = None"
  by (simp_all add: ASSERT_def)

lemma compare_flows_lex: "compare_flows = (\<lambda>x y. B_COMPARE x y)"
  by (auto simp: fun_eq_iff compare_flows_def B_COMPARE_def Let_def less_prod_def)

lemma B_COMPARE_iff [simp]:
  "B_COMPARE a b = -1 \<longleftrightarrow> a < b" "B_COMPARE a b = 0 \<longleftrightarrow> a = b" "B_COMPARE a b = 1 \<longleftrightarrow> b < a"
  by (auto simp: B_COMPARE_def)

lemma flow_val_update [simp]: "flow_val (m\<lparr>fq_queued_tree := t\<rparr>) = flow_val m"
  by (simp add: flow_val_def fun_eq_iff)

lemma index_rep_cong:
  assumes "\<And>a. a \<in> set xs \<Longrightarrow> val a = val' a"
  shows "index_rep val s xs \<longleftrightarrow> index_rep val' s xs"
proof -
  have "sorted_nodes val cmp xs \<longleftrightarrow> sorted_nodes val' cmp xs" for cmp
    using assms unfolding sorted_nodes_def by (induction xs) auto
  then show ?thesis by (simp add: index_rep_def)
qed

lemma index_rep_distinct: "index_rep val s xs \<Longrightarrow> distinct xs"
  by (elim index_repE)

lemma fq_tree_first:
  assumes "fq_tree_rep m qs"
  shows "SAvl_GetFirst (fq_queued_tree m) = Some (if qs = [] then None else Some (hd qs))"
    and "SAvl_IsEmpty (fq_queued_tree m) \<longleftrightarrow> qs = []"
    and "q \<in> set qs \<Longrightarrow> ff_time m (hd qs) \<le> ff_time m q"
    and "distinct qs"
proof -
  have rep: "bt_comparator (fq_queued_tree m) = (\<lambda>x y. B_COMPARE x y) \<and> index_rep (flow_val m) (fq_queued_tree m) qs"
    using assms by (simp add: fq_tree_rep_def)
  show first: "SAvl_GetFirst (fq_queued_tree m) = Some (if qs = [] then None else Some (hd qs))"
    using savl.fst_law [of "fq_queued_tree m" "\<lambda>x. x"] rep by blast
  show "SAvl_IsEmpty (fq_queued_tree m) \<longleftrightarrow> qs = []"
    using SAvl_IsEmpty_index rep by blast
  show "distinct qs" using rep index_rep_distinct by blast
  show "ff_time m (hd qs) \<le> ff_time m q" if "q \<in> set qs"
  proof (cases "q = hd qs")
    case False
    have "SAvl_GetFirst (fq_queued_tree m) = Some (Some (hd qs))" using first that by auto
    then have "flow_val m (hd qs) < flow_val m q"
      unfolding B_COMPARE_iff(1) [symmetric]
      using savl.first_least(2) [of "fq_queued_tree m" "\<lambda>x. x" "flow_val m" qs "hd qs" q] rep that False by blast
    then show ?thesis by (auto simp: flow_val_def less_prod_def)
  qed simp
qed

lemma fq_tree_insert:
  assumes "fq_tree_rep m qs" "f \<notin> set qs"
  obtains t r ys where "SAvl_Insert (flow_val m) (fq_queued_tree m) f = Some (t, True, r)"
    "fq_tree_rep (m\<lparr>fq_queued_tree := t\<rparr>) ys" "set ys = insert f (set qs)"
proof -
  have rep: "bt_comparator (fq_queued_tree m) = (\<lambda>x y. B_COMPARE x y) \<and> index_rep (flow_val m) (fq_queued_tree m) qs"
    using assms(1) by (simp add: fq_tree_rep_def)
  have "\<forall>e\<in>set qs. B_COMPARE (flow_val m f) (flow_val m e) \<noteq> 0"
    using assms(2) by (auto simp: flow_val_def)
  then obtain t r ys where "SAvl_Insert (flow_val m) (fq_queued_tree m) f = Some (t, True, r)"
    "bt_comparator t = (\<lambda>x y. B_COMPARE x y) \<and> index_rep (flow_val m) t ys" "set ys = insert f (set qs)"
    using savl.insert_new_value [of "fq_queued_tree m" "\<lambda>x. x" "flow_val m" qs f] rep assms(2) by metis
  then show thesis using that [of t r ys] by (simp add: fq_tree_rep_def)
qed

lemma fq_tree_remove:
  assumes "fq_tree_rep m qs" "f \<in> set qs"
  obtains t where "SAvl_Remove (fq_queued_tree m) f = Some t" "fq_tree_rep (m\<lparr>fq_queued_tree := t\<rparr>) (remove1 f qs)"
proof -
  have rep: "bt_comparator (fq_queued_tree m) = (\<lambda>x y. B_COMPARE x y) \<and> index_rep (flow_val m) (fq_queued_tree m) qs"
    using assms(1) by (simp add: fq_tree_rep_def)
  then obtain t where "SAvl_Remove (fq_queued_tree m) f = Some t"
    "bt_comparator t = (\<lambda>x y. B_COMPARE x y) \<and> index_rep (flow_val m) t (remove1 f qs)"
    using savl.rem_law [of "fq_queued_tree m" "\<lambda>x. x" "flow_val m" qs f] assms(2) by blast
  then show thesis using that by (simp add: fq_tree_rep_def)
qed

lemma fq_tree_cong:
  assumes "fq_queued_tree m' = fq_queued_tree m" "\<And>f. f \<in> set qs \<Longrightarrow> ff_time m' f = ff_time m f"
  shows "fq_tree_rep m' qs \<longleftrightarrow> fq_tree_rep m qs"
  using assms index_rep_cong [of qs "flow_val m'" "flow_val m" "fq_queued_tree m"]
  by (simp add: fq_tree_rep_def flow_val_def)

text \<open>Subtracting one amount from all queued times keeps the order of the tree.\<close>

lemma fq_tree_shift:
  assumes rep: "fq_tree_rep m qs" and t: "fq_queued_tree m' = fq_queued_tree m"
    and shift: "\<And>f. f \<in> set qs \<Longrightarrow> sub \<le> ff_time m f \<and> ff_time m' f = ff_time m f - sub"
  shows "fq_tree_rep m' qs"
proof -
  have "(flow_val m' a < flow_val m' b) = (flow_val m a < flow_val m b)"
    if "a \<in> set qs" "b \<in> set qs" for a b
  proof -
    have u: "unat (ff_time m' c) = unat (ff_time m c) - unat sub" "unat sub \<le> unat (ff_time m c)" if "c \<in> set qs" for c
      using shift [OF that] unat_sub [of sub "ff_time m c"] by (simp_all add: word_le_nat_alt)
    have "(ff_time m' c < ff_time m' e) = (ff_time m c < ff_time m e)" if "c \<in> set qs" "e \<in> set qs" for c e
      using u [OF that(1)] u [OF that(2)] by (simp add: word_less_nat_alt less_diff_iff)
    then show ?thesis
      using that unfolding flow_val_def less_prod_def not_less [symmetric] by simp
  qed
  then have "sorted_nodes (flow_val m') (\<lambda>x y. B_COMPARE x y) qs \<longleftrightarrow> sorted_nodes (flow_val m) (\<lambda>x y. B_COMPARE x y) qs"
    unfolding sorted_nodes_def by (induction qs) simp_all
  then show ?thesis using rep t by (auto simp: fq_tree_rep_def index_rep_def)
qed

section \<open>Time\<close>

lemma subtract_loop_spec:
  assumes "l1_rep (fq_flows_list m) (ds @ fs)"
    and "\<And>f. f \<in> set fs \<Longrightarrow> f \<noteq> flow \<Longrightarrow> ff_is_queued m f \<Longrightarrow> sub \<le> ff_time m f"
  shows "subtract_loop flow sub (hd_or fs None) m =
    Some (m\<lparr>ff_time := \<lambda>f. if f \<in> set fs then if sub > ff_time m f \<and> f \<noteq> flow then 0 else ff_time m f - sub else ff_time m f\<rparr>)"
  using assms
proof (induction fs arbitrary: ds m)
  case Nil
  then show ?case by (simp add: subtract_loop.simps)
next
  case (Cons f fs)
  define t where "t = (if sub > ff_time m f \<and> f \<noteq> flow then 0 else ff_time m f - sub)"
  let ?m = "m\<lparr>ff_time := (ff_time m)(f := t)\<rparr>"
  have D: "f \<notin> set fs" using Cons.prems(1) by (simp add: l1_rep_def)
  have nx: "LinkedList1Node_Next (fq_flows_list m) f = hd_or fs None"
    using Cons.prems(1) by (auto simp: l1_rep_def LinkedList1Node_Next_def)
  have "sub \<le> ff_time ?m g" if "g \<in> set fs" "g \<noteq> flow" "ff_is_queued ?m g" for g
    using Cons.prems(2) [of g] that D by auto
  then have IH: "subtract_loop flow sub (hd_or fs None) ?m = Some (?m\<lparr>ff_time := \<lambda>g.
      if g \<in> set fs then if sub > ff_time ?m g \<and> g \<noteq> flow then 0 else ff_time ?m g - sub else ff_time ?m g\<rparr>)"
    using Cons.IH [of ?m "ds @ [f]"] Cons.prems(1) by simp
  have "subtract_loop flow sub (hd_or (f # fs) None) m = subtract_loop flow sub (hd_or fs None) ?m"
    using Cons.prems(2) [of f] nx by (auto simp: subtract_loop.simps [of flow sub "Some f"] t_def not_le)
  moreover have "(\<lambda>g. if g \<in> set fs then if sub > ff_time ?m g \<and> g \<noteq> flow then 0 else ff_time ?m g - sub else ff_time ?m g) =
      (\<lambda>g. if g \<in> set (f # fs) then if sub > ff_time m g \<and> g \<noteq> flow then 0 else ff_time m g - sub else ff_time m g)"
    using D by (auto simp: fun_eq_iff t_def)
  ultimately show ?case using IH by simp
qed

section \<open>The handlers keep the invariant\<close>

lemma schedule_spec:
  assumes core: "fq_core m fs qs" and "qs \<noteq> []"
    and idle: "fq_sending_flow m = None" "fq_previous_flow m = None" "\<not> fq_schedule_job m"
  obtains t where
    "schedule m = Some (m\<lparr>fq_queued_tree := t, ff_is_queued := (ff_is_queued m)(hd qs := False),
        fq_sending_flow := Some (hd qs), fq_sending_len := int (length (ff_data m (hd qs)))\<rparr>,
       [FQ_Output_Send (ff_data m (hd qs))])"
    "fq_inv (m\<lparr>fq_queued_tree := t, ff_is_queued := (ff_is_queued m)(hd qs := False),
        fq_sending_flow := Some (hd qs), fq_sending_len := int (length (ff_data m (hd qs)))\<rparr>) fs (tl qs)"
proof -
  have rep: "fq_tree_rep m qs" and q: "set qs = {f \<in> set fs. ff_is_queued m f}" "\<not> fq_freeing m"
    using core by (auto simp: fq_core_def)
  note F = fq_tree_first [OF rep]
  have hd: "hd qs \<in> set qs" "remove1 (hd qs) qs = tl qs" "set (tl qs) = set qs - {hd qs}"
    using assms(2) F(4) by (cases qs; auto)+
  obtain t where t: "SAvl_Remove (fq_queued_tree m) (hd qs) = Some t" "fq_tree_rep (m\<lparr>fq_queued_tree := t\<rparr>) (tl qs)"
    using fq_tree_remove [OF rep hd(1)] hd(2) by metis
  let ?m = "m\<lparr>fq_queued_tree := t, ff_is_queued := (ff_is_queued m)(hd qs := False),
        fq_sending_flow := Some (hd qs), fq_sending_len := int (length (ff_data m (hd qs)))\<rparr>"
  have code: "schedule m = Some (?m, [FQ_Output_Send (ff_data m (hd qs))])"
    using assms(2) idle q hd(1) t(1) by (simp add: schedule_def F(1,2))
  have "fq_tree_rep ?m (tl qs)"
    using t(2) fq_tree_cong [of ?m "m\<lparr>fq_queued_tree := t\<rparr>" "tl qs"] by simp
  then have "fq_core ?m fs (tl qs)"
    using core hd by (auto simp: fq_core_def)
  moreover have "fq_sending_ok ?m fs (tl qs)"
    using core idle hd F(3) by (auto simp: fq_sending_ok_def fq_core_def)
  ultimately have "fq_inv ?m fs (tl qs)"
    using idle by (simp add: fq_inv_def fq_previous_ok_def)
  then show thesis using that code by blast
qed

lemma get_current_time_spec:
  assumes "fq_inv m fs qs"
  obtains t where "get_current_time m = Some t"
    "\<And>f. fq_sending_flow m = Some f \<Longrightarrow> t = ff_time m f"
    "fq_sending_flow m = None \<Longrightarrow> qs = [] \<Longrightarrow> fq_previous_flow m = None \<Longrightarrow> t = 0"
    "fq_sending_flow m = None \<Longrightarrow> qs \<noteq> [] \<or> fq_previous_flow m \<noteq> None \<Longrightarrow>
       \<exists>g. (g \<in> set qs \<or> fq_previous_flow m = Some g) \<and> t = ff_time m g"
proof (cases "fq_sending_flow m")
  case (Some f)
  then show thesis using that by (simp add: get_current_time_def)
next
  case None
  have rep: "fq_tree_rep m qs" and q: "set qs = {f \<in> set fs. ff_is_queued m f}"
    using assms by (auto simp: fq_inv_def fq_core_def)
  have hd: "ff_is_queued m (hd qs)" if "qs \<noteq> []" using q hd_in_set that by blast
  define t where "t = (case fq_previous_flow m of
      None \<Rightarrow> (if qs = [] then 0 else ff_time m (hd qs))
    | Some p \<Rightarrow> (if qs = [] \<or> ff_time m p < ff_time m (hd qs) then ff_time m p else ff_time m (hd qs)))"
  have code: "get_current_time m = Some t"
    using None hd fq_tree_first(1) [OF rep]
    by (cases "qs = []"; cases "fq_previous_flow m") (simp_all add: get_current_time_def Let_def t_def)
  have ex: "\<exists>g. (g \<in> set qs \<or> fq_previous_flow m = Some g) \<and> t = ff_time m g"
    if "qs \<noteq> [] \<or> fq_previous_flow m \<noteq> None"
  proof (cases "\<exists>p. fq_previous_flow m = Some p \<and> (qs = [] \<or> ff_time m p < ff_time m (hd qs))")
    case True
    then obtain p where p: "fq_previous_flow m = Some p" "qs = [] \<or> ff_time m p < ff_time m (hd qs)" by blast
    then have "t = ff_time m p" unfolding t_def by simp
    then show ?thesis using p(1) by blast
  next
    case False
    then have "qs \<noteq> []" "t = ff_time m (hd qs)"
      using that by (cases "fq_previous_flow m"; simp add: t_def)+
    then show ?thesis using hd_in_set [of qs] by blast
  qed
  show thesis
    by (rule that [of t], fact code) (use None ex in \<open>simp_all add: t_def\<close>)
qed

text \<open>The state after a packet of flow f was put into the tree.\<close>

definition fq_enqueued :: "fair_queue \<Rightarrow> addr \<Rightarrow> u64 \<Rightarrow> bytes \<Rightarrow> (u64 \<times> addr) bavl \<Rightarrow> fair_queue" where
  "fq_enqueued m f time data t =
     m\<lparr>fq_previous_flow := (if fq_previous_flow m = Some f then None else fq_previous_flow m),
       ff_time := (ff_time m)(f := time), ff_data := (ff_data m)(f := data), fq_queued_tree := t,
       ff_is_queued := (ff_is_queued m)(f := True)\<rparr>"

lemma fq_enqueued_sel [simp]:
  "fq_sending_flow (fq_enqueued m f time data t) = fq_sending_flow m"
  "fq_sending_len (fq_enqueued m f time data t) = fq_sending_len m"
  "fq_schedule_job (fq_enqueued m f time data t) = fq_schedule_job m"
  "fq_flows_list (fq_enqueued m f time data t) = fq_flows_list m"
  "fq_output_mtu (fq_enqueued m f time data t) = fq_output_mtu m"
  "fq_packet_weight (fq_enqueued m f time data t) = fq_packet_weight m"
  "fq_freeing (fq_enqueued m f time data t) = fq_freeing m"
  "fq_queued_tree (fq_enqueued m f time data t) = t"
  "ff_time (fq_enqueued m f time data t) = (ff_time m)(f := time)"
  "ff_data (fq_enqueued m f time data t) = (ff_data m)(f := data)"
  "ff_is_queued (fq_enqueued m f time data t) = (ff_is_queued m)(f := True)"
  "fq_previous_flow (fq_enqueued m f time data t) =
     (if fq_previous_flow m = Some f then None else fq_previous_flow m)"
  by (simp_all add: fq_enqueued_def)

lemma input_handler_send_spec:
  assumes inv: "fq_inv m fs qs" and ok: "fq_event_ok m fs (FQ_Send f data)"
  obtains t time ys where
    "input_handler_send m f data =
       (if fq_sending_flow m = None \<and> \<not> fq_schedule_job m then schedule (fq_enqueued m f time data t)
        else Some (fq_enqueued m f time data t, []))"
    "fq_core (fq_enqueued m f time data t) fs ys" "fq_sending_ok (fq_enqueued m f time data t) fs ys"
    "fq_previous_ok (fq_enqueued m f time data t) fs" "set ys = insert f (set qs)"
    "if fq_previous_flow m = Some f then time = ff_time m f
     else \<exists>cur. get_current_time m = Some cur \<and> time = max (ff_time m f) cur"
proof -
  have core: "fq_core m fs qs" and s: "fq_sending_ok m fs qs" and pv: "fq_previous_ok m fs"
    using inv by (auto simp: fq_inv_def)
  have rep: "fq_tree_rep m qs" and q: "set qs = {f \<in> set fs. ff_is_queued m f}" "\<not> fq_freeing m"
    using core by (auto simp: fq_core_def)
  have f: "f \<in> set fs" "\<not> ff_is_queued m f" "fq_sending_flow m \<noteq> Some f" "f \<notin> set qs"
    using ok q by auto
  obtain cur where cur: "get_current_time m = Some cur" "\<And>g. fq_sending_flow m = Some g \<Longrightarrow> cur = ff_time m g"
    using get_current_time_spec [OF inv] by metis
  define time where "time = (if fq_previous_flow m = Some f then ff_time m f else max (ff_time m f) cur)"
  let ?m0 = "m\<lparr>fq_previous_flow := (if fq_previous_flow m = Some f then None else fq_previous_flow m),
                    ff_time := (ff_time m)(f := time)\<rparr>"
  let ?m1 = "?m0\<lparr>ff_data := (ff_data m)(f := data)\<rparr>"
  have m1: "(if Some f = fq_previous_flow m then Some (m\<lparr>fq_previous_flow := None\<rparr>)
      else do { time \<leftarrow> get_current_time m; Some (m\<lparr>ff_time := (ff_time m)(f := max (ff_time m f) time)\<rparr>) }) =
      Some ?m0"
    using cur(1) by (auto simp: time_def fun_upd_triv)
  have "fq_tree_rep ?m1 qs"
    using rep by (rule fq_tree_cong [THEN iffD2, rotated -1]) (use f(4) in auto)
  then obtain t r ys where t: "SAvl_Insert (flow_val ?m1) (fq_queued_tree ?m1) f = Some (t, True, r)"
    "fq_tree_rep (?m1\<lparr>fq_queued_tree := t\<rparr>) ys" "set ys = insert f (set qs)"
    using fq_tree_insert f(4) by metis
  let ?m' = "fq_enqueued m f time data t"
  have "fq_tree_rep ?m' ys" using t(2) fq_tree_cong [of ?m' "?m1\<lparr>fq_queued_tree := t\<rparr>" ys] by simp
  then have core': "fq_core ?m' fs ys"
    using core t(3) f(1,2) ok by (auto simp: fq_core_def)
  have "fq_previous_flow m = None" if "fq_sending_flow m = Some g" for g
    using s that by (simp add: fq_sending_ok_def)
  then have "fq_sending_ok ?m' fs ys"
    using s f t(3) cur(2) by (auto simp: fq_sending_ok_def time_def)
  moreover have "fq_previous_ok ?m' fs"
    using pv by (auto simp: fq_previous_ok_def)
  moreover have "input_handler_send m f data =
      (if fq_sending_flow m = None \<and> \<not> fq_schedule_job m then schedule ?m' else Some (?m', []))"
    using f(2,3) q(2) t(1) unfolding input_handler_send_def m1 by (simp add: Let_def fq_enqueued_def ASSERT_def)
  moreover have "if fq_previous_flow m = Some f then time = ff_time m f
     else \<exists>cur. get_current_time m = Some cur \<and> time = max (ff_time m f) cur"
    using cur(1) by (auto simp: time_def)
  ultimately show thesis
    using that core' t(3) by blast
qed

section \<open>What each event does\<close>

text \<open>
  The queue as its users see it: \<open>fq_effect\<close> describes every event by the flows, their times and
  the calls, without the tree and the list.  A flow is active while it has a packet queued, being sent,
  or just sent.
\<close>

definition fq_active :: "fair_queue \<Rightarrow> addr \<Rightarrow> bool" where
  "fq_active m f \<longleftrightarrow> ff_is_queued m f \<or> fq_sending_flow m = Some f \<or> fq_previous_flow m = Some f"

definition fq_amount :: "fair_queue \<Rightarrow> nat" where
  "fq_amount m = nat (fq_packet_weight m + fq_sending_len m)"

definition fq_queued :: "fair_queue \<Rightarrow> addr list \<Rightarrow> addr set" where
  "fq_queued m fs = {f \<in> set fs. ff_is_queued m f}"

definition fq_entry_time :: "fair_queue \<Rightarrow> addr list \<Rightarrow> addr \<Rightarrow> u64 \<Rightarrow> bool" where
  "fq_entry_time m fs f time \<longleftrightarrow>
     (if fq_previous_flow m = Some f then time = ff_time m f
      else \<exists>cur. time = max (ff_time m f) cur \<and>
        (if \<exists>g\<in>set fs. fq_active m g then \<exists>g\<in>set fs. fq_active m g \<and> cur = ff_time m g else cur = 0))"

definition fq_starts :: "fair_queue \<Rightarrow> fair_queue \<Rightarrow> addr \<Rightarrow> bool" where
  "fq_starts m m' q \<longleftrightarrow> fq_sending_flow m' = Some q \<and> fq_sending_len m' = int (length (ff_data m' q)) \<and>
     fq_previous_flow m' = None \<and> \<not> fq_schedule_job m' \<and> ff_is_queued m' = (ff_is_queued m)(q := False)"

fun fq_effect :: "fair_queue \<Rightarrow> addr list \<Rightarrow> fq_event \<Rightarrow> fair_queue \<Rightarrow> fq_call list \<Rightarrow> bool" where
  "fq_effect m fs (FQ_Send f data) m' cs \<longleftrightarrow>
     ff_data m' = (ff_data m)(f := data) \<and>
     (\<exists>time. ff_time m' = (ff_time m)(f := time) \<and> fq_entry_time m fs f time) \<and>
     (if fq_sending_flow m = None \<and> \<not> fq_schedule_job m
      then fq_queued m fs = {} \<and> fq_previous_flow m = None \<and> fq_starts m m' f \<and> cs = [FQ_Output_Send data]
      else fq_sending_flow m' = fq_sending_flow m \<and> fq_sending_len m' = fq_sending_len m \<and>
        fq_previous_flow m' = (if fq_previous_flow m = Some f then None else fq_previous_flow m) \<and>
        fq_schedule_job m' = fq_schedule_job m \<and> ff_is_queued m' = (ff_is_queued m)(f := True) \<and> cs = [])"
| "fq_effect m fs FQ_Done m' cs \<longleftrightarrow>
     ff_data m' = ff_data m \<and> ff_is_queued m' = ff_is_queued m \<and> fq_sending_flow m' = None \<and>
     fq_previous_flow m' = fq_sending_flow m \<and> fq_schedule_job m' \<and>
     (\<exists>f. fq_sending_flow m = Some f \<and> FQ_Input_Done f \<in> set cs \<and> (\<forall>data. FQ_Output_Send data \<notin> set cs) \<and>
       (\<exists>sub. (\<forall>g\<in>set fs. unat (ff_time m' g) = unat (ff_time m g) + (if g = f then fq_amount m else 0) - sub) \<and>
         sub \<le> unat (ff_time m f) + fq_amount m \<and> (\<forall>q\<in>fq_queued m fs. sub \<le> unat (ff_time m q))))"
| "fq_effect m fs FQ_Job m' cs \<longleftrightarrow>
     ff_data m' = ff_data m \<and> ff_time m' = ff_time m \<and> fq_sending_flow m = None \<and>
     (if fq_queued m fs = {}
      then fq_sending_flow m' = None \<and> fq_previous_flow m' = None \<and> \<not> fq_schedule_job m' \<and>
        ff_is_queued m' = ff_is_queued m \<and> cs = []
      else \<exists>q\<in>fq_queued m fs. (\<forall>g\<in>fq_queued m fs. ff_time m q \<le> ff_time m g) \<and>
        fq_starts m m' q \<and> cs = [FQ_Output_Send (ff_data m q)])"
| "fq_effect m fs (FQ_New f) m' cs \<longleftrightarrow>
     ff_data m' = ff_data m \<and> ff_time m' = (ff_time m)(f := 0) \<and> fq_sending_flow m' = fq_sending_flow m \<and>
     fq_sending_len m' = fq_sending_len m \<and> fq_previous_flow m' = fq_previous_flow m \<and>
     fq_schedule_job m' = fq_schedule_job m \<and> ff_is_queued m' = (ff_is_queued m)(f := False) \<and>
     cs = [FQ_Input_Init f (fq_output_mtu m)]"
| "fq_effect m fs (FQ_Free f) m' cs \<longleftrightarrow>
     ff_data m' = ff_data m \<and> ff_time m' = ff_time m \<and> fq_sending_flow m' = fq_sending_flow m \<and>
     fq_sending_len m' = fq_sending_len m \<and>
     fq_previous_flow m' = (if fq_previous_flow m = Some f then None else fq_previous_flow m) \<and>
     fq_schedule_job m' = fq_schedule_job m \<and> ff_is_queued m' = ff_is_queued m \<and> cs = [FQ_Input_Free f]"

definition fq_effects :: "fair_queue \<Rightarrow> addr list \<Rightarrow> fq_event \<Rightarrow> bool" where
  "fq_effects m fs e \<longleftrightarrow> (\<exists>m' cs qs'. fq_step m e = Some (m', cs) \<and> fq_inv m' (fq_flows_after fs e) qs' \<and>
     fq_effect m fs e m' cs \<and> fq_packet_weight m' = fq_packet_weight m \<and> fq_output_mtu m' = fq_output_mtu m)"

lemma fq_queued_inv: "fq_inv m fs qs \<Longrightarrow> fq_queued m fs = set qs"
  by (simp add: fq_inv_def fq_core_def fq_queued_def)

lemma fq_entry_time_inv:
  assumes inv: "fq_inv m fs qs"
    and time: "if fq_previous_flow m = Some f then time = ff_time m f
      else \<exists>cur. get_current_time m = Some cur \<and> time = max (ff_time m f) cur"
  shows "fq_entry_time m fs f time"
proof (cases "fq_previous_flow m = Some f")
  case False
  then obtain cur where cur: "get_current_time m = Some cur" "time = max (ff_time m f) cur" using time by auto
  have q: "fq_queued m fs = set qs" using fq_queued_inv [OF inv] .
  have S: "g \<in> set fs" if "fq_sending_flow m = Some g \<or> fq_previous_flow m = Some g" for g
    using inv that by (auto simp: fq_inv_def fq_sending_ok_def fq_previous_ok_def)
  have act: "(\<exists>g\<in>set fs. fq_active m g) \<longleftrightarrow> qs \<noteq> [] \<or> fq_sending_flow m \<noteq> None \<or> fq_previous_flow m \<noteq> None"
    using S unfolding set_empty [symmetric] q [symmetric] by (auto simp: fq_active_def fq_queued_def)
  have "if \<exists>g\<in>set fs. fq_active m g then \<exists>g\<in>set fs. fq_active m g \<and> cur = ff_time m g else cur = 0"
  proof (cases "fq_sending_flow m")
    case (Some g)
    then show ?thesis using get_current_time_spec [OF inv] cur(1) S [of g] act
      by (smt (verit, ccfv_SIG) fq_active_def option.inject option.distinct(1))
  next
    case None
    show ?thesis
    proof (cases "qs = [] \<and> fq_previous_flow m = None")
      case True
      then show ?thesis using get_current_time_spec [OF inv] cur(1) None act by (metis option.inject)
    next
      case False
      then obtain g where "g \<in> set qs \<or> fq_previous_flow m = Some g" "cur = ff_time m g"
        using get_current_time_spec [OF inv] cur(1) None by (metis option.inject)
      moreover from this(1) have "g \<in> set fs" "fq_active m g" using q S by (auto simp: fq_active_def fq_queued_def)
      ultimately show ?thesis using act by auto
    qed
  qed
  then show ?thesis using False cur(2) unfolding fq_entry_time_def by metis
qed (use time in \<open>simp add: fq_entry_time_def\<close>)

lemma send_effects:
  assumes inv: "fq_inv m fs qs" and ok: "fq_event_ok m fs (FQ_Send f data)"
  shows "fq_effects m fs (FQ_Send f data)"
proof -
  obtain t time ys where T: "input_handler_send m f data =
       (if fq_sending_flow m = None \<and> \<not> fq_schedule_job m then schedule (fq_enqueued m f time data t)
        else Some (fq_enqueued m f time data t, []))"
    "fq_core (fq_enqueued m f time data t) fs ys" "fq_sending_ok (fq_enqueued m f time data t) fs ys"
    "fq_previous_ok (fq_enqueued m f time data t) fs" "set ys = insert f (set qs)"
    "if fq_previous_flow m = Some f then time = ff_time m f
     else \<exists>cur. get_current_time m = Some cur \<and> time = max (ff_time m f) cur"
    by (rule input_handler_send_spec [OF assms])
  let ?m = "fq_enqueued m f time data t"
  note entry = fq_entry_time_inv [OF inv T(6)] and q = fq_queued_inv [OF inv]
  have ys: "ys \<noteq> []" using T(5) by auto
  show ?thesis
  proof (cases "fq_sending_flow m = None \<and> \<not> fq_schedule_job m")
    case True
    then have "qs = []" and prev: "fq_previous_flow m = None"
      using inv by (auto simp: fq_inv_def fq_previous_ok_def)
    then have "set ys = {f}" "hd ys = f" using T(5) hd_in_set [OF ys] by auto
    moreover obtain t' where
      "schedule ?m = Some (?m\<lparr>fq_queued_tree := t', ff_is_queued := (ff_is_queued ?m)(hd ys := False),
        fq_sending_flow := Some (hd ys), fq_sending_len := int (length (ff_data ?m (hd ys)))\<rparr>,
       [FQ_Output_Send (ff_data ?m (hd ys))])"
      "fq_inv (?m\<lparr>fq_queued_tree := t', ff_is_queued := (ff_is_queued ?m)(hd ys := False),
        fq_sending_flow := Some (hd ys), fq_sending_len := int (length (ff_data ?m (hd ys)))\<rparr>) fs (tl ys)"
      by (rule schedule_spec [OF T(2) ys]) (use True prev in auto)
    ultimately show ?thesis
      using T(1) True entry q prev \<open>qs = []\<close>
      by (fastforce simp: fq_effects_def fq_starts_def)
  next
    case False
    then have "fq_inv ?m fs ys" using T by (auto simp: fq_inv_def)
    then show ?thesis using T(1) False entry by (auto simp: fq_effects_def)
  qed
qed

text \<open>
  The overflow of the times is handled exactly: the words after \<open>increment_sent_flow\<close> are the sums
  of the numbers, less one amount that all flows lose.
\<close>

lemma unat_MAX_TIME_diff: "unat (FAIRQUEUE_MAX_TIME - t) = 2 ^ 64 - 1 - unat t"
  by (subst unat_sub [OF max_word_max]) (simp add: unsigned_minus_1_eq_mask mask_eq_exp_minus_1)

lemma unat_u64: "unat t < 2 ^ 64" and uint_u64: "uint t < 2 ^ 64" for t :: u64
  using unsigned_less [of t, where ?'a = nat] unsigned_less [of t, where ?'a = int] by simp_all

lemma increment_sent_flow_spec:
  assumes core: "fq_core m fs qs" and f: "f \<in> set fs" "\<not> ff_is_queued m f" "fq_sending_flow m = None"
    and least: "\<And>q. q \<in> set qs \<Longrightarrow> ff_time m f \<le> ff_time m q"
  obtains time sub where "increment_sent_flow m f amount = Some (m\<lparr>ff_time := time\<rparr>)"
    "\<And>g. g \<in> set fs \<Longrightarrow> unat (time g) = unat (ff_time m g) + (if g = f then unat amount else 0) - unat sub"
    "unat sub \<le> unat (ff_time m f) + unat amount"
    "\<And>q. q \<in> set qs \<Longrightarrow> sub \<le> ff_time m q \<and> time q = ff_time m q - sub"
proof (cases "amount > FAIRQUEUE_MAX_TIME - ff_time m f")
  case False
  then have "unat amount \<le> 2 ^ 64 - 1 - unat (ff_time m f)"
    by (simp add: word_less_nat_alt unat_MAX_TIME_diff)
  then have "unat (ff_time m f + amount) = unat (ff_time m f) + unat amount"
    using unat_u64 [of "ff_time m f"] by (intro unat_add_lem [THEN iffD1]) (simp del: unat_u64_less)
  moreover have "f \<notin> set qs" using core f by (auto simp: fq_core_def)
  ultimately show thesis
    using False f
    by (intro that [of "(ff_time m)(f := ff_time m f + amount)" 0]) (auto simp: increment_sent_flow_def)
next
  case True
  have rep: "fq_tree_rep m qs" and q: "set qs = {f \<in> set fs. ff_is_queued m f}" and l: "l1_rep (fq_flows_list m) fs"
    using core by (auto simp: fq_core_def)
  have fq: "f \<notin> set qs" using q f by auto
  define sub where "sub = (if qs = [] then ff_time m f else ff_time m (hd qs))"
  have sub: "sub \<le> ff_time m q" if "q \<in> set qs" for q
    using fq_tree_first(3) [OF rep that] that by (auto simp: sub_def)
  have ge: "ff_time m f \<le> sub" using least by (auto simp: sub_def)
  let ?t = "\<lambda>g. if g \<in> set fs then if sub > ff_time m g \<and> g \<noteq> f then 0 else ff_time m g - sub else ff_time m g"
  have first: "LinkedList1_GetFirst (fq_flows_list m) = hd_or fs None"
    using l by (cases fs) (auto simp: l1_rep_def LinkedList1_GetFirst_def)
  have "subtract_loop f sub (hd_or fs None) m = Some (m\<lparr>ff_time := ?t\<rparr>)"
    using subtract_loop_spec [of m "[]" fs f sub] l q sub by simp
  moreover have "(case (if qs = [] then None else Some (hd qs)) of None \<Rightarrow> Some (ff_time m f)
      | Some g \<Rightarrow> do { ASSERT (ff_is_queued m g); Some (ff_time m g) }) = Some sub"
    using q hd_in_set [of qs] by (auto simp: sub_def)
  ultimately have code: "increment_sent_flow m f amount = Some (m\<lparr>ff_time := ?t(f := ?t f + amount)\<rparr>)"
    using True f fq_tree_first(1) [OF rep] first by (simp add: increment_sent_flow_def)
  have carry: "unat (ff_time m f) + unat amount \<ge> 2 ^ 64"
  proof -
    have "unat (FAIRQUEUE_MAX_TIME - ff_time m f) < unat amount" using True by (simp add: word_less_nat_alt)
    then show ?thesis using unat_u64 [of "ff_time m f"] by (simp add: unat_MAX_TIME_diff del: unat_u64_less)
  qed
  have le: "unat sub \<le> unat (ff_time m f) + unat amount" using carry unat_u64 [of sub] by linarith
  have "unat (ff_time m f - sub + amount) = unat (ff_time m f) + unat amount - unat sub"
  proof -
    have "ff_time m f - sub + amount = of_nat (unat (ff_time m f) + unat amount - unat sub)"
      using le by (simp add: of_nat_diff)
    moreover have "unat (ff_time m f) + unat amount - unat sub < 2 ^ LENGTH(64)"
      using ge unat_u64 [of amount] by (simp add: word_le_nat_alt del: unat_u64_less)
    ultimately show ?thesis using unat_of_nat_small by metis
  qed
  moreover have "unat (?t g) = unat (ff_time m g) - unat sub" if "g \<in> set fs" "g \<noteq> f" for g
    using that by (simp add: word_less_nat_alt word_le_nat_alt unat_sub)
  ultimately show thesis
    using f sub le fq q
    by (intro that [OF code, of sub]) (auto dest!: leD)
qed

lemma done_effects:
  assumes inv: "fq_inv m fs qs" and ok: "fq_event_ok m fs FQ_Done"
  shows "fq_effects m fs FQ_Done"
proof -
  obtain f where f: "fq_sending_flow m = Some f" using ok by auto
  have core: "fq_core m fs qs" and F: "f \<in> set fs" "\<not> ff_is_queued m f" "fq_previous_flow m = None" "\<not> fq_schedule_job m"
    "0 \<le> fq_sending_len m" "fq_sending_len m \<le> fq_output_mtu m" "\<And>q. q \<in> set qs \<Longrightarrow> ff_time m f \<le> ff_time m q"
    using inv f by (auto simp: fq_inv_def fq_sending_ok_def)
  define amount :: u64 where "amount = word_of_int (fq_packet_weight m) + word_of_int (fq_sending_len m)"
  let ?m1 = "m\<lparr>fq_sending_flow := None, fq_previous_flow := Some f\<rparr>"
  have rep: "fq_tree_rep m qs" using core by (simp add: fq_core_def)
  have "fq_core ?m1 fs qs" using core fq_tree_cong [of ?m1 m qs] by (simp add: fq_core_def)
  then obtain time sub where T: "increment_sent_flow ?m1 f amount = Some (?m1\<lparr>ff_time := time\<rparr>)"
    "\<And>g. g \<in> set fs \<Longrightarrow> unat (time g) = unat (ff_time m g) + (if g = f then unat amount else 0) - unat sub"
    "unat sub \<le> unat (ff_time m f) + unat amount"
    "\<And>q. q \<in> set qs \<Longrightarrow> sub \<le> ff_time m q \<and> time q = ff_time m q - sub"
    by (rule increment_sent_flow_spec [of ?m1 fs qs f amount]) (use F in auto)
  let ?m2 = "?m1\<lparr>ff_time := time, fq_schedule_job := True\<rparr>"
  have "fq_tree_rep ?m2 qs" using rep by (rule fq_tree_shift) (use T(4) in auto)
  then have "fq_core ?m2 fs qs" using core by (simp add: fq_core_def)
  then have "fq_inv ?m2 fs qs" using F by (simp add: fq_inv_def fq_sending_ok_def fq_previous_ok_def)
  then have "fq_inv (?m2\<lparr>ff_handler_busy := h\<rparr>) fs qs" for h
    using fq_tree_cong [of "?m2\<lparr>ff_handler_busy := h\<rparr>" ?m2 qs]
    by (simp add: fq_inv_def fq_core_def fq_sending_ok_def fq_previous_ok_def)
  note inv' = \<open>fq_inv ?m2 fs qs\<close> this
  have amt: "unat amount = fq_amount m"
    using core F(5,6)
    by (simp add: amount_def fq_amount_def fq_core_def unsigned_of_int take_bit_int_eq_self flip: of_int_add)
  have code: "output_handler_done m = (case ff_handler_busy m f of
      Some user \<Rightarrow> Some (?m2\<lparr>ff_handler_busy := (ff_handler_busy m)(f := None)\<rparr>, [FQ_Input_Done f, FQ_Busy user])
    | None \<Rightarrow> Some (?m2, [FQ_Input_Done f]))"
    using T(1) F core f by (simp add: output_handler_done_def Let_def amount_def fq_core_def split: option.split)
  have sub: "\<exists>sub. (\<forall>g\<in>set fs. unat (time g) = unat (ff_time m g) + (if g = f then fq_amount m else 0) - sub) \<and>
      sub \<le> unat (ff_time m f) + fq_amount m \<and> (\<forall>q\<in>fq_queued m fs. sub \<le> unat (ff_time m q))"
    using T(2-4) amt fq_queued_inv [OF inv] by (intro exI [of _ "unat sub"]) (auto simp: word_le_nat_alt)
  show ?thesis
    unfolding fq_effects_def using f code sub inv' by (cases "ff_handler_busy m f") auto
qed

lemma job_effects:
  assumes inv: "fq_inv m fs qs" and ok: "fq_event_ok m fs FQ_Job"
  shows "fq_effects m fs FQ_Job"
proof -
  have S: "fq_sending_flow m = None" using inv ok by (auto simp: fq_inv_def fq_sending_ok_def)
  have rep: "fq_tree_rep m qs" and core: "fq_core m fs qs" using inv by (auto simp: fq_inv_def fq_core_def)
  let ?m = "m\<lparr>fq_schedule_job := False, fq_previous_flow := None\<rparr>"
  have core': "fq_core ?m fs qs" using core fq_tree_cong [of ?m m qs] by (simp add: fq_core_def)
  have code: "fq_step m FQ_Job = (if qs = [] then Some (?m, []) else schedule ?m)"
    using S core fq_tree_first(2) [OF rep] by (simp add: schedule_job_handler_def fq_core_def)
  note q = fq_queued_inv [OF inv]
  show ?thesis
  proof (cases "qs = []")
    case True
    then have "fq_inv ?m fs qs" using core' S by (simp add: fq_inv_def fq_sending_ok_def fq_previous_ok_def)
    then show ?thesis using code True S q by (auto simp: fq_effects_def)
  next
    case False
    obtain t where "schedule ?m = Some (?m\<lparr>fq_queued_tree := t, ff_is_queued := (ff_is_queued ?m)(hd qs := False),
        fq_sending_flow := Some (hd qs), fq_sending_len := int (length (ff_data ?m (hd qs)))\<rparr>,
       [FQ_Output_Send (ff_data ?m (hd qs))])"
      "fq_inv (?m\<lparr>fq_queued_tree := t, ff_is_queued := (ff_is_queued ?m)(hd qs := False),
        fq_sending_flow := Some (hd qs), fq_sending_len := int (length (ff_data ?m (hd qs)))\<rparr>) fs (tl qs)"
      by (rule schedule_spec [OF core' False]) (use S in simp_all)
    moreover have "hd qs \<in> fq_queued m fs" "\<forall>g\<in>fq_queued m fs. ff_time m (hd qs) \<le> ff_time m g"
      using q False fq_tree_first(3) [OF rep] by auto
    ultimately show ?thesis
      using code False S q by (fastforce simp: fq_effects_def fq_starts_def)
  qed
qed

lemma new_effects:
  assumes inv: "fq_inv m fs qs" and ok: "fq_event_ok m fs (FQ_New f)"
  shows "fq_effects m fs (FQ_New f)"
proof -
  let ?m = "m\<lparr>ff_handler_busy := (ff_handler_busy m)(f := None), ff_time := (ff_time m)(f := 0),
      fq_flows_list := LinkedList1_Append (fq_flows_list m) f, ff_is_queued := (ff_is_queued m)(f := False)\<rparr>"
  have fq: "f \<notin> set qs" "f \<notin> set fs" using inv ok by (auto simp: fq_inv_def fq_core_def)
  have "fq_tree_rep m qs" using inv by (simp add: fq_inv_def fq_core_def)
  then have "fq_tree_rep ?m qs"
    by (rule fq_tree_cong [THEN iffD2, rotated -1]) (use fq in auto)
  then have "fq_core ?m (fs @ [f]) qs"
    using inv LinkedList1_Append_rep fq by (auto simp: fq_inv_def fq_core_def)
  moreover have "fq_sending_ok ?m (fs @ [f]) qs" "fq_previous_ok ?m (fs @ [f])"
    using inv fq by (auto simp: fq_inv_def fq_sending_ok_def fq_previous_ok_def)
  ultimately have "fq_inv ?m (fs @ [f]) qs" using inv by (simp add: fq_inv_def)
  then show ?thesis
    using inv by (auto simp: fq_effects_def PacketPassFairQueueFlow_Init_def Let_def fq_inv_def fq_core_def)
qed

lemma LinkedList1_Remove_rep:
  assumes "l1_rep l fs" "f \<in> set fs"
  shows "l1_rep (LinkedList1_Remove l f) (remove1 f fs)"
proof -
  obtain xs ys where "fs = xs @ f # ys" "f \<notin> set xs" using split_list_first [OF assms(2)] by auto
  then show ?thesis using assms(1) LinkedList1_Remove_rep_split by (auto simp: remove1_append)
qed

lemma free_effects:
  assumes inv: "fq_inv m fs qs" and ok: "fq_event_ok m fs (FQ_Free f)"
  shows "fq_effects m fs (FQ_Free f)"
proof -
  have core: "fq_core m fs qs" and f: "f \<in> set fs" "fq_sending_flow m \<noteq> Some f"
    using inv ok by (auto simp: fq_inv_def)
  have rep: "fq_tree_rep m qs" and q: "set qs = {f \<in> set fs. ff_is_queued m f}" and D: "distinct fs"
    using core by (auto simp: fq_core_def l1_rep_def)
  have "\<exists>t. (if ff_is_queued m f then SAvl_Remove (fq_queued_tree m) f else Some (fq_queued_tree m)) = Some t \<and>
      fq_tree_rep (m\<lparr>fq_queued_tree := t\<rparr>) (remove1 f qs)"
  proof (cases "ff_is_queued m f")
    case True
    then have "f \<in> set qs" using q f(1) by simp
    then show ?thesis using fq_tree_remove [OF rep] True by metis
  next
    case False
    then have "remove1 f qs = qs" using q by (simp add: remove1_idem)
    then show ?thesis using False rep by simp
  qed
  then obtain t where t: "(if ff_is_queued m f then SAvl_Remove (fq_queued_tree m) f else Some (fq_queued_tree m)) = Some t"
    "fq_tree_rep (m\<lparr>fq_queued_tree := t\<rparr>) (remove1 f qs)" by blast
  let ?m = "m\<lparr>fq_previous_flow := (if fq_previous_flow m = Some f then None else fq_previous_flow m),
      fq_queued_tree := t, fq_flows_list := LinkedList1_Remove (fq_flows_list m) f\<rparr>"
  have "fq_tree_rep ?m (remove1 f qs)"
    using t(2) fq_tree_cong [of ?m "m\<lparr>fq_queued_tree := t\<rparr>" "remove1 f qs"] by simp
  moreover have "set (remove1 f qs) = {g \<in> set (remove1 f fs). ff_is_queued m g}"
    using q D fq_tree_first(4) [OF rep] by (auto simp: set_remove1_eq)
  ultimately have "fq_core ?m (remove1 f fs) (remove1 f qs)"
    using core LinkedList1_Remove_rep f(1) notin_set_remove1 by (auto simp: fq_core_def)
  moreover have "fq_sending_ok ?m (remove1 f fs) (remove1 f qs)" "fq_previous_ok ?m (remove1 f fs)"
    using inv f D fq_tree_first(4) [OF rep]
    by (auto simp: fq_inv_def fq_sending_ok_def fq_previous_ok_def set_remove1_eq)
  ultimately have "fq_inv ?m (remove1 f fs) (remove1 f qs)"
    using inv by (auto simp: fq_inv_def dest: set_remove1_subset [THEN subsetD])
  moreover have "PacketPassFairQueueFlow_Free m f = Some (?m, [FQ_Input_Free f])"
    using t(1) f(2) by (auto simp: PacketPassFairQueueFlow_Free_def Let_def split: if_splits)
  ultimately show ?thesis using f(2) by (auto simp: fq_effects_def)
qed

lemma step_effects: "fq_inv m fs qs \<Longrightarrow> fq_event_ok m fs e \<Longrightarrow> fq_effects m fs e"
  by (cases e) (simp_all only: send_effects done_effects job_effects new_effects free_effects)

section \<open>Runs\<close>

definition fq_sent :: "fq_call list \<Rightarrow> bytes list" where
  "fq_sent cs = [data. FQ_Output_Send data \<leftarrow> cs]"

fun fq_log_in :: "(addr \<Rightarrow> bytes list) \<Rightarrow> fq_event \<Rightarrow> addr \<Rightarrow> bytes list" where
  "fq_log_in ins (FQ_Send f data) = ins(f := ins f @ [data])"
| "fq_log_in ins (FQ_New f) = ins(f := [])"
| "fq_log_in ins _ = ins"

fun fq_log_out :: "(addr \<Rightarrow> bytes list) \<Rightarrow> fq_event \<Rightarrow> fair_queue \<Rightarrow> fq_call list \<Rightarrow> addr \<Rightarrow> bytes list" where
  "fq_log_out outs (FQ_New f) m' cs = outs(f := [])"
| "fq_log_out outs _ m' cs =
     (case fq_sending_flow m' of Some f \<Rightarrow> outs(f := outs f @ fq_sent cs) | None \<Rightarrow> outs)"

text \<open>
  The reachable states, with the packets every flow has taken in and the packets of it that have been
  given to the output.
\<close>

inductive fq_reachable :: "fair_queue \<Rightarrow> addr list \<Rightarrow> (addr \<Rightarrow> bytes list) \<Rightarrow> (addr \<Rightarrow> bytes list) \<Rightarrow> bool" where
  fq_init: "PacketPassFairQueue_Init m0 output use_cancel packet_weight = Some (Some (m, output')) \<Longrightarrow>
     0 \<le> PacketPassInterface_GetMTU output \<Longrightarrow> PacketPassInterface_GetMTU output \<le> INT_MAX \<Longrightarrow>
     packet_weight \<le> INT_MAX \<Longrightarrow> fq_reachable m [] (\<lambda>f. []) (\<lambda>f. [])"
| fq_event: "fq_reachable m fs ins outs \<Longrightarrow> fq_event_ok m fs e \<Longrightarrow> fq_step m e = Some (m', cs) \<Longrightarrow>
     fq_reachable m' (fq_flows_after fs e) (fq_log_in ins e) (fq_log_out outs e m' cs)"

lemma fq_sent_simps [simp]: "fq_sent [] = []" "fq_sent (FQ_Output_Send data # cs) = data # fq_sent cs"
  "fq_sent (FQ_Input_Init f n # cs) = fq_sent cs" "fq_sent (FQ_Input_Free f # cs) = fq_sent cs"
  by (simp_all add: fq_sent_def)

lemma fq_sent_Nil: "(\<And>data. FQ_Output_Send data \<notin> set cs) \<Longrightarrow> fq_sent cs = []"
  by (induction cs) (auto simp: fq_sent_def split: fq_call.split)

lemma fq_effects_step:
  assumes "fq_inv m fs qs" "fq_event_ok m fs e" "fq_step m e = Some (m', cs)"
  obtains qs' where "fq_inv m' (fq_flows_after fs e) qs'" "fq_effect m fs e m' cs"
    "fq_packet_weight m' = fq_packet_weight m" "fq_output_mtu m' = fq_output_mtu m"
  using step_effects [OF assms(1,2)] assms(3) by (auto simp: fq_effects_def)

lemma Init_inv:
  assumes "PacketPassFairQueue_Init m0 output use_cancel packet_weight = Some (Some (m, output'))"
    "0 \<le> PacketPassInterface_GetMTU output" "PacketPassInterface_GetMTU output \<le> INT_MAX" "packet_weight \<le> INT_MAX"
  shows "fq_inv m [] []"
proof -
  have "0 < packet_weight" using assms(1) by (auto simp: PacketPassFairQueue_Init_def ASSERT_def split: if_splits)
  then have m: "fq_queued_tree m = SAvl_Init (fq_queued_tree m0) compare_flows" "fq_flows_list m = LinkedList1_Init (fq_flows_list m0)"
    "fq_sending_flow m = None" "fq_previous_flow m = None" "\<not> fq_freeing m" "\<not> fq_schedule_job m"
    "fq_packet_weight m = packet_weight" "fq_output_mtu m = PacketPassInterface_GetMTU output"
    using assms(1)
    by (auto simp: PacketPassFairQueue_Init_def Let_def ASSERT_def split: if_splits bind_splits)
  have "fq_tree_rep m []"
    using SAvl_Init_index(1) [of "flow_val m" "fq_queued_tree m0" "\<lambda>x. x"] m(1)
    by (simp add: fq_tree_rep_def compare_flows_lex SAvl_Init_index(2))
  then show ?thesis
    using m assms \<open>0 < packet_weight\<close>
    by (simp add: fq_inv_def fq_core_def fq_sending_ok_def fq_previous_ok_def l1_rep_def LinkedList1_Init_def INT_MAX_def)
qed

lemma fq_reachable_inv:
  assumes "fq_reachable m fs ins outs"
  obtains qs where "fq_inv m fs qs"
  using assms
proof (induction arbitrary: thesis)
  case (fq_init m0 out uc w m out')
  then show ?case using Init_inv by blast
next
  case (fq_event m fs ins outs e m' cs)
  from fq_event.IH obtain qs where "fq_inv m fs qs" by blast
  then show ?case using fq_effects_step [OF _ fq_event.hyps(2,3)] fq_event.prems by metis
qed

text \<open>What a flow has taken in is what it has given to the output and the packet it has queued.\<close>

definition fq_in_order :: "fair_queue \<Rightarrow> addr list \<Rightarrow> (addr \<Rightarrow> bytes list) \<Rightarrow> (addr \<Rightarrow> bytes list) \<Rightarrow> bool" where
  "fq_in_order m fs ins outs \<longleftrightarrow>
     (\<forall>f\<in>set fs. ins f = outs f @ (if ff_is_queued m f then [ff_data m f] else []))"

lemma fq_effect_in_order:
  assumes "fq_in_order m fs ins outs" "fq_event_ok m fs e" "fq_effect m fs e m' cs"
  shows "fq_in_order m' (fq_flows_after fs e) (fq_log_in ins e) (fq_log_out outs e m' cs)"
proof (cases e)
  case (FQ_Send f data)
  then show ?thesis using assms
    by (auto simp: fq_in_order_def fq_starts_def split: option.split if_splits)
next
  case FQ_Done
  then show ?thesis using assms by (auto simp: fq_in_order_def)
next
  case FQ_Job
  then show ?thesis using assms
    by (auto simp: fq_in_order_def fq_starts_def fq_queued_def split: if_splits)
next
  case (FQ_New f)
  then show ?thesis using assms by (auto simp: fq_in_order_def)
next
  case (FQ_Free f)
  then show ?thesis using assms
    by (auto simp: fq_in_order_def dest: set_remove1_subset [THEN subsetD] split: option.split if_splits)
qed

lemma fq_reachable_in_order: "fq_reachable m fs ins outs \<Longrightarrow> fq_in_order m fs ins outs"
proof (induction rule: fq_reachable.induct)
  case (fq_init m0 out uc w m out')
  then show ?case by (simp add: fq_in_order_def)
next
  case (fq_event m fs ins outs e m' cs)
  obtain qs where "fq_inv m fs qs" using fq_reachable_inv [OF fq_event.hyps(1)] .
  then obtain qs' where "fq_effect m fs e m' cs" using fq_effects_step [OF _ fq_event.hyps(2,3)] by metis
  then show ?case using fq_effect_in_order fq_event by blast
qed

text \<open>
  C6: In every reachable state of the fair queue, whatever its users did: each flow's packets have gone to
  the output in their order, with at most the last one still queued; a queued packet is being taken care
  of, because a packet is being sent or the schedule job is set; and every event the interfaces allow
  is handled without a failed assertion, giving the output no packet while it is busy and at
  most one otherwise.
\<close>

theorem fair_queue_forwards:
  assumes "fq_reachable m fs ins outs"
  shows "(\<forall>f\<in>set fs. ins f = outs f @ (if ff_is_queued m f then [ff_data m f] else [])) \<and>
    ((\<exists>f\<in>set fs. ff_is_queued m f) \<longrightarrow> fq_sending_flow m \<noteq> None \<or> fq_schedule_job m) \<and>
    (\<forall>e. fq_event_ok m fs e \<longrightarrow>
      (\<exists>m' cs. fq_step m e = Some (m', cs) \<and> length (fq_sent cs) \<le> (if fq_sending_flow m = None then 1 else 0)))"
proof (intro conjI)
  obtain qs where inv: "fq_inv m fs qs" using fq_reachable_inv [OF assms] .
  show "\<forall>f\<in>set fs. ins f = outs f @ (if ff_is_queued m f then [ff_data m f] else [])"
    using fq_reachable_in_order [OF assms] by (simp add: fq_in_order_def)
  show "(\<exists>f\<in>set fs. ff_is_queued m f) \<longrightarrow> fq_sending_flow m \<noteq> None \<or> fq_schedule_job m"
    using inv fq_queued_inv [OF inv] by (auto simp: fq_inv_def fq_queued_def)
  show "\<forall>e. fq_event_ok m fs e \<longrightarrow>
      (\<exists>m' cs. fq_step m e = Some (m', cs) \<and> length (fq_sent cs) \<le> (if fq_sending_flow m = None then 1 else 0))"
  proof (intro allI impI)
    fix e assume "fq_event_ok m fs e"
    then obtain m' cs where *: "fq_step m e = Some (m', cs)" "fq_effect m fs e m' cs"
      using step_effects [OF inv] unfolding fq_effects_def by blast
    have "length (fq_sent cs) \<le> (if fq_sending_flow m = None then 1 else 0)"
      using *(2) by (cases e) (auto simp: fq_sent_Nil split: if_splits)
    then show "\<exists>m' cs. fq_step m e = Some (m', cs) \<and> length (fq_sent cs) \<le> (if fq_sending_flow m = None then 1 else 0)"
      using *(1) by blast
  qed
qed

section \<open>No starvation\<close>

text \<open>
  \<open>fq_waiting f m fs n m' fs'\<close>: a run from m to m' in which flow f has the same packet
  queued all the time, no flow is created, and the output finishes n packets.
\<close>

inductive fq_waiting :: "addr \<Rightarrow> fair_queue \<Rightarrow> addr list \<Rightarrow> nat \<Rightarrow> fair_queue \<Rightarrow> addr list \<Rightarrow> bool" for f m fs where
  waiting_start: "f \<in> set fs \<Longrightarrow> ff_is_queued m f \<Longrightarrow> fq_waiting f m fs 0 m fs"
| waiting_event: "fq_waiting f m fs n m1 fs1 \<Longrightarrow> fq_event_ok m1 fs1 e \<Longrightarrow> fq_step m1 e = Some (m2, cs) \<Longrightarrow>
     (\<And>g. e \<noteq> FQ_New g) \<Longrightarrow> e \<noteq> FQ_Free f \<Longrightarrow> ff_is_queued m2 f \<Longrightarrow>
     fq_waiting f m fs (if e = FQ_Done then Suc n else n) m2 (fq_flows_after fs1 e)"

text \<open>How much the other flows may still send before it is the turn of flow f.\<close>

definition fq_turn :: "fair_queue \<Rightarrow> addr list \<Rightarrow> addr \<Rightarrow> nat" where
  "fq_turn m fs f = (\<Sum>g\<in>set fs. unat (ff_time m f) + nat (fq_packet_weight m) - unat (ff_time m g))"

lemma fq_turn_mono:
  assumes "set fs' \<subseteq> set fs" "fq_packet_weight m' = fq_packet_weight m" "ff_time m' f = ff_time m f"
    "\<And>g. g \<in> set fs' \<Longrightarrow> ff_time m g \<le> ff_time m' g"
  shows "fq_turn m' fs' f \<le> fq_turn m fs f"
proof -
  have "fq_turn m' fs' f \<le> fq_turn m fs' f"
    unfolding fq_turn_def using assms(2-4) by (intro sum_mono) (simp add: word_le_nat_alt diff_le_mono2)
  also have "\<dots> \<le> fq_turn m fs f"
    unfolding fq_turn_def using assms(1) by (intro sum_mono2) auto
  finally show ?thesis .
qed

lemma fq_turn_done:
  assumes inv: "fq_inv m fs qs" and eff: "fq_effect m fs FQ_Done m' cs" and f: "f \<in> set fs" "ff_is_queued m f"
    and w: "fq_packet_weight m' = fq_packet_weight m"
  shows "fq_turn m' fs f + nat (fq_packet_weight m) \<le> fq_turn m fs f"
proof -
  let ?w = "nat (fq_packet_weight m)"
  obtain s sub where s: "fq_sending_flow m = Some s" and
    t: "\<And>g. g \<in> set fs \<Longrightarrow> unat (ff_time m' g) = unat (ff_time m g) + (if g = s then fq_amount m else 0) - sub" and
    sub: "sub \<le> unat (ff_time m s) + fq_amount m" "\<And>q. q \<in> fq_queued m fs \<Longrightarrow> sub \<le> unat (ff_time m q)"
    using eff by auto
  have s': "s \<in> set fs" "\<not> ff_is_queued m s" "ff_time m s \<le> ff_time m f" "?w \<le> fq_amount m"
    using inv s f fq_queued_inv [OF inv] by (auto simp: fq_inv_def fq_sending_ok_def fq_queued_def fq_amount_def)
  have tf: "unat (ff_time m' f) = unat (ff_time m f) - sub" "sub \<le> unat (ff_time m f)"
    using t [OF f(1)] s'(2) f sub(2) by (auto simp: fq_queued_def)
  let ?old = "\<lambda>g. unat (ff_time m f) + ?w - unat (ff_time m g)"
  let ?new = "\<lambda>g. unat (ff_time m' f) + ?w - unat (ff_time m' g)"
  have other: "?new g \<le> ?old g" if "g \<in> set fs - {s}" for g
    using that t [of g] tf by auto
  have "unat (ff_time m s) \<le> unat (ff_time m f)" using s'(3) by (simp add: word_le_nat_alt)
  then have own: "?new s + ?w \<le> ?old s" using t [OF s'(1)] tf sub(1) s'(4) by simp
  have "fq_turn m' fs f + ?w = (?new s + ?w) + sum ?new (set fs - {s})"
    unfolding fq_turn_def w using s'(1) by (simp add: sum.remove [of "set fs" s])
  also have "\<dots> \<le> ?old s + sum ?old (set fs - {s})"
    using own sum_mono [of "set fs - {s}" ?new ?old] other by (intro add_mono) auto
  also have "\<dots> = fq_turn m fs f"
    unfolding fq_turn_def using s'(1) by (simp add: sum.remove [of "set fs" s])
  finally show ?thesis .
qed

lemma fq_waiting_turn:
  assumes "fq_waiting f m fs n m' fs'" "fq_inv m fs qs"
  shows "\<exists>qs'. fq_inv m' fs' qs' \<and> f \<in> set fs' \<and> ff_is_queued m' f \<and> fq_packet_weight m' = fq_packet_weight m \<and>
    fq_turn m' fs' f + n * nat (fq_packet_weight m) \<le> fq_turn m fs f"
  using assms
proof (induction rule: fq_waiting.induct)
  case waiting_start
  then show ?case by auto
next
  case (waiting_event n m1 fs1 e m2 cs)
  then obtain qs1 where I: "fq_inv m1 fs1 qs1" "f \<in> set fs1" "ff_is_queued m1 f" "fq_packet_weight m1 = fq_packet_weight m"
    "fq_turn m1 fs1 f + n * nat (fq_packet_weight m) \<le> fq_turn m fs f" by blast
  obtain qs2 where J: "fq_inv m2 (fq_flows_after fs1 e) qs2" "fq_effect m1 fs1 e m2 cs"
    "fq_packet_weight m2 = fq_packet_weight m1"
    using fq_effects_step [OF I(1) waiting_event.hyps(2,3)] by metis
  have D: "distinct fs1" using I(1) by (simp add: fq_inv_def fq_core_def l1_rep_def)
  have "fq_turn m2 (fq_flows_after fs1 e) f + (if e = FQ_Done then nat (fq_packet_weight m) else 0) \<le> fq_turn m1 fs1 f"
  proof (cases e)
    case (FQ_Send g data)
    then show ?thesis using J(2,3) I(3) waiting_event.hyps(2)
      by (auto intro!: fq_turn_mono simp: fq_entry_time_def split: if_splits)
  next
    case FQ_Done
    then have "fq_effect m1 fs1 FQ_Done m2 cs" using J(2) by blast
    from fq_turn_done [OF I(1) this I(2,3) J(3)] show ?thesis using FQ_Done I(4) by simp
  next
    case FQ_Job
    then show ?thesis using J by (auto intro!: fq_turn_mono)
  next
    case (FQ_Free g)
    then show ?thesis using J by (auto intro!: fq_turn_mono dest: set_remove1_subset [THEN subsetD])
  qed (use waiting_event.hyps(4) in auto)
  moreover have "f \<in> set (fq_flows_after fs1 e)"
    using I(2) waiting_event.hyps(4,5) D by (cases e) auto
  ultimately show ?case using J I waiting_event.hyps(6) by (auto simp: algebra_simps)
qed


section \<open>Fairness\<close>

text \<open>The time one packet can cost at most.\<close>

definition fq_packet_max :: "fair_queue \<Rightarrow> nat" where
  "fq_packet_max m = nat (fq_packet_weight m + fq_output_mtu m)"

text \<open>No flow is ahead of an active one by more than one packet.\<close>

definition fq_spread :: "fair_queue \<Rightarrow> addr list \<Rightarrow> bool" where
  "fq_spread m fs \<longleftrightarrow> (\<forall>g\<in>set fs. fq_active m g \<longrightarrow>
     (\<forall>h\<in>set fs. unat (ff_time m h) \<le> unat (ff_time m g) + fq_packet_max m))"

text \<open>
  \<open>fq_busy A m fs served m' fs'\<close>: a run from m to m' in which all flows of A stay active;
  \<open>served\<close> is what the queue has sent for each flow, counted in bytes and weights.
\<close>

inductive fq_busy :: "addr set \<Rightarrow> fair_queue \<Rightarrow> addr list \<Rightarrow> (addr \<Rightarrow> nat) \<Rightarrow> fair_queue \<Rightarrow> addr list \<Rightarrow> bool" for A m fs where
  busy_start: "A \<subseteq> set fs \<Longrightarrow> (\<And>f. f \<in> A \<Longrightarrow> fq_active m f) \<Longrightarrow> fq_busy A m fs (\<lambda>f. 0) m fs"
| busy_event: "fq_busy A m fs served m1 fs1 \<Longrightarrow> fq_event_ok m1 fs1 e \<Longrightarrow> fq_step m1 e = Some (m2, cs) \<Longrightarrow>
     A \<subseteq> set (fq_flows_after fs1 e) \<Longrightarrow> (\<And>f. f \<in> A \<Longrightarrow> fq_active m2 f) \<Longrightarrow>
     fq_busy A m fs (\<lambda>f. served f + (if e = FQ_Done \<and> fq_sending_flow m1 = Some f then fq_amount m1 else 0))
       m2 (fq_flows_after fs1 e)"

lemma fq_entry_time_spread:
  assumes "fq_spread m fs" "fq_entry_time m fs f time" "f \<in> set fs" "a \<in> set fs" "fq_active m a" "h \<in> set fs"
  shows "unat (ff_time m h) \<le> unat time + fq_packet_max m"
    and "g \<in> set fs \<Longrightarrow> fq_active m g \<Longrightarrow> unat time \<le> unat (ff_time m g) + fq_packet_max m"
proof -
  have S: "\<And>g h. g \<in> set fs \<Longrightarrow> fq_active m g \<Longrightarrow> h \<in> set fs \<Longrightarrow> unat (ff_time m h) \<le> unat (ff_time m g) + fq_packet_max m"
    using assms(1) by (simp add: fq_spread_def)
  have "\<exists>g\<in>set fs. fq_active m g \<and> (time = ff_time m g \<or> time = ff_time m f \<and> ff_time m g \<le> time)"
  proof (cases "fq_previous_flow m = Some f")
    case True
    then show ?thesis using assms(2,3) by (auto simp: fq_entry_time_def fq_active_def)
  next
    case False
    then obtain g where "g \<in> set fs" "fq_active m g" "time = max (ff_time m f) (ff_time m g)"
      using assms(2,4,5) by (auto simp: fq_entry_time_def split: if_splits)
    then show ?thesis by (auto simp: max_def)
  qed
  then obtain g0 where g0: "g0 \<in> set fs" "fq_active m g0" "time = ff_time m g0 \<or> time = ff_time m f \<and> ff_time m g0 \<le> time"
    by blast
  then have "unat (ff_time m g0) \<le> unat time" by (auto simp: word_le_nat_alt)
  then show "unat (ff_time m h) \<le> unat time + fq_packet_max m"
    using S [OF g0(1,2) assms(6)] by linarith
  show "unat time \<le> unat (ff_time m g) + fq_packet_max m" if "g \<in> set fs" "fq_active m g"
    using S [OF that] g0 assms(3) by auto
qed

lemma fq_effect_spread:
  assumes inv: "fq_inv m fs qs" "fq_event_ok m fs e" and eff: "fq_effect m fs e m' cs" and S: "fq_spread m fs"
    and a: "a \<in> set fs" "fq_active m a" and W: "fq_packet_max m' = fq_packet_max m"
  shows "fq_spread m' (fq_flows_after fs e)"
proof (cases e)
  case (FQ_Send f data)
  then obtain time where t: "ff_time m' = (ff_time m)(f := time)" "fq_entry_time m fs f time" and f: "f \<in> set fs"
    using eff inv(2) by auto
  have act: "fq_active m' g \<longleftrightarrow> g = f \<or> fq_active m g" for g
    using FQ_Send eff inv(2) by (auto simp: fq_active_def fq_starts_def split: if_splits)
  show ?thesis
    using fq_entry_time_spread [OF S t(2) f a] S t(1) act FQ_Send f unfolding fq_spread_def W by auto
next
  case FQ_Done
  obtain s sub where s: "fq_sending_flow m = Some s" and
    t: "\<And>g. g \<in> set fs \<Longrightarrow> unat (ff_time m' g) = unat (ff_time m g) + (if g = s then fq_amount m else 0) - sub" and
    sub: "sub \<le> unat (ff_time m s) + fq_amount m" "\<And>q. q \<in> fq_queued m fs \<Longrightarrow> sub \<le> unat (ff_time m q)"
    using eff FQ_Done by auto
  have s': "s \<in> set fs" "\<And>q. q \<in> fq_queued m fs \<Longrightarrow> unat (ff_time m s) \<le> unat (ff_time m q)" "fq_amount m \<le> fq_packet_max m"
    using inv(1) s fq_queued_inv [OF inv(1)]
    by (auto simp: fq_inv_def fq_sending_ok_def fq_queued_def fq_amount_def fq_packet_max_def word_le_nat_alt)
  have old: "unat (ff_time m h) \<le> unat (ff_time m g) + fq_packet_max m" if "g \<in> set fs" "fq_active m g" "h \<in> set fs" for g h
    using S that by (simp add: fq_spread_def)
  have "unat (ff_time m' h) \<le> unat (ff_time m' g) + fq_packet_max m"
    if g: "g \<in> set fs" "fq_active m' g" and h: "h \<in> set fs" for g h
  proof (cases "g = s")
    case True
    then have "unat (ff_time m h) \<le> unat (ff_time m s) + fq_packet_max m" using old [OF s'(1) _ h] s by (simp add: fq_active_def)
    then show ?thesis using t [OF g(1)] t [OF h] True sub(1) s'(3) by auto
  next
    case False
    then have q: "g \<in> fq_queued m fs" using FQ_Done eff g s by (auto simp: fq_active_def fq_queued_def)
    then have "unat (ff_time m h) \<le> unat (ff_time m g) + fq_packet_max m" using old [OF g(1) _ h] by (simp add: fq_active_def fq_queued_def)
    then show ?thesis using t [OF g(1)] t [OF h] False sub(2) [OF q] s'(2) [OF q] s'(3) by auto
  qed
  then show ?thesis using FQ_Done W by (simp add: fq_spread_def)
next
  case FQ_Job
  then have "ff_time m' = ff_time m" "\<And>g. g \<in> set fs \<Longrightarrow> fq_active m' g \<Longrightarrow> fq_active m g"
    using eff by (auto simp: fq_active_def fq_starts_def fq_queued_def split: if_splits)
  then show ?thesis using S FQ_Job W by (auto simp: fq_spread_def)
next
  case (FQ_New f)
  have "fq_sending_flow m \<noteq> Some f" "fq_previous_flow m \<noteq> Some f"
    using inv FQ_New by (auto simp: fq_inv_def fq_sending_ok_def fq_previous_ok_def)
  then show ?thesis
    using FQ_New eff S W by (auto simp: fq_spread_def fq_active_def)
next
  case (FQ_Free f)
  then have "ff_time m' = ff_time m" "\<And>g. fq_active m' g \<Longrightarrow> fq_active m g"
    using eff by (auto simp: fq_active_def split: if_splits)
  moreover have "set (fq_flows_after fs e) \<subseteq> set fs" using FQ_Free by (simp add: set_remove1_subset)
  ultimately show ?thesis
    using S unfolding fq_spread_def W by (metis subsetD)
qed

text \<open>
  While a flow is active, its time is what it was, plus what the queue has sent for it, less a common
  amount.
\<close>

lemma fq_effect_time:
  assumes inv: "fq_inv m fs qs" "fq_event_ok m fs e" and eff: "fq_effect m fs e m' cs"
  shows "\<exists>sub. \<forall>f\<in>set fs. fq_active m f \<longrightarrow> e \<noteq> FQ_Free f \<longrightarrow>
    unat (ff_time m' f) + sub = unat (ff_time m f) + (if e = FQ_Done \<and> fq_sending_flow m = Some f then fq_amount m else 0)"
proof (cases "e = FQ_Done")
  case True
  then obtain s sub where s: "fq_sending_flow m = Some s" and
    t: "\<And>g. g \<in> set fs \<Longrightarrow> unat (ff_time m' g) = unat (ff_time m g) + (if g = s then fq_amount m else 0) - sub" and
    sub: "sub \<le> unat (ff_time m s) + fq_amount m" "\<And>q. q \<in> fq_queued m fs \<Longrightarrow> sub \<le> unat (ff_time m q)"
    using eff by auto
  have "fq_previous_flow m = None" using inv(1) s by (simp add: fq_inv_def fq_sending_ok_def)
  then have "f = s \<or> f \<in> fq_queued m fs" if "f \<in> set fs" "fq_active m f" for f
    using that s by (auto simp: fq_active_def fq_queued_def)
  then show ?thesis using True s t sub by (intro exI [of _ sub]) fastforce
next
  case False
  have "ff_time m' f = ff_time m f" if "f \<in> set fs" "fq_active m f" for f
    using False inv eff that by (cases e) (auto simp: fq_entry_time_def fq_active_def)
  then show ?thesis using False by (intro exI [of _ 0]) auto
qed

lemma fq_busy_time:
  assumes "fq_busy A m fs served m' fs'" "fq_inv m fs qs" "fq_spread m fs" "a \<in> A"
  shows "\<exists>qs' sub. fq_inv m' fs' qs' \<and> fq_spread m' fs' \<and> A \<subseteq> set fs' \<and> (\<forall>f\<in>A. fq_active m' f) \<and>
    fq_packet_max m' = fq_packet_max m \<and> (\<forall>f\<in>A. unat (ff_time m' f) + sub = unat (ff_time m f) + served f)"
  using assms
proof (induction rule: fq_busy.induct)
  case busy_start
  then show ?case by (auto intro!: exI [of _ qs])
next
  case (busy_event served m1 fs1 e m2 cs)
  then obtain qs1 sub1 where I: "fq_inv m1 fs1 qs1" "fq_spread m1 fs1" "A \<subseteq> set fs1" "\<And>f. f \<in> A \<Longrightarrow> fq_active m1 f"
    "fq_packet_max m1 = fq_packet_max m" "\<And>f. f \<in> A \<Longrightarrow> unat (ff_time m1 f) + sub1 = unat (ff_time m f) + served f"
    by blast
  obtain qs2 where J: "fq_inv m2 (fq_flows_after fs1 e) qs2" "fq_effect m1 fs1 e m2 cs"
    "fq_packet_weight m2 = fq_packet_weight m1" "fq_output_mtu m2 = fq_output_mtu m1"
    using fq_effects_step [OF I(1) busy_event.hyps(2,3)] by metis
  have "distinct fs1" using I(1) by (simp add: fq_inv_def fq_core_def l1_rep_def)
  then have "e \<noteq> FQ_Free f" if "f \<in> A" for f using busy_event.hyps(4) that by auto
  then obtain sub2 where s2: "\<And>f. f \<in> A \<Longrightarrow> unat (ff_time m2 f) + sub2 =
      unat (ff_time m1 f) + (if e = FQ_Done \<and> fq_sending_flow m1 = Some f then fq_amount m1 else 0)"
    using fq_effect_time [OF I(1) busy_event.hyps(2) J(2)] I(3,4) by (metis subsetD)
  have W: "fq_packet_max m2 = fq_packet_max m1" using J(3,4) by (simp add: fq_packet_max_def)
  have "fq_spread m2 (fq_flows_after fs1 e)"
    using fq_effect_spread [OF I(1) busy_event.hyps(2) J(2) I(2) _ _ W] I(3,4) busy_event.prems(3) by blast
  moreover have "\<forall>f\<in>A. unat (ff_time m2 f) + (sub1 + sub2) = unat (ff_time m f) +
      (served f + (if e = FQ_Done \<and> fq_sending_flow m1 = Some f then fq_amount m1 else 0))"
  proof
    fix f assume "f \<in> A"
    then show "unat (ff_time m2 f) + (sub1 + sub2) = unat (ff_time m f) +
      (served f + (if e = FQ_Done \<and> fq_sending_flow m1 = Some f then fq_amount m1 else 0))"
      using s2 [of f] I(6) [of f] by linarith
  qed
  ultimately show ?case
    using J(1) W I(5) busy_event.hyps(4,5) by metis
qed


section \<open>Concrete runs\<close>

text \<open>A run in which the flows A stay active, with what the queue sends for each flow.\<close>

fun fq_run :: "addr list \<Rightarrow> fair_queue \<Rightarrow> addr list \<Rightarrow> (addr \<Rightarrow> nat) \<Rightarrow> fq_event list \<Rightarrow>
    (fair_queue \<times> addr list \<times> (addr \<Rightarrow> nat)) option" where
  "fq_run A m fs served [] = Some (m, fs, served)"
| "fq_run A m fs served (e # es) =
     do {
       ASSERT (fq_event_ok m fs e);
       (m', _) \<leftarrow> fq_step m e;
       let fs' = fq_flows_after fs e;
       ASSERT (\<forall>f\<in>set A. f \<in> set fs' \<and> fq_active m' f);
       fq_run A m' fs'
         (\<lambda>f. served f + (if e = FQ_Done \<and> fq_sending_flow m = Some f then fq_amount m else 0)) es
     }"

definition fq_sample :: fair_queue where
  "fq_sample = \<lparr>fq_output_mtu = 2, fq_use_cancel = False, fq_packet_weight = 1, fq_sending_flow = None,
     fq_sending_len = 0, fq_previous_flow = None,
     fq_queued_tree = \<lparr>bt_comparator = compare_flows, bt_root = None, bt_parent = (\<lambda>_. None),
       bt_link = (\<lambda>_ _. None), bt_balance = (\<lambda>_. 0)\<rparr>,
     fq_flows_list = \<lparr>l1_first = None, l1_last = None, l1_p = (\<lambda>_. None), l1_n = (\<lambda>_. None)\<rparr>,
     fq_freeing = False, fq_schedule_job = False, ff_time = (\<lambda>_. 0), ff_is_queued = (\<lambda>_. False),
     ff_data = (\<lambda>_. []), ff_handler_busy = (\<lambda>_. None)\<rparr>"

lemma fq_sample_reachable: "fq_reachable fq_sample [] (\<lambda>f. []) (\<lambda>f. [])"
proof -
  let ?out = "\<lparr>ppi_mtu = 2, ppi_handler_requestcancel = False, ppi_handler_done = False, ppi_job_operation = 0,
     ppi_job_operation_data = [], ppi_job_requestcancel = 0, ppi_job_done = 0, ppi_state = PPI_STATE_NONE,
     ppi_cancel_requested = False\<rparr>"
  have "(1 :: u64) \<le> - 3" by code_simp
  then have "\<exists>out'. PacketPassFairQueue_Init fq_sample ?out False 1 = Some (Some (fq_sample, out'))"
    by (simp add: PacketPassFairQueue_Init_def Let_def PacketPassInterface_GetMTU_def PacketPassInterface_Sender_Init_def
        fq_sample_def SAvl_Init_def CAvl_Init_def LinkedList1_Init_def)
  then show ?thesis using fq_init [of fq_sample ?out False 1] by (auto simp: PacketPassInterface_GetMTU_def INT_MAX_def)
qed

lemma fq_run_Cons:
  assumes "fq_run A m fs served (e # es) = Some r"
  obtains m1 cs where "fq_event_ok m fs e" "fq_step m e = Some (m1, cs)"
    "set A \<subseteq> set (fq_flows_after fs e)" "\<And>f. f \<in> set A \<Longrightarrow> fq_active m1 f"
    "fq_run A m1 (fq_flows_after fs e)
      (\<lambda>f. served f + (if e = FQ_Done \<and> fq_sending_flow m = Some f then fq_amount m else 0)) es = Some r"
proof -
  obtain m1 cs where *: "fq_event_ok m fs e" "fq_step m e = Some (m1, cs)"
    "\<forall>f\<in>set A. f \<in> set (fq_flows_after fs e) \<and> fq_active m1 f"
    "fq_run A m1 (fq_flows_after fs e)
      (\<lambda>f. served f + (if e = FQ_Done \<and> fq_sending_flow m = Some f then fq_amount m else 0)) es = Some r"
    using assms by (auto simp: ASSERT_def Let_def split: bind_splits if_splits)
  from *(1,2) _ _ *(4) show thesis by (rule that) (use *(3) in auto)
qed

lemma fq_run_reachable:
  assumes "fq_run A m fs served es = Some (m', fs', served')" "fq_reachable m fs ins outs"
  shows "\<exists>ins' outs'. fq_reachable m' fs' ins' outs'"
  using assms
proof (induction es arbitrary: m fs served ins outs)
  case (Cons e es)
  from Cons.prems(1) show ?case
    by (rule fq_run_Cons) (use Cons.IH Cons.prems(2) fq_event in blast)
qed auto

lemma fq_run_busy:
  assumes "fq_run A m fs served es = Some (m', fs', served')" "fq_busy (set A) m0 fs0 served m fs"
  shows "fq_busy (set A) m0 fs0 served' m' fs'"
  using assms
proof (induction es arbitrary: m fs served)
  case (Cons e es)
  from Cons.prems(1) show ?case
    by (rule fq_run_Cons) (rule Cons.IH, assumption, rule busy_event [OF Cons.prems(2)])
qed auto

text \<open>The state after some events of the sample queue, and its properties, by evaluation.\<close>

definition fq_after :: "fq_event list \<Rightarrow> fair_queue" where
  "fq_after es = (case fq_run [] fq_sample [] (\<lambda>f. 0) es of Some (m, _) \<Rightarrow> m | None \<Rightarrow> fq_sample)"

lemma fq_after_reachable:
  assumes "case fq_run [] fq_sample [] (\<lambda>f. 0) es of Some (m, fs', _) \<Rightarrow> fs' = fs | None \<Rightarrow> False"
  obtains ins outs where "fq_reachable (fq_after es) fs ins outs"
proof -
  obtain m served where run: "fq_run [] fq_sample [] (\<lambda>f. 0) es = Some (m, fs, served)"
    using assms by (auto split: option.splits)
  then have "fq_after es = m" by (simp add: fq_after_def)
  then show thesis using fq_run_reachable [OF run fq_sample_reachable] that by blast
qed

theorem fair_queue_forwards_witness:
  "\<exists>ins outs. fq_reachable (fq_after [FQ_New 1, FQ_New 2, FQ_Send 1 [7], FQ_Send 2 [8, 9]]) [1, 2] ins outs \<and>
     ins 2 = outs 2 @ [[8, 9]]"
proof -
  let ?es = "[FQ_New 1, FQ_New 2, FQ_Send 1 [7], FQ_Send 2 [8, 9]]"
  have "case fq_run [] fq_sample [] (\<lambda>f. 0) ?es of Some (m, fs', _) \<Rightarrow> fs' = [1, 2] | None \<Rightarrow> False" by code_simp
  then obtain ins outs where r: "fq_reachable (fq_after ?es) [1, 2] ins outs" by (rule fq_after_reachable)
  have "ff_is_queued (fq_after ?es) 2 \<and> ff_data (fq_after ?es) 2 = [8, 9]" by code_simp
  then show ?thesis using fair_queue_forwards [OF r] r by auto
qed



text \<open>
  C30: The raising of the times does not survive an idle moment: while nothing is queued, being sent or just
  sent, the current time is 0, so a flow that starts to send then keeps its old time.  There is a run
  from a reachable state in which two flows stay active all the time and one is served for more than two maximal
  packets, the other not at all.
\<close>

theorem idle_restart_unfair:
  "\<exists>m fs ins outs served m' fs'. fq_reachable m fs ins outs \<and> fq_busy {1, 2} m fs served m' fs' \<and>
     2 * nat (fq_packet_weight m + fq_output_mtu m) < served 2 \<and> served 1 = 0"
proof -
  let ?p = "[0, 0]"
  let ?es = "[FQ_New 1, FQ_New 2, FQ_Send 1 ?p, FQ_Done, FQ_Send 1 ?p, FQ_Job, FQ_Done, FQ_Send 1 ?p, FQ_Job, FQ_Done,
      FQ_Job, FQ_Send 2 ?p, FQ_Send 1 ?p]"
    and ?run = "[FQ_Done, FQ_Send 2 ?p, FQ_Job, FQ_Done, FQ_Send 2 ?p, FQ_Job, FQ_Done]"
  have "case fq_run [] fq_sample [] (\<lambda>f. 0) ?es of Some (m, fs', _) \<Rightarrow> fs' = [1, 2] | None \<Rightarrow> False" by code_simp
  then obtain ins outs where r: "fq_reachable (fq_after ?es) [1, 2] ins outs" by (rule fq_after_reachable)
  have a: "fq_active (fq_after ?es) 1" "fq_active (fq_after ?es) 2"
    and w: "fq_packet_weight (fq_after ?es) + fq_output_mtu (fq_after ?es) = 3" by code_simp+
  have "case fq_run [1, 2] (fq_after ?es) [1, 2] (\<lambda>f. 0) ?run of Some (m, fs, served) \<Rightarrow> 6 < served 2 \<and> served 1 = 0 | None \<Rightarrow> False"
    by code_simp
  then obtain m fs served where run: "fq_run [1, 2] (fq_after ?es) [1, 2] (\<lambda>f. 0) ?run = Some (m, fs, served)"
    "6 < served 2" "served 1 = 0"
    by (auto split: option.splits)
  have "fq_busy (set [1, 2]) (fq_after ?es) [1, 2] served m fs"
    by (rule fq_run_busy [OF run(1)], rule busy_start) (use a in auto)
  then have busy: "fq_busy {1, 2} (fq_after ?es) [1, 2] served m fs" by simp
  have "2 * nat (fq_packet_weight (fq_after ?es) + fq_output_mtu (fq_after ?es)) < served 2" using w run(2) by simp
  then show ?thesis using r busy run(3) by blast
qed

end
