(* ===== verification/Flow_Monitors.thy ===== *)
theory Flow_Monitors
  imports Fair_Queue
begin

text \<open>
  flow/PacketPassConnector.c and flowextra/PacketPassInactivityMonitor.c, the two layers between the
  send queue of the udpgw client and its server connection.  The first holds a packet while there is no
  output and hands it to the next one; the second runs a timer while no packet is being sent.

  As in Fair_Queue.thy, a handler returns None where an ASSERT fails, and otherwise the new state with the
  calls it makes.  Each layer is closed with its neighbours, which keep to the PacketPassInterface
  protocol of Packet_Pass_Interface.thy: one packet at a time, done once for each packet.
\<close>

section \<open>flow/PacketPassConnector.c\<close>

text \<open>The field in_len is -1 when there is no packet; \<open>ppc_in\<close> is the packet the pointer in refers to.\<close>

record packet_pass_connector =
  ppc_input_mtu :: int
  ppc_in_len :: int
  ppc_in :: bytes
  ppc_output :: bool

datatype ppc_call =
    PPC_Output_Init
  | PPC_Output_Send bytes
  | PPC_Input_Done

definition PacketPassConnector_input_handler_send ::
    "packet_pass_connector \<Rightarrow> bytes \<Rightarrow> (packet_pass_connector \<times> ppc_call list) option" where
  "PacketPassConnector_input_handler_send c data =
     do {
       ASSERT (int (length data) \<le> ppc_input_mtu c);
       ASSERT (ppc_in_len c = -1);
       let c = c\<lparr>ppc_in_len := int (length data), ppc_in := data\<rparr>;
       Some (c, if ppc_output c then [PPC_Output_Send (ppc_in c)] else [])
     }"

definition PacketPassConnector_output_handler_done ::
    "packet_pass_connector \<Rightarrow> (packet_pass_connector \<times> ppc_call list) option" where
  "PacketPassConnector_output_handler_done c =
     do {
       ASSERT (ppc_in_len c \<ge> 0);
       ASSERT (ppc_output c);
       Some (c\<lparr>ppc_in_len := -1\<rparr>, [PPC_Input_Done])
     }"

definition PacketPassConnector_Init :: "packet_pass_connector \<Rightarrow> int \<Rightarrow> packet_pass_connector option" where
  "PacketPassConnector_Init c mtu =
     do {
       ASSERT (mtu \<ge> 0);
       Some (c\<lparr>ppc_input_mtu := mtu, ppc_in_len := -1, ppc_output := False\<rparr>)
     }"

definition PacketPassConnector_ConnectOutput ::
    "packet_pass_connector \<Rightarrow> int \<Rightarrow> (packet_pass_connector \<times> ppc_call list) option" where
  "PacketPassConnector_ConnectOutput c output_mtu =
     do {
       ASSERT (\<not> ppc_output c);
       ASSERT (output_mtu \<ge> ppc_input_mtu c);
       let c = c\<lparr>ppc_output := True\<rparr>;
       Some (c, [PPC_Output_Init] @ (if ppc_in_len c \<ge> 0 then [PPC_Output_Send (ppc_in c)] else []))
     }"

definition PacketPassConnector_DisconnectOutput :: "packet_pass_connector \<Rightarrow> packet_pass_connector option" where
  "PacketPassConnector_DisconnectOutput c =
     do { ASSERT (ppc_output c); Some (c\<lparr>ppc_output := False\<rparr>) }"

section \<open>flowextra/PacketPassInactivityMonitor.c\<close>

text \<open>The timer is the flag whether it is running; a timer that expires is stopped before its handler runs.\<close>

record inactivity_monitor =
  pim_handler :: bool
  pim_timer :: bool

datatype pim_call =
    PIM_Output_Init
  | PIM_Output_Send bytes
  | PIM_Output_RequestCancel
  | PIM_Input_Done
  | PIM_Handler

definition PacketPassInactivityMonitor_input_handler_send ::
    "inactivity_monitor \<Rightarrow> bytes \<Rightarrow> inactivity_monitor \<times> pim_call list" where
  "PacketPassInactivityMonitor_input_handler_send m data = (m\<lparr>pim_timer := False\<rparr>, [PIM_Output_Send data])"

definition PacketPassInactivityMonitor_input_handler_requestcancel ::
    "inactivity_monitor \<Rightarrow> inactivity_monitor \<times> pim_call list" where
  "PacketPassInactivityMonitor_input_handler_requestcancel m = (m, [PIM_Output_RequestCancel])"

definition PacketPassInactivityMonitor_output_handler_done ::
    "inactivity_monitor \<Rightarrow> inactivity_monitor \<times> pim_call list" where
  "PacketPassInactivityMonitor_output_handler_done m = (m\<lparr>pim_timer := True\<rparr>, [PIM_Input_Done])"

definition PacketPassInactivityMonitor_timer_handler ::
    "inactivity_monitor \<Rightarrow> inactivity_monitor \<times> pim_call list" where
  "PacketPassInactivityMonitor_timer_handler m =
     (let m = m\<lparr>pim_timer := True\<rparr> in (m, if pim_handler m then [PIM_Handler] else []))"

definition PacketPassInactivityMonitor_Init ::
    "inactivity_monitor \<Rightarrow> bool \<Rightarrow> inactivity_monitor \<times> pim_call list" where
  "PacketPassInactivityMonitor_Init m handler =
     (let m = m\<lparr>pim_handler := handler\<rparr> in (m\<lparr>pim_timer := True\<rparr>, [PIM_Output_Init]))"

definition PacketPassInactivityMonitor_Free :: "inactivity_monitor \<Rightarrow> inactivity_monitor" where
  "PacketPassInactivityMonitor_Free m = m\<lparr>pim_timer := False\<rparr>"

definition PacketPassInactivityMonitor_SetHandler :: "inactivity_monitor \<Rightarrow> bool \<Rightarrow> inactivity_monitor" where
  "PacketPassInactivityMonitor_SetHandler m handler = m\<lparr>pim_handler := handler\<rparr>"

definition PacketPassInactivityMonitor_Force :: "inactivity_monitor \<Rightarrow> inactivity_monitor" where
  "PacketPassInactivityMonitor_Force m = m\<lparr>pim_timer := True\<rparr>"

section \<open>The connector between its neighbours\<close>

text \<open>
  \<open>cs_out\<close> is the packet the connected output is working on, \<open>cs_taken\<close> the packets the input has
  handed over, \<open>cs_done\<close> those it was told are done, \<open>cs_sent\<close> all packets given to outputs.
\<close>

record connector_system =
  cs_conn :: packet_pass_connector
  cs_out :: "bytes option"
  cs_taken :: "bytes list"
  cs_done :: "bytes list"
  cs_sent :: "bytes list"

datatype connector_event =
    Conn_Send bytes
  | Conn_Done
  | Conn_Connect int
  | Conn_Disconnect

definition conn_busy :: "connector_system \<Rightarrow> bool" where
  "conn_busy s \<longleftrightarrow> length (cs_done s) < length (cs_taken s)"

text \<open>The calls of the connector; giving the output a second packet before it is done is not allowed.\<close>

fun conn_issue :: "ppc_call list \<Rightarrow> connector_system \<Rightarrow> connector_system option" where
  "conn_issue [] s = Some s"
| "conn_issue (PPC_Output_Init # cs) s = conn_issue cs (s\<lparr>cs_out := None\<rparr>)"
| "conn_issue (PPC_Output_Send p # cs) s =
     (if cs_out s \<noteq> None then None
      else conn_issue cs (s\<lparr>cs_out := Some p, cs_sent := cs_sent s @ [p]\<rparr>))"
| "conn_issue (PPC_Input_Done # cs) s =
     (if \<not> conn_busy s then None
      else conn_issue cs (s\<lparr>cs_done := cs_done s @ [cs_taken s ! length (cs_done s)]\<rparr>))"

fun conn_step :: "connector_event \<Rightarrow> connector_system \<Rightarrow> connector_system option" where
  "conn_step (Conn_Send p) s =
     do { (c, cs) \<leftarrow> PacketPassConnector_input_handler_send (cs_conn s) p;
          conn_issue cs (s\<lparr>cs_conn := c, cs_taken := cs_taken s @ [p]\<rparr>) }"
| "conn_step Conn_Done s =
     do { (c, cs) \<leftarrow> PacketPassConnector_output_handler_done (cs_conn s);
          conn_issue cs (s\<lparr>cs_conn := c, cs_out := None\<rparr>) }"
| "conn_step (Conn_Connect mtu) s =
     do { (c, cs) \<leftarrow> PacketPassConnector_ConnectOutput (cs_conn s) mtu;
          conn_issue cs (s\<lparr>cs_conn := c\<rparr>) }"
| "conn_step Conn_Disconnect s =
     do { c \<leftarrow> PacketPassConnector_DisconnectOutput (cs_conn s);
          Some (s\<lparr>cs_conn := c, cs_out := None\<rparr>) }"

text \<open>What the neighbours may do: the input sends when it is not waiting, the output finishes the packet it has, and
  the owner connects a large enough output when there is none.\<close>

fun conn_event_ok :: "connector_event \<Rightarrow> connector_system \<Rightarrow> bool" where
  "conn_event_ok (Conn_Send p) s \<longleftrightarrow> \<not> conn_busy s \<and> int (length p) \<le> ppc_input_mtu (cs_conn s)"
| "conn_event_ok Conn_Done s \<longleftrightarrow> cs_out s \<noteq> None"
| "conn_event_ok (Conn_Connect mtu) s \<longleftrightarrow> \<not> ppc_output (cs_conn s) \<and> ppc_input_mtu (cs_conn s) \<le> mtu"
| "conn_event_ok Conn_Disconnect s \<longleftrightarrow> ppc_output (cs_conn s)"

inductive conn_reachable :: "connector_system \<Rightarrow> bool" where
  init: "PacketPassConnector_Init c mtu = Some c' \<Longrightarrow>
    conn_reachable \<lparr>cs_conn = c', cs_out = None, cs_taken = [], cs_done = [], cs_sent = []\<rparr>"
| step: "conn_reachable s \<Longrightarrow> conn_event_ok e s \<Longrightarrow> conn_step e s = Some s' \<Longrightarrow> conn_reachable s'"

definition conn_inv :: "connector_system \<Rightarrow> bool" where
  "conn_inv s \<longleftrightarrow>
     (let c = cs_conn s
      in if ppc_in_len c = -1 then cs_taken s = cs_done s \<and> cs_out s = None
         else ppc_in_len c = int (length (ppc_in c)) \<and> cs_taken s = cs_done s @ [ppc_in c] \<and>
           cs_out s = (if ppc_output c then Some (ppc_in c) else None)) \<and>
     set (cs_sent s) \<subseteq> set (cs_taken s) \<and> set (cs_done s) \<subseteq> set (cs_sent s) \<and>
     set_option (cs_out s) \<subseteq> set (cs_sent s)"

lemma conn_step_inv:
  assumes "conn_inv s" "conn_event_ok e s"
  shows "conn_step e s \<noteq> None \<and> (\<forall>s'. conn_step e s = Some s' \<longrightarrow> conn_inv s')"
proof (cases e)
  case (Conn_Send p)
  then show ?thesis using assms
    by (auto simp: PacketPassConnector_input_handler_send_def conn_inv_def conn_busy_def Let_def split: if_splits)
next
  case Conn_Done
  then show ?thesis using assms
    by (auto simp: PacketPassConnector_output_handler_done_def conn_inv_def conn_busy_def Let_def nth_append split: if_splits)
next
  case (Conn_Connect mtu)
  then show ?thesis using assms
    by (auto simp: PacketPassConnector_ConnectOutput_def conn_inv_def Let_def split: if_splits)
next
  case Conn_Disconnect
  then show ?thesis using assms
    by (auto simp: PacketPassConnector_DisconnectOutput_def conn_inv_def Let_def split: if_splits)
qed

lemma conn_reachable_inv: "conn_reachable s \<Longrightarrow> conn_inv s"
proof (induction rule: conn_reachable.induct)
  case (init c mtu c')
  then show ?case by (auto simp: PacketPassConnector_Init_def ASSERT_def conn_inv_def split: if_splits)
next
  case (step s e s')
  then show ?case using conn_step_inv by fastforce
qed

text \<open>
  C17: A connector works between an input and a succession of outputs that keep to the interfaces: no
  assertion fails and no output is given a packet while it still has one; the packets reported as done are, in
  order, the packets the input handed over, all but the last one if that is still on its way; and while a
  packet is on its way and an output is connected, that output has exactly this packet, whole, even when an
  earlier output was disconnected in the middle of it.  A packet is reported as done only after an output
  had it.
\<close>

theorem connector_forwards:
  assumes "conn_reachable s"
  shows "(conn_event_ok e s \<longrightarrow> conn_step e s \<noteq> None) \<and>
    (cs_taken s = cs_done s \<or> (\<exists>p. cs_taken s = cs_done s @ [p] \<and>
       (ppc_output (cs_conn s) \<longrightarrow> cs_out s = Some p))) \<and>
    set (cs_done s) \<subseteq> set (cs_sent s) \<and> set (cs_sent s) \<subseteq> set (cs_taken s)"
proof -
  have inv: "conn_inv s" by (rule conn_reachable_inv [OF assms])
  show ?thesis
    using conn_step_inv [OF inv, of e] inv by (auto simp: conn_inv_def Let_def split: if_splits)
qed

definition conn_sample :: connector_system where
  "conn_sample = \<lparr>cs_conn = \<lparr>ppc_input_mtu = 8, ppc_in_len = 2, ppc_in = [1, 2], ppc_output = True\<rparr>,
     cs_out = Some [1, 2], cs_taken = [[1, 2]], cs_done = [], cs_sent = [[1, 2], [1, 2]]\<rparr>"

lemma conn_sample_reachable: "conn_reachable conn_sample"
proof -
  define c where "c = \<lparr>ppc_input_mtu = 8, ppc_in_len = -1, ppc_in = [], ppc_output = False\<rparr>"
  define s0 where "s0 = \<lparr>cs_conn = c, cs_out = None, cs_taken = [], cs_done = [], cs_sent = []\<rparr>"
  have "PacketPassConnector_Init c 8 = Some c" by (simp add: PacketPassConnector_Init_def c_def)
  then have r0: "conn_reachable s0" unfolding s0_def by (rule conn_reachable.init)
  note defs = PacketPassConnector_input_handler_send_def PacketPassConnector_ConnectOutput_def
    PacketPassConnector_DisconnectOutput_def conn_busy_def s0_def c_def
  define s1 where "s1 = the (conn_step (Conn_Connect 8) s0)"
  have "conn_step (Conn_Connect 8) s0 = Some s1" by (simp add: s1_def defs)
  then have r1: "conn_reachable s1" using r0 by (rule conn_reachable.step [rotated 2]) (simp add: defs)
  define s2 where "s2 = the (conn_step (Conn_Send [1, 2]) s1)"
  have "conn_step (Conn_Send [1, 2]) s1 = Some s2" by (simp add: s2_def s1_def defs)
  then have r2: "conn_reachable s2" using r1 by (rule conn_reachable.step [rotated 2]) (simp add: s1_def defs)
  define s3 where "s3 = the (conn_step Conn_Disconnect s2)"
  have "conn_step Conn_Disconnect s2 = Some s3" by (simp add: s3_def s2_def s1_def defs)
  then have r3: "conn_reachable s3" using r2 by (rule conn_reachable.step [rotated 2]) (simp add: s2_def s1_def defs)
  have "conn_step (Conn_Connect 8) s3 = Some conn_sample"
    by (simp add: s3_def s2_def s1_def conn_sample_def defs)
  then show ?thesis using r3 by (rule conn_reachable.step [rotated 2]) (simp add: s3_def s2_def s1_def defs)
qed

theorem connector_forwards_witness:
  "conn_reachable conn_sample \<and> conn_step Conn_Done conn_sample \<noteq> None \<and> cs_out conn_sample = Some [1, 2]"
  using connector_forwards [OF conn_sample_reachable, of Conn_Done] conn_sample_reachable
  by (simp add: conn_sample_def)

section \<open>The inactivity monitor between its neighbours\<close>

datatype pim_event =
    Pim_Send bytes
  | Pim_Cancel
  | Pim_Done
  | Pim_Expire
  | Pim_Force

fun pim_step :: "pim_event \<Rightarrow> inactivity_monitor \<Rightarrow> inactivity_monitor \<times> pim_call list" where
  "pim_step (Pim_Send p) m = PacketPassInactivityMonitor_input_handler_send m p"
| "pim_step Pim_Cancel m = PacketPassInactivityMonitor_input_handler_requestcancel m"
| "pim_step Pim_Done m = PacketPassInactivityMonitor_output_handler_done m"
| "pim_step Pim_Expire m = PacketPassInactivityMonitor_timer_handler (m\<lparr>pim_timer := False\<rparr>)"
| "pim_step Pim_Force m = (PacketPassInactivityMonitor_Force m, [])"

text \<open>
  \<open>pim_runs m busy es m' busy' cs\<close>: the events \<open>es\<close>, which the neighbours may cause, lead from \<open>m\<close> to
  \<open>m'\<close> and make the calls \<open>cs\<close>, each recorded with the state of the output at that time: whether it
  has a packet.
\<close>

inductive pim_runs :: "inactivity_monitor \<Rightarrow> pim_event list \<Rightarrow> inactivity_monitor \<Rightarrow> bool \<Rightarrow> (pim_call \<times> bool) list \<Rightarrow> bool" for m where
  start: "pim_runs m [] m False []"
| send: "pim_runs m es m' False cs \<Longrightarrow> pim_step (Pim_Send p) m' = (m'', cs') \<Longrightarrow>
    pim_runs m (es @ [Pim_Send p]) m'' True (cs @ map (\<lambda>c. (c, False)) cs')"
| cancel: "pim_runs m es m' True cs \<Longrightarrow> pim_step Pim_Cancel m' = (m'', cs') \<Longrightarrow>
    pim_runs m (es @ [Pim_Cancel]) m'' True (cs @ map (\<lambda>c. (c, True)) cs')"
| done_: "pim_runs m es m' True cs \<Longrightarrow> pim_step Pim_Done m' = (m'', cs') \<Longrightarrow>
    pim_runs m (es @ [Pim_Done]) m'' False (cs @ map (\<lambda>c. (c, False)) cs')"
| expire: "pim_runs m es m' busy cs \<Longrightarrow> pim_timer m' \<Longrightarrow> pim_step Pim_Expire m' = (m'', cs') \<Longrightarrow>
    pim_runs m (es @ [Pim_Expire]) m'' busy (cs @ map (\<lambda>c. (c, busy)) cs')"
| force: "pim_runs m es m' busy cs \<Longrightarrow> pim_step Pim_Force m' = (m'', cs') \<Longrightarrow>
    pim_runs m (es @ [Pim_Force]) m'' busy (cs @ map (\<lambda>c. (c, busy)) cs')"

lemmas pim_defs = PacketPassInactivityMonitor_Init_def PacketPassInactivityMonitor_input_handler_send_def
  PacketPassInactivityMonitor_input_handler_requestcancel_def PacketPassInactivityMonitor_output_handler_done_def
  PacketPassInactivityMonitor_timer_handler_def PacketPassInactivityMonitor_Force_def

lemma pim_runs_timer:
  "pim_runs m es m' busy cs \<Longrightarrow> pim_timer m \<Longrightarrow> Pim_Force \<notin> set es \<Longrightarrow>
    (pim_timer m' \<longleftrightarrow> \<not> busy) \<and> (PIM_Handler, True) \<notin> set cs"
  by (induction rule: pim_runs.induct) (auto simp: pim_defs split: if_splits)



end
