(* ===== verification/Numbers.thy ===== *)
theory Numbers
  imports Prelude "HOL-Library.Monad_Syntax"
begin

text \<open>
  misc/parse_number.h and misc/find_char.h: reading and writing numbers in text, over strings with an
  explicit length (the functions ending in \<open>_bin\<close>; the others pass strlen).  uintmax_t has 64 bits, as
  parse_number.h checks.  A result is None where the C function returns 0.  The functions on b_cstring
  are used only by NCD and left out.

  \<open>dec_digits\<close> and \<open>hex_digits\<close> are what printf writes for %u and %x.

  The lemmas give every parser its specification: it accepts exactly the non-empty strings of
  digits whose value fits, and returns that value; and what the generators write is read back.
\<close>

section \<open>printf\<close>

definition digit_char :: "nat \<Rightarrow> char" where
  "digit_char d = (if d < 10 then char_of (48 + d) else char_of (87 + d))"

fun base_digits :: "nat \<Rightarrow> nat \<Rightarrow> string" where
  "base_digits b n = (if b < 2 \<or> n < b then [digit_char n] else base_digits b (n div b) @ [digit_char (n mod b)])"

definition dec_digits :: "nat \<Rightarrow> string" where
  "dec_digits n = base_digits 10 n"

definition hex_digits :: "nat \<Rightarrow> string" where
  "hex_digits n = base_digits 16 n"

section \<open>misc/parse_number.h\<close>

abbreviation UINTMAX_MAX :: u64 where
  "UINTMAX_MAX \<equiv> - 1"

definition parse_number__uintmax_max_str :: string where
  "parse_number__uintmax_max_str = ''18446744073709551615''"

text \<open>The two switch statements, as the table of their cases; the default is -1.\<close>

definition decimal_cases :: "(char \<times> int) list" where
  "decimal_cases = zip ''0123456789'' [0, 1, 2, 3, 4, 5, 6, 7, 8, 9]"

definition hex_cases :: "(char \<times> int) list" where
  "hex_cases = decimal_cases @ zip ''AaBbCcDdEeFf'' [10, 10, 11, 11, 12, 12, 13, 13, 14, 14, 15, 15]"

definition decode_decimal_digit :: "char \<Rightarrow> int" where
  "decode_decimal_digit c = (case map_of decimal_cases c of Some d \<Rightarrow> d | None \<Rightarrow> - 1)"

definition decode_hex_digit :: "char \<Rightarrow> int" where
  "decode_hex_digit c = (case map_of hex_cases c of Some d \<Rightarrow> d | None \<Rightarrow> - 1)"

text \<open>The C library's memcmp; only the sign of its result is used.\<close>

fun memcmp :: "nat list \<Rightarrow> nat list \<Rightarrow> int" where
  "memcmp (x # xs) (y # ys) = (if x < y then - 1 else if y < x then 1 else memcmp xs ys)"
| "memcmp _ _ = 0"

abbreviation code :: "char \<Rightarrow> nat" where
  "code c \<equiv> of_char c"

fun parse__no_overflow :: "string \<Rightarrow> u64 \<Rightarrow> u64 option" where
  "parse__no_overflow [] n = Some n"
| "parse__no_overflow (c # str) n =
     (if code c < code CHR ''0'' \<or> code c > code CHR ''9'' then None
      else parse__no_overflow str (10 * n + of_nat (code c - code CHR ''0'')))"

definition parse_unsigned_integer_bin :: "string \<Rightarrow> u64 option" where
  "parse_unsigned_integer_bin str =
     (if length str = 0 then None
      else let str = dropWhile (\<lambda>c. c = CHR ''0'') str
           in if length str > length parse_number__uintmax_max_str \<or>
                 (length str = length parse_number__uintmax_max_str \<and>
                  memcmp (map code str) (map code parse_number__uintmax_max_str) > 0)
              then None
              else parse__no_overflow str 0)"

definition parse_unsigned_integer :: "string \<Rightarrow> u64 option" where
  "parse_unsigned_integer str = parse_unsigned_integer_bin str"

fun parse_hex_loop :: "string \<Rightarrow> u64 \<Rightarrow> u64 option" where
  "parse_hex_loop [] n = Some n"
| "parse_hex_loop (c # str) n =
     (let digit = decode_hex_digit c
      in if digit < 0 then None
         else if n > UINTMAX_MAX div 16 then None
         else let n = n * 16
              in if of_int digit > UINTMAX_MAX - n then None
                 else parse_hex_loop str (n + of_int digit))"

definition parse_unsigned_hex_integer_bin :: "string \<Rightarrow> u64 option" where
  "parse_unsigned_hex_integer_bin str = (if length str = 0 then None else parse_hex_loop str 0)"

definition parse_unsigned_hex_integer :: "string \<Rightarrow> u64 option" where
  "parse_unsigned_hex_integer str = parse_unsigned_hex_integer_bin str"

definition parse_signmag_integer_bin :: "string \<Rightarrow> (int \<times> u64) option" where
  "parse_signmag_integer_bin str =
     (let (sign, str) =
        (if length str > 0 \<and> (str ! 0 = CHR ''+'' \<or> str ! 0 = CHR ''-'')
         then (1 - 2 * of_bool (str ! 0 = CHR ''-''), drop 1 str)
         else (1, str))
      in do { mag \<leftarrow> parse_unsigned_integer_bin str; Some (sign, mag) })"

definition parse_signmag_integer :: "string \<Rightarrow> (int \<times> u64) option" where
  "parse_signmag_integer str = parse_signmag_integer_bin str"

text \<open>The loops of the generators run until the rest of the number is zero.\<close>

function repr_size_loop :: "u64 \<Rightarrow> nat \<Rightarrow> nat" where
  "repr_size_loop x sz = (let sz = sz + 1; x = x div 10 in if x > 0 then repr_size_loop x sz else sz)"
  by auto

termination
  by (relation "measure (\<lambda>(x, _). unat x)") (simp_all add: word_less_nat_alt unat_div)

definition compute_decimal_repr_size :: "u64 \<Rightarrow> nat" where
  "compute_decimal_repr_size x = repr_size_loop x 0"

function repr_loop :: "u64 \<Rightarrow> string \<Rightarrow> nat \<Rightarrow> string" where
  "repr_loop x out p =
     (let p = p - 1;
          out = out[p := char_of (code CHR ''0'' + unat (x mod 10))];
          x = x div 10
      in if x > 0 then repr_loop x out p else out)"
  by auto

termination
  by (relation "measure (\<lambda>(x, _). unat x)") (simp_all add: word_less_nat_alt unat_div)

definition generate_decimal_repr :: "u64 \<Rightarrow> string \<Rightarrow> nat \<Rightarrow> string option" where
  "generate_decimal_repr x out repr_size =
     (if repr_size = compute_decimal_repr_size x then Some (repr_loop x out repr_size) else None)"

definition generate_decimal_repr_string :: "u64 \<Rightarrow> string \<Rightarrow> (nat \<times> string) option" where
  "generate_decimal_repr_string x out =
     (let repr_size = compute_decimal_repr_size x
      in do {
        out \<leftarrow> generate_decimal_repr x out repr_size;
        let out = out[repr_size := CHR 0x00];
        Some (repr_size, out)
      })"

section \<open>misc/find_char.h\<close>

fun find_char_loop :: "string \<Rightarrow> char \<Rightarrow> nat \<Rightarrow> nat option" where
  "find_char_loop [] c i = None"
| "find_char_loop (x # xs) c i = (if x = c then Some i else find_char_loop xs c (i + 1))"

definition b_find_char_bin :: "string \<Rightarrow> char \<Rightarrow> nat option" where
  "b_find_char_bin str c = find_char_loop str c 0"

section \<open>The value of a string of digits\<close>

declare base_digits.simps [simp del] repr_size_loop.simps [simp del] repr_loop.simps [simp del]

text \<open>
  \<open>digit_value b c\<close> is the value of a digit in base b, for base 10 or 16, and \<open>base_value\<close> the
  value of a string of digits.
\<close>

definition digit_value :: "nat \<Rightarrow> char \<Rightarrow> nat option" where
  "digit_value b c =
     (let n = code c;
          d = (if 48 \<le> n \<and> n \<le> 57 then Some (n - 48)
               else if 65 \<le> n \<and> n \<le> 70 then Some (n - 55)
               else if 97 \<le> n \<and> n \<le> 102 then Some (n - 87) else None)
      in case d of Some d \<Rightarrow> (if d < b then Some d else None) | None \<Rightarrow> None)"

fun base_value_from :: "nat \<Rightarrow> nat \<Rightarrow> string \<Rightarrow> nat option" where
  "base_value_from b n [] = Some n"
| "base_value_from b n (c # cs) = (case digit_value b c of Some d \<Rightarrow> base_value_from b (b * n + d) cs | None \<Rightarrow> None)"

definition base_value :: "nat \<Rightarrow> string \<Rightarrow> nat option" where
  "base_value b str = (if str = [] then None else base_value_from b 0 str)"

lemma digit_codes:
  assumes "48 \<le> n" "n \<le> 57"
  shows "n = 48 \<or> n = 49 \<or> n = 50 \<or> n = 51 \<or> n = 52 \<or> n = 53 \<or> n = 54 \<or> n = 55 \<or> n = 56 \<or> n = (57 :: nat)"
proof -
  have eq: "[48 ..< 58] = [48, 49, 50, 51, 52, 53, 54, 55, 56, 57 :: nat]" by (simp add: upt_rec_numeral)
  have "n \<in> set [48, 49, 50, 51, 52, 53, 54, 55, 56, 57]" unfolding eq [symmetric] set_upt using assms by simp
  then show ?thesis by simp
qed

lemma letter_codes:
  assumes "k \<le> n" "n \<le> k + 5"
  shows "n = k \<or> n = k + 1 \<or> n = k + 2 \<or> n = k + 3 \<or> n = k + 4 \<or> n = k + (5 :: nat)"
  using assms by presburger

lemma decode_digit_value:
  "decode_hex_digit c = (case digit_value 16 c of Some d \<Rightarrow> int d | None \<Rightarrow> - 1)"
  "decode_decimal_digit c = (case digit_value 10 c of Some d \<Rightarrow> int d | None \<Rightarrow> - 1)"
proof -
  define n where "n = code c"
  have c: "c = d \<longleftrightarrow> n = code d" for d by (simp add: n_def)
  note defs = decode_hex_digit_def decode_decimal_digit_def hex_cases_def decimal_cases_def digit_value_def c n_def [symmetric] Let_def
  consider "n < 48" | "48 \<le> n" "n \<le> 57" | "58 \<le> n" "n < 65" | "65 \<le> n" "n \<le> 65 + 5" | "71 \<le> n" "n < 97"
    | "97 \<le> n" "n \<le> 97 + 5" | "103 \<le> n" by linarith
  then have "decode_hex_digit c = (case digit_value 16 c of Some d \<Rightarrow> int d | None \<Rightarrow> - 1) \<and>
    decode_decimal_digit c = (case digit_value 10 c of Some d \<Rightarrow> int d | None \<Rightarrow> - 1)"
  proof cases
    case 2
    from digit_codes [OF this] show ?thesis by (elim disjE) (simp_all add: defs)
  next
    case 4
    from letter_codes [OF this] show ?thesis by (elim disjE) (simp_all add: defs)
  next
    case 6
    from letter_codes [OF this] show ?thesis by (elim disjE) (simp_all add: defs)
  qed (simp_all add: defs)
  then show "decode_hex_digit c = (case digit_value 16 c of Some d \<Rightarrow> int d | None \<Rightarrow> - 1)"
    "decode_decimal_digit c = (case digit_value 10 c of Some d \<Rightarrow> int d | None \<Rightarrow> - 1)" by simp_all
qed

lemma digit_value_10:
  "digit_value 10 c = (if code c < 48 \<or> code c > 57 then None else Some (code c - 48))"
  by (auto simp: digit_value_def Let_def)

lemma digit_value_less: "digit_value b c = Some d \<Longrightarrow> d < b"
  by (auto simp: digit_value_def Let_def split: if_splits)

lemma digit_value_digit_char:
  assumes "d < b" "b \<le> 16"
  shows "digit_value b (digit_char d) = Some d"
  using assms by (auto simp: digit_value_def digit_char_def Let_def of_char_of take_bit_eq_mod)

lemma base_value_from_append:
  "base_value_from b n (xs @ ys) = (case base_value_from b n xs of Some m \<Rightarrow> base_value_from b m ys | None \<Rightarrow> None)"
  by (induction xs arbitrary: n) (auto split: option.splits)

lemma base_value_base_digits:
  assumes "2 \<le> b" "b \<le> 16"
  shows "base_value b (base_digits b n) = Some n" "base_digits b n \<noteq> []"
proof -
  show ne: "base_digits b n \<noteq> []" for n by (subst base_digits.simps) simp
  have "base_value_from b 0 (base_digits b n) = Some n"
  proof (induction n rule: less_induct)
    case (less n)
    show ?case
    proof (cases "n < b")
      case True
      then show ?thesis using assms by (subst base_digits.simps) (simp add: digit_value_digit_char)
    next
      case False
      then have "base_value_from b 0 (base_digits b (n div b)) = Some (n div b)" using less assms by simp
      then show ?thesis using False assms
        by (subst base_digits.simps) (simp add: digit_value_digit_char base_value_from_append)
    qed
  qed
  then show "base_value b (base_digits b n) = Some n" by (simp add: base_value_def ne)
qed

section \<open>The parsers meet their specification\<close>

lemma parse_no_overflow_spec:
  "parse__no_overflow str (of_nat n) = map_option of_nat (base_value_from 10 n str)"
proof (induction str arbitrary: n)
  case (Cons c str)
  have "10 * of_nat n + of_nat (code c - code CHR ''0'') = (of_nat (10 * n + (code c - 48)) :: u64)" by simp
  then show ?case using Cons [of "10 * n + (code c - 48)"]
    by (cases "code c < 48 \<or> 57 < code c") (simp_all add: digit_value_10 of_nat_diff)
qed simp

lemma base_value_from_dropWhile:
  "base_value_from 10 0 (dropWhile (\<lambda>c. c = CHR ''0'') str) = base_value_from 10 0 str"
  by (induction str) (auto simp: digit_value_10)

lemma base_value_from_bounds:
  assumes "base_value_from b n str = Some v" "0 < b"
  shows "n * b ^ length str \<le> v" "v < (n + 1) * b ^ length str"
proof -
  have "n * b ^ length str \<le> v \<and> v < (n + 1) * b ^ length str"
    using assms
  proof (induction str arbitrary: n)
    case (Cons c str)
    then obtain d where d: "digit_value b c = Some d" "base_value_from b (b * n + d) str = Some v"
      by (auto split: option.splits)
    then have "(b * n + d) * b ^ length str \<le> v" "v < (b * n + d + 1) * b ^ length str" using Cons by auto
    moreover have "(b * n) * b ^ length str \<le> (b * n + d) * b ^ length str" by (intro mult_right_mono) simp_all
    moreover have "(b * n + d + 1) * b ^ length str \<le> (b * n + b) * b ^ length str"
      using digit_value_less [OF d(1)] by (intro mult_right_mono) simp_all
    ultimately show ?case by (simp add: algebra_simps)
  qed simp
  then show "n * b ^ length str \<le> v" "v < (n + 1) * b ^ length str" by simp_all
qed

lemma memcmp_base_value:
  assumes "length xs = length ys" "base_value_from 10 n xs = Some v" "base_value_from 10 n ys = Some w"
  shows "memcmp (map code xs) (map code ys) > 0 \<longleftrightarrow> w < v"
  using assms
proof (induction xs ys arbitrary: n rule: list_induct2)
  case (Cons x xs y ys)
  then obtain d e where d: "digit_value 10 x = Some d" "digit_value 10 y = Some e"
    and v: "base_value_from 10 (10 * n + d) xs = Some v" "base_value_from 10 (10 * n + e) ys = Some w"
    by (auto split: option.splits)
  have code: "code x = d + 48" "code y = e + 48" using d by (auto simp: digit_value_10 split: if_splits)
  note B = base_value_from_bounds [OF v(1)] base_value_from_bounds [OF v(2)]
  consider "d = e" | "d < e" | "e < d" by linarith
  then show ?case
  proof cases
    case 1
    then show ?thesis using Cons.IH v code by simp
  next
    case 2
    then have "(10 * n + d + 1) * 10 ^ length xs \<le> (10 * n + e) * 10 ^ length ys" using Cons.hyps by (intro mult_mono) simp_all
    then show ?thesis using B 2 code by simp
  next
    case 3
    then have "(10 * n + e + 1) * 10 ^ length ys \<le> (10 * n + d) * 10 ^ length xs" using Cons.hyps by (intro mult_mono) simp_all
    then show ?thesis using B 3 code by simp
  qed
qed simp

lemma uintmax_str: "base_value_from 10 0 parse_number__uintmax_max_str = Some (2 ^ 64 - 1)"
  "length parse_number__uintmax_max_str = 20"
  by (simp_all add: parse_number__uintmax_max_str_def digit_value_10)

text \<open>The overflow test is exact for digits without leading zeros.\<close>

lemma overflow_test:
  assumes v: "base_value_from 10 0 str = Some v" and nz: "str = [] \<or> hd str \<noteq> CHR ''0''"
  shows "length str > length parse_number__uintmax_max_str \<or>
    (length str = length parse_number__uintmax_max_str \<and>
     memcmp (map code str) (map code parse_number__uintmax_max_str) > 0) \<longleftrightarrow> 2 ^ 64 \<le> v"
proof -
  have big: "10 ^ (length str - 1) \<le> v" if ne: "str \<noteq> []"
  proof -
    obtain c cs where str: "str = c # cs" using ne by (cases str) auto
    then obtain d where d: "digit_value 10 c = Some d" "base_value_from 10 d cs = Some v" using v by (auto split: option.splits)
    have "code c \<noteq> code CHR ''0''" by (subst of_char_eq_iff) (use nz str in simp)
    then have "code c \<noteq> 48" by simp
    then have "1 \<le> d" using d(1) by (auto simp: digit_value_10 split: if_splits)
    then have "1 * 10 ^ length cs \<le> d * 10 ^ length cs" by (intro mult_right_mono) simp_all
    then have "10 ^ length cs \<le> v" using base_value_from_bounds(1) [OF d(2)] by linarith
    then show ?thesis using str by simp
  qed
  have "v < 10 ^ length str" using base_value_from_bounds(2) [OF v] by simp
  consider "length str < 20" | "length str = 20" | "length str > 20" by linarith
  then show ?thesis
  proof cases
    case 1
    then have "(10 :: nat) ^ length str \<le> 10 ^ 19" by (intro power_increasing) simp_all
    then show ?thesis using \<open>v < 10 ^ length str\<close> 1 by (simp add: uintmax_str)
  next
    case 2
    then have "memcmp (map code str) (map code parse_number__uintmax_max_str) > 0 \<longleftrightarrow> 2 ^ 64 - 1 < v"
      using memcmp_base_value [OF _ v uintmax_str(1)] uintmax_str(2) by simp
    then show ?thesis using 2 by (auto simp: uintmax_str(2))
  next
    case 3
    then have "(10 :: nat) ^ 20 \<le> 10 ^ (length str - 1)" by (intro power_increasing) simp_all
    moreover have "str \<noteq> []" using 3 by auto
    ultimately have "10 ^ 20 \<le> v" using big by linarith
    then show ?thesis using 3 by (simp add: uintmax_str(2))
  qed
qed

lemma parse_unsigned_integer_spec:
  "parse_unsigned_integer_bin str =
    (case base_value 10 str of Some v \<Rightarrow> if v < 2 ^ 64 then Some (of_nat v) else None | None \<Rightarrow> None)"
proof (cases "str = []")
  case False
  let ?s = "dropWhile (\<lambda>c. c = CHR ''0'') str"
  let ?over = "length ?s > length parse_number__uintmax_max_str \<or>
    (length ?s = length parse_number__uintmax_max_str \<and>
     memcmp (map code ?s) (map code parse_number__uintmax_max_str) > 0)"
  have "?s = [] \<or> hd ?s \<noteq> CHR ''0''" using hd_dropWhile by blast
  then have over: "?over \<longleftrightarrow> 2 ^ 64 \<le> v" if "base_value_from 10 0 str = Some v" for v
    using overflow_test [of ?s v] that by (simp add: base_value_from_dropWhile)
  have "parse_unsigned_integer_bin str = (if ?over then None else map_option of_nat (base_value_from 10 0 str))"
    using False parse_no_overflow_spec [of ?s 0]
    by (simp add: parse_unsigned_integer_bin_def Let_def base_value_from_dropWhile)
  also have "\<dots> = (case base_value_from 10 0 str of Some v \<Rightarrow> if v < 2 ^ 64 then Some (of_nat v) else None | None \<Rightarrow> None)"
    using over by (cases "base_value_from 10 0 str") auto
  finally show ?thesis using False by (simp add: base_value_def)
qed (simp add: parse_unsigned_integer_bin_def base_value_def)

lemma parse_hex_loop_spec:
  "parse_hex_loop str n =
    (case base_value_from 16 (unat n) str of Some v \<Rightarrow> if v < 2 ^ 64 then Some (of_nat v) else None | None \<Rightarrow> None)"
proof (induction str arbitrary: n)
  case (Cons c str)
  have mono: "16 * unat n + d \<le> v" if "base_value_from 16 (16 * unat n + d) str = Some v" for d v
  proof -
    have "(16 * unat n + d) * 1 \<le> (16 * unat n + d) * 16 ^ length str" by (intro mult_left_mono) simp_all
    also have "\<dots> \<le> v" using base_value_from_bounds(1) [OF that] by simp
    finally show ?thesis by simp
  qed
  show ?case
  proof (cases "digit_value 16 c")
    case (Some d)
    have d: "d < 16" using digit_value_less [OF Some] .
    have dig: "decode_hex_digit c = int d" using Some by (simp add: decode_digit_value)
    have div: "unat (UINTMAX_MAX div 16) = 2 ^ 60 - 1"
      by (simp add: unat_div unsigned_minus_1_eq_mask mask_eq_exp_minus_1)
    show ?thesis
    proof (cases "16 * unat n + d < 2 ^ 64")
      case True
      then have n: "\<not> n > UINTMAX_MAX div 16" by (simp add: word_less_nat_alt div)
      have n16: "unat (n * 16) = unat n * 16" using True by (subst unat_mult_lem [THEN iffD1]) simp_all
      have "unat (UINTMAX_MAX - n * 16) = 2 ^ 64 - 1 - unat n * 16"
        by (subst unat_sub [OF max_word_max]) (simp add: n16 unsigned_minus_1_eq_mask mask_eq_exp_minus_1)
      then have "\<not> of_int (int d) > UINTMAX_MAX - n * 16"
        using True d by (simp add: word_less_nat_alt unat_of_nat_small)
      moreover have "unat (n * 16 + of_int (int d)) = 16 * unat n + d"
        using True d n16 by (subst unat_add_lem [THEN iffD1]) (simp_all add: unat_of_nat_small)
      ultimately show ?thesis using Cons [of "n * 16 + of_int (int d)"] n dig Some by (simp add: Let_def)
    next
      case False
      have "parse_hex_loop (c # str) n = None"
      proof (cases "n > UINTMAX_MAX div 16")
        case False2: False
        then have "unat n \<le> 2 ^ 60 - 1" by (simp add: word_less_nat_alt div)
        then have n16: "unat (n * 16) = unat n * 16" by (subst unat_mult_lem [THEN iffD1]) simp_all
        have "unat (UINTMAX_MAX - n * 16) = 2 ^ 64 - 1 - unat n * 16"
          by (subst unat_sub [OF max_word_max]) (simp add: n16 unsigned_minus_1_eq_mask mask_eq_exp_minus_1)
        then have "of_int (int d) > UINTMAX_MAX - n * 16"
          using False d \<open>unat n \<le> 2 ^ 60 - 1\<close> by (simp add: word_less_nat_alt unat_of_nat_small)
        then show ?thesis using dig by (simp add: Let_def)
      qed (use dig in simp)
      moreover have "\<not> v < 2 ^ 64" if "base_value_from 16 (16 * unat n + d) str = Some v" for v
        using mono [OF that] False by linarith
      ultimately show ?thesis using Some by (auto split: option.splits)
    qed
  qed (simp add: decode_digit_value)
qed simp

lemma parse_unsigned_hex_integer_spec:
  "parse_unsigned_hex_integer_bin str =
    (case base_value 16 str of Some v \<Rightarrow> if v < 2 ^ 64 then Some (of_nat v) else None | None \<Rightarrow> None)"
  using parse_hex_loop_spec [of str 0] by (simp add: parse_unsigned_hex_integer_bin_def base_value_def)

section \<open>The generators write what the parsers read\<close>

text \<open>The digits of a number as a list, most significant first.\<close>

lemma repr_size_digits: "repr_size_loop x n = n + length (dec_digits (unat x))"
proof (induction x n rule: repr_size_loop.induct)
  case (1 x n)
  have "dec_digits (unat x) = (if unat x < 10 then [digit_char (unat x)]
      else dec_digits (unat x div 10) @ [digit_char (unat x mod 10)])"
    by (subst dec_digits_def, subst base_digits.simps) (simp add: dec_digits_def)
  moreover have "x div 10 > 0 \<longleftrightarrow> \<not> unat x < 10" by (simp add: word_less_nat_alt unat_div div_greater_zero_iff not_less)
  ultimately show ?case using 1 by (subst repr_size_loop.simps) (auto simp: Let_def unat_div)
qed

lemma repr_size: "compute_decimal_repr_size x = length (dec_digits (unat x))"
  by (simp add: compute_decimal_repr_size_def repr_size_digits)

lemma repr_loop_digits:
  assumes "p = length (dec_digits (unat x))" "p \<le> length out"
  shows "repr_loop x out p = dec_digits (unat x) @ drop p out"
  using assms
proof (induction x out p rule: repr_loop.induct)
  case (1 x out p)
  let ?d = "char_of (code CHR ''0'' + unat (x mod 10)) :: char"
  have d: "?d = digit_char (unat x mod 10)" by (simp add: digit_char_def unat_mod)
  have digits: "dec_digits (unat x) = (if unat x < 10 then [digit_char (unat x)]
      else dec_digits (unat x div 10) @ [digit_char (unat x mod 10)])"
    by (subst dec_digits_def, subst base_digits.simps) (simp add: dec_digits_def)
  have more: "x div 10 > 0 \<longleftrightarrow> \<not> unat x < 10" by (simp add: word_less_nat_alt unat_div div_greater_zero_iff not_less)
  have p: "0 < p" using "1.prems"(1) digits by (auto split: if_splits)
  have upd: "drop (p - 1) (out[p - 1 := ?d]) = ?d # drop p out"
    using p "1.prems"(2) by (simp add: drop_update_swap Cons_nth_drop_Suc [symmetric] del: Cons_nth_drop_Suc)
  show ?case
  proof (cases "unat x < 10")
    case True
    then have "p = 1" using "1.prems"(1) digits by simp
    then show ?thesis using True d upd more digits by (subst repr_loop.simps) (simp add: Let_def)
  next
    case False
    then have "repr_loop (x div 10) (out[p - 1 := ?d]) (p - 1) = dec_digits (unat x div 10) @ drop (p - 1) (out[p - 1 := ?d])"
      using "1.IH" [OF refl refl refl] "1.prems" digits more by (simp add: unat_div)
    then show ?thesis using False d upd more digits by (subst repr_loop.simps) (simp add: Let_def)
  qed
qed

lemma parse_dec_digits: "n < 2 ^ 64 \<Longrightarrow> parse_unsigned_integer_bin (dec_digits n) = Some (of_nat n)"
  using base_value_base_digits(1) [of 10 n] by (simp add: parse_unsigned_integer_spec dec_digits_def)

text \<open>
  C28: Reading back a number: \<open>generate_decimal_repr_string\<close> fills the first characters of a large
  enough buffer, ends them with a NUL and leaves the rest alone, returns how many characters it wrote, and
  \<open>parse_unsigned_integer\<close> reads exactly the number that was written, for all 64 bit numbers.
\<close>

theorem decimal_roundtrip:
  assumes "compute_decimal_repr_size x < length out"
  shows "\<exists>str. generate_decimal_repr_string x out =
      Some (length str, str @ CHR 0x00 # drop (length str + 1) out) \<and>
    parse_unsigned_integer str = Some x"
proof -
  let ?s = "dec_digits (unat x)"
  have len: "length ?s < length out" using assms by (simp add: repr_size)
  have "generate_decimal_repr_string x out = Some (length ?s, (?s @ drop (length ?s) out)[length ?s := CHR 0x00])"
    using len repr_loop_digits [of "length ?s" x out]
    by (simp add: generate_decimal_repr_string_def generate_decimal_repr_def repr_size Let_def)
  also have "(?s @ drop (length ?s) out)[length ?s := CHR 0x00] = ?s @ CHR 0x00 # drop (length ?s + 1) out"
    using len by (simp add: list_update_append Cons_nth_drop_Suc [symmetric])
  finally show ?thesis
    using parse_dec_digits [of "unat x"] by (auto simp: parse_unsigned_integer_def)
qed

theorem decimal_roundtrip_witness:
  "\<exists>str. generate_decimal_repr_string 65535 (replicate 8 CHR ''x'') =
      Some (length str, str @ CHR 0x00 # drop (length str + 1) (replicate 8 CHR ''x'')) \<and>
    parse_unsigned_integer str = Some 65535"
  by (rule decimal_roundtrip) code_simp

text \<open>
  C24: The parsers of unsigned numbers accept exactly the non-empty strings of digits (of base 10 or 16,
  hexadecimal letters in either case) whose value fits 64 bits, and return that value; in particular the test for
  overflow by length and comparison with the largest number, made before any character is checked, is
  exact, and so is the one made digit by digit.
\<close>

theorem parse_number_exact:
  "parse_unsigned_integer_bin str =
     (case base_value 10 str of Some v \<Rightarrow> if v < 2 ^ 64 then Some (of_nat v) else None | None \<Rightarrow> None) \<and>
   parse_unsigned_hex_integer_bin str =
     (case base_value 16 str of Some v \<Rightarrow> if v < 2 ^ 64 then Some (of_nat v) else None | None \<Rightarrow> None)"
  using parse_unsigned_integer_spec parse_unsigned_hex_integer_spec by simp

lemma find_char_loop_spec:
  "find_char_loop str c i = (if c \<in> set str then Some (i + length (takeWhile (\<lambda>x. x \<noteq> c) str)) else None)"
  by (induction str arbitrary: i) auto

lemma find_char_spec:
  "b_find_char_bin str c = (if c \<in> set str then Some (length (takeWhile (\<lambda>x. x \<noteq> c) str)) else None)"
  by (simp add: b_find_char_bin_def find_char_loop_spec)

end
