(* ===== verification/Ip_Addresses.thy ===== *)
theory Ip_Addresses
  imports Numbers Byte_Order
begin

unbundle bit_operations_syntax

text \<open>
  misc/ipaddr.h and misc/ipaddr6.h: parsing and printing of IPv4 and IPv6 addresses, network masks and
  prefixes.  An IPv4 address is a 32 bit word whose bytes in memory are in network order, an IPv6
  address its 16 bytes.  A parser returns None where the C function returns 0; the buffer the result
  is written to starts with arbitrary contents, an argument of the loops.

  The lemmas show that printing and parsing are inverse (for IPv6 with the longest run of zero blocks
  compressed), that prefixes and masks correspond, and that the parsers never write outside the
  sixteen bytes.
\<close>

section \<open>misc/ipaddr.h\<close>

record ipv4_ifaddr =
  if4_addr :: u32
  if4_prefix :: int

text \<open>The loop over the four parts; i never exceeds 3.\<close>

function ipv4_addr_loop :: "string \<Rightarrow> nat \<Rightarrow> bytes \<Rightarrow> bytes option" where
  "ipv4_addr_loop name i out_addr =
     (let j = length (takeWhile (\<lambda>c. c \<noteq> CHR ''.'') name)
      in if (j = length name \<and> i < 3) \<or> (j < length name \<and> i = 3) then None
         else if j < 1 \<or> j > 3 then None
         else do {
           d \<leftarrow> parse_unsigned_integer_bin (take j name);
           if d > 255 then None
           else let out_addr = out_addr[i := ucast d]
                in if i < 3 then ipv4_addr_loop (drop (j + 1) name) (i + 1) out_addr
                   else Some out_addr
         })"
  by auto

termination
  by (relation "measure (\<lambda>(_, i, _). 3 - i)") auto

definition ipaddr_parse_ipv4_addr_bin :: "string \<Rightarrow> u32 \<Rightarrow> u32 option" where
  "ipaddr_parse_ipv4_addr_bin name out_addr = map_option host32 (ipv4_addr_loop name 0 (mem32 out_addr))"

definition ipaddr_parse_ipv4_addr :: "string \<Rightarrow> u32 \<Rightarrow> u32 option" where
  "ipaddr_parse_ipv4_addr name out_addr = ipaddr_parse_ipv4_addr_bin name out_addr"

definition ipaddr_parse_ipv4_prefix_bin :: "string \<Rightarrow> int option" where
  "ipaddr_parse_ipv4_prefix_bin str =
     do { d \<leftarrow> parse_unsigned_integer_bin str; if d > 32 then None else Some (uint d) }"

definition ipaddr_parse_ipv4_prefix :: "string \<Rightarrow> int option" where
  "ipaddr_parse_ipv4_prefix str = ipaddr_parse_ipv4_prefix_bin str"

definition ipaddr_parse_ipv4_ifaddr_bin :: "string \<Rightarrow> ipv4_ifaddr \<Rightarrow> ipv4_ifaddr option" where
  "ipaddr_parse_ipv4_ifaddr_bin str out =
     do {
       slash_pos \<leftarrow> b_find_char_bin str CHR ''/'';
       a \<leftarrow> ipaddr_parse_ipv4_addr_bin (take slash_pos str) (if4_addr out);
       p \<leftarrow> ipaddr_parse_ipv4_prefix_bin (drop (slash_pos + 1) str);
       Some (out\<lparr>if4_addr := a, if4_prefix := p\<rparr>)
     }"

definition ipaddr_parse_ipv4_ifaddr :: "string \<Rightarrow> ipv4_ifaddr \<Rightarrow> ipv4_ifaddr option" where
  "ipaddr_parse_ipv4_ifaddr str out = ipaddr_parse_ipv4_ifaddr_bin str out"

text \<open>The word whose topmost bits are set, as the loops build it.\<close>

definition prefix_bits :: "nat \<Rightarrow> u32" where
  "prefix_bits n = fold (\<lambda>i t. t OR push_bit (32 - i - 1) 1) [0 ..< n] 0"

definition ipaddr_ipv4_mask_from_prefix :: "int \<Rightarrow> u32 option" where
  "ipaddr_ipv4_mask_from_prefix prefix =
     (if 0 \<le> prefix \<and> prefix \<le> 32 then Some (hton32 (prefix_bits (nat prefix))) else None)"

function prefix_loop :: "u32 \<Rightarrow> nat \<Rightarrow> u32 \<Rightarrow> nat" where
  "prefix_loop msk i t =
     (if i \<le> 32 then
        if ntoh32 msk = t then i
        else prefix_loop msk (i + 1) (if i < 32 then t OR push_bit (32 - i - 1) 1 else t)
      else i)"
  by auto

termination
  by (relation "measure (\<lambda>(_, i, _). 33 - i)") auto

definition ipaddr_ipv4_prefix_from_mask :: "u32 \<Rightarrow> int option" where
  "ipaddr_ipv4_prefix_from_mask msk =
     (let i = prefix_loop msk 0 0 in if \<not> (i \<le> 32) then None else Some (int i))"

definition ipaddr_ipv4_ifaddr_from_addr_mask :: "u32 \<Rightarrow> u32 \<Rightarrow> ipv4_ifaddr option" where
  "ipaddr_ipv4_ifaddr_from_addr_mask a msk =
     do { prefix \<leftarrow> ipaddr_ipv4_prefix_from_mask msk; Some \<lparr>if4_addr = a, if4_prefix = prefix\<rparr> }"

definition ipaddr_ipv4_addrs_in_network :: "u32 \<Rightarrow> u32 \<Rightarrow> int \<Rightarrow> bool option" where
  "ipaddr_ipv4_addrs_in_network addr1 addr2 netprefix =
     do {
       msk \<leftarrow> ipaddr_ipv4_mask_from_prefix netprefix;
       Some ((addr1 AND msk) = (addr2 AND msk))
     }"

definition ipaddr_print_addr :: "u32 \<Rightarrow> string" where
  "ipaddr_print_addr a =
     (let b = mem32 a
      in dec_digits (unat (b ! 0)) @ ''.'' @ dec_digits (unat (b ! 1)) @ ''.'' @
         dec_digits (unat (b ! 2)) @ ''.'' @ dec_digits (unat (b ! 3)))"

definition ipaddr_print_ifaddr :: "ipv4_ifaddr \<Rightarrow> string option" where
  "ipaddr_print_ifaddr ifaddr =
     (if 0 \<le> if4_prefix ifaddr \<and> if4_prefix ifaddr \<le> 32
      then Some (ipaddr_print_addr (if4_addr ifaddr) @ ''/'' @ dec_digits (nat (if4_prefix ifaddr)))
      else None)"

section \<open>misc/ipaddr6.h\<close>

type_synonym ipv6_addr = bytes

record ipv6_ifaddr =
  if6_addr :: ipv6_addr
  if6_prefix :: int

text \<open>The local variables of the parser.\<close>

record ipv6_parse =
  p6_bytes :: bytes
  p6_num_blocks :: int
  p6_compress_pos :: int
  p6_block :: u16
  p6_empty :: bool
  p6_i :: nat

definition store_block :: "ipv6_parse \<Rightarrow> ipv6_parse" where
  "store_block s =
     (let n = nat (p6_num_blocks s)
      in s\<lparr>p6_bytes := (p6_bytes s)[2 * n + 0 := ucast (drop_bit 8 (p6_block s)),
                                     2 * n + 1 := ucast (p6_block s AND 0xFF)],
           p6_num_blocks := p6_num_blocks s + 1\<rparr>)"

text \<open>The branch of the loop for a colon, and the branch for a digit.\<close>

definition parse6_colon :: "ipv6_parse \<Rightarrow> bool \<Rightarrow> ipv6_parse option" where
  "parse6_colon s is_double =
     do {
       s \<leftarrow> (if p6_i s > 0 then
               if p6_empty s \<or> p6_num_blocks s = 7 then None
               else Some ((store_block s)\<lparr>p6_block := 0, p6_empty := True\<rparr>)
             else if \<not> is_double then None
             else Some s);
       if is_double then
         if p6_compress_pos s \<noteq> - 1 then None
         else Some (s\<lparr>p6_compress_pos := p6_num_blocks s\<rparr>)
       else Some s
     }"

definition parse6_digit :: "ipv6_parse \<Rightarrow> char \<Rightarrow> ipv6_parse option" where
  "parse6_digit s c =
     (let digit = decode_hex_digit c
      in if digit < 0 then None
         else if p6_block s > 0xFFFF div 16 then None
         else let block = p6_block s * 16
              in if digit > uint (0xFFFF - block) then None
                 else Some (s\<lparr>p6_block := block + of_int digit, p6_empty := False\<rparr>))"

text \<open>The main loop; the flag of the result says that it was left for an IPv4 ending.\<close>

function parse6_loop :: "string \<Rightarrow> ipv6_parse \<Rightarrow> (bool \<times> ipv6_parse) option" where
  "parse6_loop name s =
     (let i = p6_i s
      in if i < length name then
           if name ! i = CHR ''.'' then Some (True, s)
           else if name ! i = CHR '':'' then
             let is_double = (i + 1 < length name \<and> name ! (i + 1) = CHR '':'')
             in do {
               s \<leftarrow> parse6_colon s is_double;
               parse6_loop name (s\<lparr>p6_i := i + 1 + of_bool is_double\<rparr>)
             }
           else do {
             s \<leftarrow> parse6_digit s (name ! i);
             parse6_loop name (s\<lparr>p6_i := i + 1\<rparr>)
           }
         else Some (False, s))"
  by auto

termination
  by (relation "measure (\<lambda>(name, s). length name - p6_i s)") auto

definition parse6_end :: "ipv6_parse \<Rightarrow> ipv6_parse option" where
  "parse6_end s =
     (if \<not> p6_empty s then Some (store_block s)
      else if p6_num_blocks s \<noteq> p6_compress_pos s then None
      else Some s)"

definition parse6_done :: "ipv6_parse \<Rightarrow> ipv6_addr option" where
  "parse6_done s =
     do {
       s \<leftarrow> (if p6_compress_pos s = - 1 then
               if p6_num_blocks s \<noteq> 8 then None else Some (s\<lparr>p6_compress_pos := 0\<rparr>)
             else Some s);
       let num_rear = p6_num_blocks s - p6_compress_pos s;
       let compress_pos = p6_compress_pos s;
       let b = write_at (p6_bytes s) (nat (2 * (8 - num_rear)))
                 (read_at (p6_bytes s) (nat (2 * compress_pos)) (nat (2 * num_rear)));
       Some (write_at b (nat (2 * compress_pos)) (replicate (nat (2 * (8 - num_rear - compress_pos))) 0))
     }"

text \<open>The IPv4 ending: back to the last colon, then four decimal parts.\<close>

fun back_to_colon :: "string \<Rightarrow> nat \<Rightarrow> nat" where
  "back_to_colon name 0 = 0"
| "back_to_colon name (Suc i) = (if name ! i \<noteq> CHR '':'' then back_to_colon name i else Suc i)"

fun parse4_loop :: "string \<Rightarrow> bytes \<Rightarrow> nat \<Rightarrow> u8 \<Rightarrow> bool \<Rightarrow> (bytes \<times> nat \<times> u8 \<times> bool) option" where
  "parse4_loop [] b cur_byte byte emp = Some (b, cur_byte, byte, emp)"
| "parse4_loop (c # name) b cur_byte byte emp =
     (if c = CHR ''.'' then
        if emp \<or> cur_byte = 3 then None
        else parse4_loop name (b[cur_byte := byte]) (cur_byte + 1) 0 True
      else if \<not> emp \<and> byte = 0 then None
      else let digit = decode_decimal_digit c
           in if digit < 0 then None
              else if byte > 0xFF div 10 then None
              else let byte = byte * 10
                   in if digit > uint (0xFF - byte) then None
                      else parse4_loop name b cur_byte (byte + of_int digit) False)"

definition parse6_ipv4_ending :: "string \<Rightarrow> ipv6_parse \<Rightarrow> ipv6_parse option" where
  "parse6_ipv4_ending name s =
     (if p6_empty s \<or> (p6_num_blocks s = 0 \<and> p6_compress_pos s = - 1) then None
      else do {
        let i = back_to_colon name (p6_i s);
        (b, cur_byte, byte, emp) \<leftarrow> parse4_loop (drop i name) (replicate 4 0) 0 0 True;
        if cur_byte \<noteq> 3 \<or> emp then None
        else let b = b[cur_byte := byte]
             in if 8 - p6_num_blocks s < 2 then None
                else Some (s\<lparr>p6_bytes := write_at (p6_bytes s) (nat (2 * p6_num_blocks s)) b,
                             p6_num_blocks := p6_num_blocks s + 2\<rparr>)
      })"

definition ipaddr6_parse_ipv6_addr_bin :: "string \<Rightarrow> ipv6_addr \<Rightarrow> ipv6_addr option" where
  "ipaddr6_parse_ipv6_addr_bin name out_addr =
     do {
       (ipv4, s) \<leftarrow> parse6_loop name \<lparr>p6_bytes = out_addr, p6_num_blocks = 0, p6_compress_pos = - 1,
                      p6_block = 0, p6_empty = True, p6_i = 0\<rparr>;
       s \<leftarrow> (if ipv4 then parse6_ipv4_ending name s else parse6_end s);
       parse6_done s
     }"

definition ipaddr6_parse_ipv6_addr :: "string \<Rightarrow> ipv6_addr \<Rightarrow> ipv6_addr option" where
  "ipaddr6_parse_ipv6_addr name out_addr = ipaddr6_parse_ipv6_addr_bin name out_addr"

definition ipaddr6_parse_ipv6_prefix_bin :: "string \<Rightarrow> int option" where
  "ipaddr6_parse_ipv6_prefix_bin str =
     do { d \<leftarrow> parse_unsigned_integer_bin str; if d > 128 then None else Some (uint d) }"

definition ipaddr6_parse_ipv6_prefix :: "string \<Rightarrow> int option" where
  "ipaddr6_parse_ipv6_prefix str = ipaddr6_parse_ipv6_prefix_bin str"

definition ipaddr6_parse_ipv6_ifaddr_bin :: "string \<Rightarrow> ipv6_ifaddr \<Rightarrow> ipv6_ifaddr option" where
  "ipaddr6_parse_ipv6_ifaddr_bin str out =
     do {
       slash_pos \<leftarrow> b_find_char_bin str CHR ''/'';
       a \<leftarrow> ipaddr6_parse_ipv6_addr_bin (take slash_pos str) (if6_addr out);
       p \<leftarrow> ipaddr6_parse_ipv6_prefix_bin (drop (slash_pos + 1) str);
       Some (out\<lparr>if6_addr := a, if6_prefix := p\<rparr>)
     }"

definition ipaddr6_parse_ipv6_ifaddr :: "string \<Rightarrow> ipv6_ifaddr \<Rightarrow> ipv6_ifaddr option" where
  "ipaddr6_parse_ipv6_ifaddr str out = ipaddr6_parse_ipv6_ifaddr_bin str out"

text \<open>The byte whose topmost bits are set.\<close>

definition prefix_byte :: "nat \<Rightarrow> u8" where
  "prefix_byte n = fold (\<lambda>i t. t OR push_bit (8 - i - 1) 1) [0 ..< n] 0"

definition ipaddr6_ipv6_mask_from_prefix :: "int \<Rightarrow> ipv6_addr \<Rightarrow> ipv6_addr option" where
  "ipaddr6_ipv6_mask_from_prefix prefix out_mask =
     (if 0 \<le> prefix \<and> prefix \<le> 128 then
        let quot = nat (prefix div 8);
            rem = nat (prefix mod 8);
            m = (if quot > 0 then write_at out_mask 0 (replicate quot 0xFF) else out_mask);
            m = (if 16 - quot > 0 then write_at m quot (replicate (16 - quot) 0) else m)
        in Some (fold (\<lambda>i m. m[quot := (m ! quot) OR push_bit (8 - i - 1) 1]) [0 ..< rem] m)
      else None)"

function prefix6_loop :: "u8 \<Rightarrow> nat \<Rightarrow> u8 \<Rightarrow> nat" where
  "prefix6_loop byte j t =
     (if j \<le> 8 then
        if byte = t then j
        else prefix6_loop byte (j + 1) (if j < 8 then t OR push_bit (8 - j - 1) 1 else t)
      else j)"
  by auto

termination
  by (relation "measure (\<lambda>(_, j, _). 9 - j)") auto

definition ipaddr6_ipv6_prefix_from_mask :: "ipv6_addr \<Rightarrow> int option" where
  "ipaddr6_ipv6_prefix_from_mask msk =
     (let i = length (takeWhile (\<lambda>b. b = 0xFF) (take 16 msk));
          prefix = 8 * int i
      in if i < 16 then
           let j = prefix6_loop (msk ! i) 0 0
           in if \<not> (j \<le> 8) then None
              else if \<exists>b \<in> set (drop (i + 1) (take 16 msk)). b \<noteq> 0 then None
              else Some (prefix + int j)
         else Some prefix)"

definition ipaddr6_ipv6_ifaddr_from_addr_mask :: "ipv6_addr \<Rightarrow> ipv6_addr \<Rightarrow> ipv6_ifaddr option" where
  "ipaddr6_ipv6_ifaddr_from_addr_mask a msk =
     do { prefix \<leftarrow> ipaddr6_ipv6_prefix_from_mask msk; Some \<lparr>if6_addr = a, if6_prefix = prefix\<rparr> }"

definition ipaddr6_ipv6_addrs_in_network :: "ipv6_addr \<Rightarrow> ipv6_addr \<Rightarrow> int \<Rightarrow> bool option" where
  "ipaddr6_ipv6_addrs_in_network addr1 addr2 netprefix =
     (if 0 \<le> netprefix \<and> netprefix \<le> 128 then
        let quot = nat (netprefix div 8);
            rem = nat (netprefix mod 8)
        in if take quot addr1 \<noteq> take quot addr2 then Some False
           else if rem = 0 then Some True
           else let t = prefix_byte rem
                in Some (((addr1 ! quot) AND t) = ((addr2 ! quot) AND t))
      else None)"

text \<open>The search for the longest run of zero blocks: start and length of the longest and of the
  current run.\<close>

definition zero_run_step :: "ipv6_addr \<Rightarrow> nat \<Rightarrow> nat \<times> nat \<times> nat \<times> nat \<Rightarrow> nat \<times> nat \<times> nat \<times> nat" where
  "zero_run_step a i = (\<lambda>(largest_start, largest_len, current_start, current_len).
     if a ! (2 * i) = 0 \<and> a ! (2 * i + 1) = 0 then
       let current_len = current_len + 1
       in if current_len > largest_len then (current_start, current_len, current_start, current_len)
          else (largest_start, largest_len, current_start, current_len)
     else (largest_start, largest_len, i + 1, 0))"

definition addr_block :: "ipv6_addr \<Rightarrow> nat \<Rightarrow> u16" where
  "addr_block a i = push_bit 8 (ucast (a ! (2 * i))) OR ucast (a ! (2 * i + 1))"

definition ipaddr6_print_addr :: "ipv6_addr \<Rightarrow> string" where
  "ipaddr6_print_addr a =
     (let (largest_start, largest_len, _, _) = fold (zero_run_step a) [0 ..< 8] (0, 0, 0, 0)
      in if largest_len > 1 then
           concat (map (\<lambda>i. hex_digits (unat (addr_block a i)) @ '':'') [0 ..< largest_start]) @
           (if largest_start = 0 then '':'' else []) @
           concat (map (\<lambda>i. '':'' @ hex_digits (unat (addr_block a i))) [largest_start + largest_len ..< 8]) @
           (if largest_start + largest_len = 8 then '':'' else [])
         else hex_digits (unat (addr_block a 0)) @
           concat (map (\<lambda>i. '':'' @ hex_digits (unat (addr_block a i))) [1 ..< 8]))"

definition ipaddr6_print_ifaddr :: "ipv6_ifaddr \<Rightarrow> string option" where
  "ipaddr6_print_ifaddr a =
     (if 0 \<le> if6_prefix a \<and> if6_prefix a \<le> 128
      then Some (ipaddr6_print_addr (if6_addr a) @ ''/'' @ dec_digits (nat (if6_prefix a)))
      else None)"

section \<open>IPv4\<close>

declare ipv4_addr_loop.simps [simp del] prefix_loop.simps [simp del] prefix6_loop.simps [simp del] parse6_loop.simps [simp del]

lemma base_digits_digits:
  assumes "2 \<le> b" "b \<le> 16" "c \<in> set (base_digits b n)"
  shows "digit_value b c \<noteq> None"
  using assms(3)
proof (induction n rule: less_induct)
  case (less n)
  show ?case
  proof (cases "n < b")
    case True
    then show ?thesis using less.prems assms(2) by (subst (asm) base_digits.simps) (simp add: digit_value_digit_char)
  next
    case False
    then have "c \<in> set (base_digits b (n div b)) \<or> c = digit_char (n mod b)"
      using less.prems assms(1) by (subst (asm) base_digits.simps) auto
    then show ?thesis using less.IH [of "n div b"] False assms(1,2) by (auto simp: digit_value_digit_char)
  qed
qed

lemma length_dec_digits: "n < 10 ^ k \<Longrightarrow> 1 \<le> k \<Longrightarrow> length (dec_digits n) \<le> k"
proof (induction k arbitrary: n)
  case (Suc k)
  show ?case
  proof (cases "n < 10")
    case True
    then show ?thesis by (simp add: dec_digits_def base_digits.simps)
  next
    case False
    then have "n div 10 < 10 ^ k" "1 \<le> k" using Suc.prems(1) by (auto simp: div_less_iff_less_mult mult.commute Suc_le_eq intro!: Nat.gr0I)
    then have "length (dec_digits (n div 10)) \<le> k" using Suc.IH by blast
    then show ?thesis using False by (simp add: dec_digits_def base_digits.simps [of 10 n])
  qed
qed simp

lemma dec_digits_props:
  "dec_digits n \<noteq> []" "c \<in> set (dec_digits n) \<Longrightarrow> c \<noteq> CHR ''.''" "c \<in> set (dec_digits n) \<Longrightarrow> c \<noteq> CHR '':''"
  "c \<in> set (dec_digits n) \<Longrightarrow> c \<noteq> CHR ''/''"
  using base_value_base_digits(2) [of 10 n] base_digits_digits [of 10 c n]
  by (auto simp: dec_digits_def digit_value_def)

lemma takeWhile_upto: "(\<And>x. x \<in> set xs \<Longrightarrow> P x) \<Longrightarrow> \<not> P y \<Longrightarrow> takeWhile P (xs @ y # ys) = xs"
  by simp

lemma ipv4_addr_loop_digits:
  assumes "n < 256" "i \<le> 3" "rest = (if i < 3 then CHR ''.'' # name else [])"
  shows "ipv4_addr_loop (dec_digits n @ rest) i out =
    (if i < 3 then ipv4_addr_loop name (i + 1) (out[i := of_nat n]) else Some (out[i := of_nat n]))"
proof -
  let ?d = "dec_digits n"
  have j: "takeWhile (\<lambda>c. c \<noteq> CHR ''.'') (?d @ rest) = ?d"
    using dec_digits_props(2) [of _ n] assms(3) by (cases "i < 3") (auto intro: takeWhile_eq_all_conv [THEN iffD2])
  have len: "1 \<le> length ?d" "length ?d \<le> 3"
    using dec_digits_props(1) [of n] length_dec_digits [of n 3] assms(1) by (auto simp: Suc_le_eq)
  have p: "parse_unsigned_integer_bin ?d = Some (of_nat n)" using parse_dec_digits [of n] assms(1) by simp
  have d: "\<not> (of_nat n :: u64) > 255" "ucast (of_nat n :: u64) = (of_nat n :: u8)"
    using assms(1) of_nat_unat [of "of_nat n :: u64", where ?'a = "8 word"]
    by (simp_all add: word_less_nat_alt unat_of_nat_small)
  show ?thesis
    unfolding ipv4_addr_loop.simps [of "?d @ rest"] j Let_def
    using assms(2,3) len p d by (cases "i < 3") auto
qed

lemma parse_print_ipv4: "ipaddr_parse_ipv4_addr_bin (ipaddr_print_addr a) old = Some a"
proof -
  obtain b0 b1 b2 b3 where b: "mem32 a = [b0, b1, b2, b3]" using length_mem32 [of a] unfolding length_4_conv by blast
  obtain o0 o1 o2 o3 where old: "mem32 old = [o0, o1, o2, o3]" using length_mem32 [of old] unfolding length_4_conv by blast
  have "ipv4_addr_loop (ipaddr_print_addr a) 0 (mem32 old) = Some [b0, b1, b2, b3]"
    unfolding ipaddr_print_addr_def b old Let_def
    using ipv4_addr_loop_digits [of "unat b3" 3 "[]"]
    by (simp add: ipv4_addr_loop_digits numeral_3_eq_3)
  then show ?thesis using host32_mem32 [of a] by (simp add: ipaddr_parse_ipv4_addr_bin_def b)
qed

text \<open>Masks and prefixes.\<close>

lemma prefix_bits_Suc: "i < 32 \<Longrightarrow> prefix_bits (Suc i) = prefix_bits i OR push_bit (32 - i - 1) 1"
  by (simp add: prefix_bits_def)

lemma bit_prefix_bits: "n \<le> 32 \<Longrightarrow> bit (prefix_bits n) k \<longleftrightarrow> 32 - n \<le> k \<and> k < 32"
proof (induction n)
  case 0
  then show ?case by (simp add: prefix_bits_def)
next
  case (Suc n)
  then show ?case
    by (auto simp: prefix_bits_Suc bit_or_iff bit_exp_iff)
qed

lemma prefix_bits_distinct: "i \<le> 32 \<Longrightarrow> j \<le> 32 \<Longrightarrow> prefix_bits i = prefix_bits j \<longleftrightarrow> i = j"
proof -
  have less: "prefix_bits i \<noteq> prefix_bits j" if "i < j" "j \<le> 32" for i j
  proof -
    have "\<not> bit (prefix_bits i) (32 - j)" "bit (prefix_bits j) (32 - j)" using that by (auto simp: bit_prefix_bits)
    then show ?thesis by metis
  qed
  show "i \<le> 32 \<Longrightarrow> j \<le> 32 \<Longrightarrow> prefix_bits i = prefix_bits j \<longleftrightarrow> i = j"
    using less [of i j] less [of j i] by (metis linorder_neqE_nat)
qed

lemma hton32_hton32 [simp]: "hton32 (hton32 x) = x"
  by (metis host32_mem32 mem32_hton32 rev_rev_ident)

lemma hton32_eq_iff [simp]: "hton32 x = hton32 y \<longleftrightarrow> x = y"
  by (metis hton32_hton32)

lemma prefix_loop_spec:
  assumes "i \<le> 33"
  shows "prefix_loop m i (prefix_bits (min i 32)) =
    (if \<exists>j. i \<le> j \<and> j \<le> 32 \<and> ntoh32 m = prefix_bits j then (THE j. j \<le> 32 \<and> ntoh32 m = prefix_bits j) else 33)"
  using assms
proof (induction "33 - i" arbitrary: i)
  case 0
  then show ?case by (subst prefix_loop.simps) auto
next
  case (Suc k)
  then have i: "i \<le> 32" by simp
  have the: "(THE j. j \<le> 32 \<and> ntoh32 m = prefix_bits j) = i" if "ntoh32 m = prefix_bits i"
    using that i prefix_bits_distinct by (intro the_equality) auto
  have rest: "(\<exists>j. i \<le> j \<and> j \<le> 32 \<and> ntoh32 m = prefix_bits j) \<longleftrightarrow> (\<exists>j. i + 1 \<le> j \<and> j \<le> 32 \<and> ntoh32 m = prefix_bits j)"
    if "ntoh32 m \<noteq> prefix_bits i"
    using that by (metis Suc_eq_plus1 le_SucI not_less_eq_eq order_antisym_conv)
  have next_t: "(if i < 32 then prefix_bits i OR push_bit (32 - i - 1) 1 else prefix_bits i) = prefix_bits (min (i + 1) 32)"
    using i prefix_bits_Suc by (auto simp: min_def)
  show ?case
  proof (cases "ntoh32 m = prefix_bits i")
    case True
    then show ?thesis using the i by (subst prefix_loop.simps) auto
  next
    case False
    then have "prefix_loop m i (prefix_bits (min i 32)) =
        prefix_loop m (i + 1) (if i < 32 then prefix_bits i OR push_bit (32 - i - 1) 1 else prefix_bits i)"
      using i by (subst prefix_loop.simps) (simp add: min_absorb1)
    then have "prefix_loop m i (prefix_bits (min i 32)) = prefix_loop m (i + 1) (prefix_bits (min (i + 1) 32))"
      unfolding next_t .
    then show ?thesis using Suc.hyps(1) [of "i + 1"] Suc.hyps(2) rest [OF False] by simp
  qed
qed

lemma prefix_from_mask_iff:
  "ipaddr_ipv4_prefix_from_mask m = Some p \<longleftrightarrow> ipaddr_ipv4_mask_from_prefix p = Some m"
proof -
  have z: "prefix_bits 0 = 0" by (simp add: prefix_bits_def)
  have L: "prefix_loop m 0 0 = (if \<exists>j \<le> 32. ntoh32 m = prefix_bits j then (THE j. j \<le> 32 \<and> ntoh32 m = prefix_bits j) else 33)"
    using prefix_loop_spec [of 0 m] by (simp add: z)
  have inv: "ntoh32 m = x \<longleftrightarrow> m = hton32 x" for x by (auto simp: ntoh32_def)
  show ?thesis
  proof (cases "\<exists>j \<le> 32. ntoh32 m = prefix_bits j")
    case True
    then obtain j where j: "j \<le> 32" "ntoh32 m = prefix_bits j" by blast
    have the: "(THE j. j \<le> 32 \<and> ntoh32 m = prefix_bits j) = j"
      using j prefix_bits_distinct by (intro the_equality) auto
    then have "ipaddr_ipv4_prefix_from_mask m = Some (int j)"
      using L True j(1) by (auto simp: ipaddr_ipv4_prefix_from_mask_def Let_def)
    then show ?thesis
      using j inv by (auto simp: ipaddr_ipv4_mask_from_prefix_def nat_le_iff prefix_bits_distinct)
  next
    case False
    then have "ipaddr_ipv4_prefix_from_mask m = None" using L by (auto simp: ipaddr_ipv4_prefix_from_mask_def Let_def)
    moreover have "ipaddr_ipv4_mask_from_prefix p \<noteq> Some m"
      using False inv [of "prefix_bits (nat p)"] nat_le_iff [of p 32]
      by (auto simp: ipaddr_ipv4_mask_from_prefix_def)
    ultimately show ?thesis by simp
  qed
qed

section \<open>IPv6: reading back a printed address\<close>

text \<open>The bytes of a list of blocks.\<close>

definition block_bytes :: "u16 \<Rightarrow> bytes" where
  "block_bytes w = [ucast (drop_bit 8 w), ucast (w AND 0xFF)]"

definition blocks_bytes :: "u16 list \<Rightarrow> bytes" where
  "blocks_bytes ws = concat (map block_bytes ws)"

lemma blocks_bytes_simps [simp]:
  "blocks_bytes [] = []" "blocks_bytes (w # ws) = block_bytes w @ blocks_bytes ws"
  "blocks_bytes (ws @ vs) = blocks_bytes ws @ blocks_bytes vs"
  by (simp_all add: blocks_bytes_def)

lemma length_blocks_bytes [simp]: "length (blocks_bytes ws) = 2 * length ws"
  by (induction ws) (simp_all add: block_bytes_def)

lemma blocks_bytes_zero: "blocks_bytes (replicate n 0) = replicate (2 * n) 0"
  by (induction n) (simp_all add: block_bytes_def replicate_add)

lemma block_bytes_addr_block:
  "block_bytes (push_bit 8 (ucast (a :: u8)) OR ucast (b :: u8)) = [a, b]"
proof -
  define x :: u16 where "x = push_bit 8 (ucast a) OR ucast b"
  have x: "unat x = 256 * unat a + unat b"
    using unat_read_be16 [of a b "[]"] by (simp add: x_def badvpn_read_be16_def)
  have "x AND 0xFF = take_bit 8 x" by (simp add: take_bit_eq_mask mask_numeral)
  then have "unat (ucast (x AND 0xFF) :: u8) = unat x mod 256" by (simp add: word_conv take_bit_eq_mod unat_mod)
  moreover have "unat (ucast (drop_bit 8 x) :: u8) = unat x div 256 mod 256" by (simp add: word_conv)
  ultimately show ?thesis
    unfolding x_def [symmetric] by (simp add: block_bytes_def word_unat_eq_iff x)
qed

lemma addr_blocks:
  assumes "length a = 16"
  shows "blocks_bytes (map (addr_block a) [0 ..< 8]) = a"
proof -
  have upt8: "[0 ..< 8] = [0, 1, 2, 3, 4, 5, 6, 7 :: nat]" by code_simp
  have upt16: "[0 ..< 16] = [0, 1, 2, 3, 4, 5, 6, 7, 8, 9, 10, 11, 12, 13, 14, 15 :: nat]" by code_simp
  have "block_bytes (addr_block a i) = [a ! (2 * i), a ! (2 * i + 1)]" for i
    using block_bytes_addr_block by (simp add: addr_block_def)
  then have "blocks_bytes (map (addr_block a) [0 ..< 8]) = map ((!) a) [0 ..< 16]"
    unfolding blocks_bytes_def upt8 upt16 by simp
  then show ?thesis using map_nth [of a] assms by simp
qed

text \<open>
  \<open>at6 ws cp w emp i\<close>: the parser has stored the blocks \<open>ws\<close>, found the compression at \<open>cp\<close>,
  and is reading block \<open>w\<close> at position i.
\<close>

definition at6 :: "bytes \<Rightarrow> u16 list \<Rightarrow> int \<Rightarrow> u16 \<Rightarrow> bool \<Rightarrow> nat \<Rightarrow> ipv6_parse" where
  "at6 old ws cp w emp i = \<lparr>p6_bytes = blocks_bytes ws @ drop (2 * length ws) old,
     p6_num_blocks = int (length ws), p6_compress_pos = cp, p6_block = w, p6_empty = emp, p6_i = i\<rparr>"

lemma store_block_at6:
  assumes "length ws < 8" "length old = 16"
  shows "store_block (at6 old ws cp w emp i) = at6 old (ws @ [w]) cp w emp i"
proof -
  let ?n = "length ws"
  have "drop (2 * ?n) old = old ! (2 * ?n) # old ! (2 * ?n + 1) # drop (2 * (?n + 1)) old"
    using assms by (simp add: Cons_nth_drop_Suc)
  then show ?thesis
    by (simp add: store_block_def at6_def block_bytes_def list_update_append Let_def)
qed

lemma parse6_digits:
  assumes "base_value_from 16 (unat w) ds = Some v" "v < 65536" "\<And>c. c \<in> set ds \<Longrightarrow> digit_value 16 c \<noteq> None"
    "name = pre @ ds @ rest" "i = length pre"
  shows "parse6_loop name (at6 old ws cp w emp i) =
    parse6_loop name (at6 old ws cp (of_nat v) (emp \<and> ds = []) (i + length ds))"
  using assms
proof (induction ds arbitrary: w emp i pre)
  case (Cons c ds)
  obtain d where d: "digit_value 16 c = Some d" "base_value_from 16 (16 * unat w + d) ds = Some v"
    using Cons.prems(1) by (auto split: option.splits)
  have le: "16 * unat w + d \<le> v"
  proof -
    have "(16 * unat w + d) * 1 \<le> (16 * unat w + d) * 16 ^ length ds" by (intro mult_left_mono) simp_all
    also have "\<dots> \<le> v" using base_value_from_bounds(1) [OF d(2)] by simp
    finally show ?thesis by simp
  qed
  have d16: "d < 16" using digit_value_less [OF d(1)] .
  have w: "unat w < 4096" using le Cons.prems(2) by linarith
  have w16: "unat (w * 16) = unat w * 16" using w by (subst unat_mult_lem [THEN iffD1]) simp_all
  have new: "unat (w * 16 + of_nat d) = 16 * unat w + d"
    using w16 le d16 Cons.prems(2) by (subst unat_add_lem [THEN iffD1]) (simp_all add: unat_of_nat_small)
  have "\<not> w > 0xFFFF div 16" using w by (simp add: word_less_nat_alt)
  moreover have "unat (0xFFFF - w * 16) = 65535 - unat w * 16"
    using w w16 by (subst unat_sub) (simp_all add: word_le_nat_alt)
  then have "uint (0xFFFF - w * 16) = int (65535 - unat w * 16)"
    using of_nat_unat [of "0xFFFF - w * 16", where ?'a = int] by metis
  then have "\<not> int d > uint (0xFFFF - w * 16)"
    using le Cons.prems(2) by linarith
  ultimately have dig: "parse6_digit (at6 old ws cp w emp i) c = Some (at6 old ws cp (w * 16 + of_nat d) False i)"
    using d(1) by (simp add: parse6_digit_def decode_digit_value Let_def at6_def)
  have c: "c \<noteq> CHR ''.''" "c \<noteq> CHR '':''" using d(1) by (auto simp: digit_value_def)
  have "name ! i = c" "i < length name" using Cons.prems(4,5) by simp_all
  then have "parse6_loop name (at6 old ws cp w emp i) = parse6_loop name (at6 old ws cp (w * 16 + of_nat d) False (i + 1))"
    using c dig by (subst parse6_loop.simps) (simp add: at6_def)
  also have "\<dots> = parse6_loop name (at6 old ws cp (of_nat v) (False \<and> ds = []) (i + 1 + length ds))"
    using Cons.prems d(2) new by (intro Cons.IH [of _ "pre @ [c]"]) simp_all
  finally show ?case by simp
qed auto

lemma hex_digits_props:
  "hex_digits n \<noteq> []" "c \<in> set (hex_digits n) \<Longrightarrow> digit_value 16 c \<noteq> None" "base_value_from 16 0 (hex_digits n) = Some n"
  using base_value_base_digits [of 16 n] base_digits_digits [of 16 c n] by (auto simp: hex_digits_def base_value_def)

lemma parse6_block:
  assumes "name = pre @ hex_digits (unat w) @ rest" "i = length pre"
  shows "parse6_loop name (at6 old ws cp 0 True i) =
    parse6_loop name (at6 old ws cp w False (i + length (hex_digits (unat w))))"
  using parse6_digits [of 0 "hex_digits (unat w)" "unat w" name pre rest i old ws cp True]
    hex_digits_props(1,3) [of "unat w"] hex_digits_props(2) [of _ "unat w"] assms
  by auto

lemma parse6_single_colon:
  assumes "0 < i" "i < length name" "name ! i = CHR '':''" "\<not> (i + 1 < length name \<and> name ! (i + 1) = CHR '':'')"
    "length ws < 7" "length old = 16"
  shows "parse6_loop name (at6 old ws cp w False i) = parse6_loop name (at6 old (ws @ [w]) cp 0 True (i + 1))"
  using assms store_block_at6 [of ws old cp w False i]
  by (subst parse6_loop.simps) (auto simp: parse6_colon_def at6_def Let_def)

lemma parse6_double_colon:
  assumes "0 < i" "i + 1 < length name" "name ! i = CHR '':''" "name ! (i + 1) = CHR '':''" "length ws < 7" "length old = 16"
  shows "parse6_loop name (at6 old ws (- 1) w False i) =
    parse6_loop name (at6 old (ws @ [w]) (1 + int (length ws)) 0 True (i + 2))"
  using assms store_block_at6 [of ws old "- 1" w False i]
  by (subst parse6_loop.simps) (simp add: parse6_colon_def at6_def Let_def)

lemma parse6_start_colon:
  assumes "1 < length name" "name ! 0 = CHR '':''" "name ! 1 = CHR '':''"
  shows "parse6_loop name (at6 old [] (- 1) 0 True 0) = parse6_loop name (at6 old [] 0 0 True 2)"
  using assms by (subst parse6_loop.simps) (auto simp: parse6_colon_def at6_def Let_def numeral_2_eq_2)

text \<open>Blocks with colons between them.\<close>

fun join6 :: "u16 list \<Rightarrow> string" where
  "join6 [] = []"
| "join6 [w] = hex_digits (unat w)"
| "join6 (w # v # vs) = hex_digits (unat w) @ '':'' @ join6 (v # vs)"

lemma join6_hd: "vs \<noteq> [] \<Longrightarrow> join6 vs \<noteq> [] \<and> hd (join6 vs) \<noteq> CHR '':''"
proof (induction vs rule: join6.induct)
  case (2 w)
  then show ?case using hex_digits_props(1) hex_digits_props(2) [of "hd (hex_digits (unat w))" "unat w"]
    by (auto simp: digit_value_def)
next
  case (3 w v vs)
  then show ?case using hex_digits_props(1) hex_digits_props(2) [of "hd (hex_digits (unat w))" "unat w"]
    by (auto simp: digit_value_def)
qed simp

lemma parse6_join:
  assumes "vs \<noteq> []" "name = pre @ join6 vs @ rest" "i = length pre" "length ws + length vs \<le> 8" "length old = 16"
  shows "parse6_loop name (at6 old ws cp 0 True i) =
    parse6_loop name (at6 old (ws @ butlast vs) cp (last vs) False (i + length (join6 vs)))"
  using assms
proof (induction vs arbitrary: ws pre i rule: join6.induct)
  case (2 w)
  then show ?case using parse6_block [of name pre w rest i] by simp
next
  case (3 w v vs)
  let ?h = "hex_digits (unat w)" and ?j = "i + length (hex_digits (unat w))"
  have name: "name = pre @ ?h @ CHR '':'' # join6 (v # vs) @ rest" using "3.prems"(2) by simp
  have "parse6_loop name (at6 old ws cp 0 True i) = parse6_loop name (at6 old ws cp w False ?j)"
    using parse6_block [of name pre w "CHR '':'' # join6 (v # vs) @ rest" i] name "3.prems"(3) by simp
  also have "\<dots> = parse6_loop name (at6 old (ws @ [w]) cp 0 True (?j + 1))"
  proof (rule parse6_single_colon)
    have "name ! (?j + 1) = hd (join6 (v # vs))" using name "3.prems"(3) join6_hd [of "v # vs"]
      by (simp add: nth_append hd_append hd_conv_nth)
    then show "\<not> (?j + 1 < length name \<and> name ! (?j + 1) = CHR '':'')" using join6_hd [of "v # vs"] by simp
  qed (use name "3.prems" hex_digits_props(1) in \<open>auto simp: nth_append\<close>)
  also have "\<dots> = parse6_loop name (at6 old ((ws @ [w]) @ butlast (v # vs)) cp (last (v # vs)) False (?j + 1 + length (join6 (v # vs))))"
    using "3.prems" name by (intro "3.IH" [of "pre @ ?h @ '':''"]) simp_all
  finally show ?case by (simp add: add.assoc)
qed simp

lemma parse6_finish:
  assumes "i = length name"
  shows "parse6_loop name (at6 old ws cp w emp i) = Some (False, at6 old ws cp w emp i)"
  using assms by (subst parse6_loop.simps) (simp add: at6_def)

lemma parse6_done_at6:
  assumes "length as + length bs \<le> 8" "length old = 16"
  shows "parse6_done (at6 old (as @ bs) (int (length as)) w emp i) =
    Some (blocks_bytes (as @ replicate (8 - length as - length bs) 0 @ bs))"
proof -
  let ?a = "blocks_bytes as" and ?b = "blocks_bytes bs" and ?n = "8 - length as - length bs"
  let ?bytes = "?a @ ?b @ drop (2 * (length as + length bs)) old"
  have n: "nat (2 * (8 - int (length bs))) = 2 * length as + 2 * ?n"
    "nat (16 - (2 * int (length as) + 2 * int (length bs))) = 2 * ?n" "nat (2 * int (length as)) = 2 * length as"
    "nat (2 * int (length bs)) = 2 * length bs"
    using assms(1) by auto
  have code: "parse6_done (at6 old (as @ bs) (int (length as)) w emp i) =
      Some (write_at (write_at ?bytes (nat (2 * (8 - int (length bs))))
        (read_at ?bytes (nat (2 * int (length as))) (nat (2 * int (length bs)))))
        (nat (2 * int (length as))) (replicate (nat (16 - (2 * int (length as) + 2 * int (length bs)))) 0))"
    by (simp add: parse6_done_def at6_def Let_def)
  have "write_at ?bytes (2 * length as + 2 * ?n) ?b = take (2 * length as + 2 * ?n) ?bytes @ ?b"
    using assms by (simp add: write_at_def)
  moreover have "write_at (take (2 * length as + 2 * ?n) ?bytes @ ?b) (2 * length as) (replicate (2 * ?n) 0) = ?a @ replicate (2 * ?n) 0 @ ?b"
    using assms by (simp add: write_at_def)
  moreover have "read_at ?bytes (2 * length as) (2 * length bs) = ?b" by (simp add: read_at_def)
  ultimately show ?thesis
    unfolding code n by (simp only: blocks_bytes_simps blocks_bytes_zero)
qed

lemma parse6_end_at6:
  assumes "ws \<noteq> []" "length ws \<le> 8" "length old = 16"
  shows "parse6_end (at6 old (butlast ws) cp (last ws) False i) = Some (at6 old ws cp (last ws) False i)"
  using store_block_at6 [of "butlast ws" old cp "last ws" False i] assms
  by (simp add: parse6_end_def) (simp add: at6_def)

text \<open>An address without compression, and one with.\<close>

lemma parse6_plain:
  assumes "length ws = 8" "length old = 16"
  shows "ipaddr6_parse_ipv6_addr_bin (join6 ws) old = Some (blocks_bytes ws)"
proof -
  have ne: "ws \<noteq> []" using assms by auto
  let ?s = "at6 old [] (- 1) 0 True 0"
  have "parse6_loop (join6 ws) ?s = Some (False, at6 old (butlast ws) (- 1) (last ws) False (length (join6 ws)))"
    using parse6_join [of ws "join6 ws" "[]" "[]" 0 "[]" old "- 1"] parse6_finish [of "length (join6 ws)" "join6 ws"] ne assms
    by simp
  moreover have "parse6_end (at6 old (butlast ws) (- 1) (last ws) False (length (join6 ws))) =
      Some (at6 old ws (- 1) (last ws) False (length (join6 ws)))"
    using parse6_end_at6 ne assms by simp
  moreover have "parse6_done (at6 old ws (- 1) (last ws) False (length (join6 ws))) = parse6_done (at6 old ([] @ ws) (int (length ([] :: u16 list))) (last ws) False (length (join6 ws)))"
    using assms(1) by (simp add: parse6_done_def at6_def)
  ultimately show ?thesis
    using parse6_done_at6 [of "[]" ws old "last ws" False "length (join6 ws)"] assms
    by (simp add: ipaddr6_parse_ipv6_addr_bin_def at6_def)
qed

lemma parse6_compressed:
  assumes "length as + length bs \<le> 7" "length old = 16"
  shows "ipaddr6_parse_ipv6_addr_bin (join6 as @ ''::'' @ join6 bs) old =
    Some (blocks_bytes (as @ replicate (8 - length as - length bs) 0 @ bs))"
proof -
  let ?name = "join6 as @ ''::'' @ join6 bs" and ?i = "length (join6 as) + 2"
  have 1: "parse6_loop ?name (at6 old [] (- 1) 0 True 0) = parse6_loop ?name (at6 old as (int (length as)) 0 True ?i)"
  proof (cases "as = []")
    case True
    then show ?thesis using parse6_start_colon [of ?name old] by (simp add: numeral_2_eq_2)
  next
    case False
    then have j: "join6 as \<noteq> []" using join6_hd by blast
    have "parse6_loop ?name (at6 old [] (- 1) 0 True 0) =
        parse6_loop ?name (at6 old (butlast as) (- 1) (last as) False (length (join6 as)))"
      using parse6_join [of as ?name "[]" "''::'' @ join6 bs" 0 "[]" old "- 1"] False assms by simp
    also have "\<dots> = parse6_loop ?name (at6 old (butlast as @ [last as]) (1 + int (length (butlast as))) 0 True ?i)"
      using j assms by (intro parse6_double_colon) (auto simp: nth_append)
    finally show ?thesis using False by (simp add: Suc_le_eq)
  qed
  have 2: "\<exists>s w. parse6_loop ?name (at6 old as (int (length as)) 0 True ?i) = Some (False, s) \<and>
      parse6_end s = Some (at6 old (as @ bs) (int (length as)) w (bs = []) (length ?name))"
  proof (cases "bs = []")
    case True
    then show ?thesis using parse6_finish [of ?i ?name old as "int (length as)" 0 True]
      by (simp add: parse6_end_def) (simp add: at6_def)
  next
    case False
    have "parse6_loop ?name (at6 old as (int (length as)) 0 True ?i) =
        parse6_loop ?name (at6 old (as @ butlast bs) (int (length as)) (last bs) False (?i + length (join6 bs)))"
      using parse6_join [of bs ?name "join6 as @ ''::''" "[]" ?i as old "int (length as)"] False assms by simp
    also have "\<dots> = Some (False, at6 old (butlast (as @ bs)) (int (length as)) (last (as @ bs)) False (length ?name))"
      using parse6_finish [of "?i + length (join6 bs)" ?name] False by (simp add: butlast_append)
    finally show ?thesis using parse6_end_at6 [of "as @ bs" old] False assms by auto
  qed
  from 1 2 show ?thesis
    using parse6_done_at6 [of as bs old] assms
    by (auto simp: ipaddr6_parse_ipv6_addr_bin_def at6_def [of old "[]" "- 1" 0 True 0])
qed

section \<open>IPv6: printing\<close>

definition zero_block :: "ipv6_addr \<Rightarrow> nat \<Rightarrow> bool" where
  "zero_block a k \<longleftrightarrow> a ! (2 * k) = 0 \<and> a ! (2 * k + 1) = 0"

lemma zero_run_step_eq:
  "zero_run_step a n (ls, ll, cs, cl) =
    (if zero_block a n then if cl + 1 > ll then (cs, cl + 1, cs, cl + 1) else (ls, ll, cs, cl + 1) else (ls, ll, n + 1, 0))"
  by (simp add: zero_run_step_def zero_block_def Let_def)

lemma zero_runs:
  assumes "fold (zero_run_step a) [0 ..< n] (0, 0, 0, 0) = (ls, ll, cs, cl)"
  shows "ls + ll \<le> n \<and> (\<forall>k. ls \<le> k \<and> k < ls + ll \<longrightarrow> zero_block a k) \<and>
    cs + cl = n \<and> (\<forall>k. cs \<le> k \<and> k < n \<longrightarrow> zero_block a k)"
  using assms
proof (induction n arbitrary: ls ll cs cl)
  case (Suc n)
  obtain ls' ll' cs' cl' where f: "fold (zero_run_step a) [0 ..< n] (0, 0, 0, 0) = (ls', ll', cs', cl')"
    by (metis prod_cases4)
  note IH = Suc.IH [OF f]
  have step: "zero_run_step a n (ls', ll', cs', cl') = (ls, ll, cs, cl)" using Suc.prems f by simp
  show ?case
  proof (cases "zero_block a n")
    case True
    then show ?thesis using step IH
      by (auto simp: zero_run_step_eq less_Suc_eq split: if_splits)
  next
    case False
    then show ?thesis using step IH
      by (auto simp: zero_run_step_eq)
  qed
qed simp

lemma zero_block_addr_block: "zero_block a k \<Longrightarrow> addr_block a k = 0"
  by (simp add: zero_block_def addr_block_def)

lemma join6_front: "ws \<noteq> [] \<Longrightarrow> concat (map (\<lambda>w. hex_digits (unat w) @ '':'') ws) = join6 ws @ '':''"
  by (induction ws rule: join6.induct) auto

lemma join6_back: "ws \<noteq> [] \<Longrightarrow> concat (map (\<lambda>w. '':'' @ hex_digits (unat w)) ws) = '':'' @ join6 ws"
  by (induction ws rule: join6.induct) auto

lemma print6_cases:
  assumes "length a = 16"
  shows "ipaddr6_print_addr a = join6 (map (addr_block a) [0 ..< 8]) \<or>
    (\<exists>as bs. ipaddr6_print_addr a = join6 as @ ''::'' @ join6 bs \<and> length as + length bs \<le> 6 \<and>
      map (addr_block a) [0 ..< 8] = as @ replicate (8 - length as - length bs) 0 @ bs)"
proof -
  obtain ls ll cs cl where f: "fold (zero_run_step a) [0 ..< 8] (0, 0, 0, 0) = (ls, ll, cs, cl)" by (metis prod_cases4)
  note R = zero_runs [OF f]
  show ?thesis
  proof (cases "ll > 1")
    case False
    have "[0 ..< 8] = 0 # [1 ..< (8 :: nat)]" using upt_conv_Cons [of 0 8] by simp
    then have "join6 (map (addr_block a) [0 ..< 8]) = hex_digits (unat (addr_block a 0)) @
        concat (map (\<lambda>w. '':'' @ hex_digits (unat w)) (map (addr_block a) [1 ..< 8]))"
      using join6_back [of "map (addr_block a) [1 ..< 8]"] by (cases "map (addr_block a) [1 ..< 8]") auto
    then show ?thesis using False by (simp add: ipaddr6_print_addr_def f comp_def)
  next
    case True
    let ?as = "map (addr_block a) [0 ..< ls]" and ?bs = "map (addr_block a) [ls + ll ..< 8]"
    have "ipaddr6_print_addr a = join6 ?as @ ''::'' @ join6 ?bs"
      using True join6_front [of ?as] join6_back [of ?bs] R
      by (auto simp: ipaddr6_print_addr_def f comp_def)
    moreover have "[0 ..< 8] = [0 ..< ls] @ [ls ..< ls + ll] @ [ls + ll ..< 8]"
      using R upt_add_eq_append [of 0 ls "8 - ls"] upt_add_eq_append [of ls "ls + ll" "8 - ls - ll"] by simp
    then have "map (addr_block a) [0 ..< 8] = ?as @ map (addr_block a) [ls ..< ls + ll] @ ?bs" by simp
    moreover have "map (addr_block a) [ls ..< ls + ll] = replicate ll 0"
      using R zero_block_addr_block by (intro nth_equalityI) auto
    moreover have "8 - length ?as - length ?bs = ll" "length ?as + length ?bs \<le> 6" using R True by auto
    ultimately show ?thesis by metis
  qed
qed

lemma parse_print_ipv6:
  assumes "length a = 16" "length old = 16"
  shows "ipaddr6_parse_ipv6_addr_bin (ipaddr6_print_addr a) old = Some a"
  using print6_cases [OF assms(1)]
proof
  assume "ipaddr6_print_addr a = join6 (map (addr_block a) [0 ..< 8])"
  then show ?thesis using parse6_plain [of "map (addr_block a) [0 ..< 8]" old] assms addr_blocks by simp
next
  assume "\<exists>as bs. ipaddr6_print_addr a = join6 as @ ''::'' @ join6 bs \<and> length as + length bs \<le> 6 \<and>
      map (addr_block a) [0 ..< 8] = as @ replicate (8 - length as - length bs) 0 @ bs"
  then obtain as bs where *: "ipaddr6_print_addr a = join6 as @ ''::'' @ join6 bs" "length as + length bs \<le> 6"
    "map (addr_block a) [0 ..< 8] = as @ replicate (8 - length as - length bs) 0 @ bs" by blast
  then show ?thesis using parse6_compressed [of as bs old] assms addr_blocks [OF assms(1)] by simp
qed

section \<open>IPv6: masks and prefixes\<close>

lemma bit_prefix_byte: "n \<le> 8 \<Longrightarrow> bit (prefix_byte n) k \<longleftrightarrow> 8 - n \<le> k \<and> k < 8"
proof (induction n)
  case (Suc n)
  then show ?case by (auto simp: prefix_byte_def bit_or_iff bit_exp_iff)
qed (simp add: prefix_byte_def)

lemma prefix_byte_distinct: "i \<le> 8 \<Longrightarrow> j \<le> 8 \<Longrightarrow> prefix_byte i = prefix_byte j \<longleftrightarrow> i = j"
proof -
  have less: "prefix_byte i \<noteq> prefix_byte j" if "i < j" "j \<le> 8" for i j
  proof -
    have "\<not> bit (prefix_byte i) (8 - j)" "bit (prefix_byte j) (8 - j)" using that by (auto simp: bit_prefix_byte)
    then show ?thesis by metis
  qed
  show "i \<le> 8 \<Longrightarrow> j \<le> 8 \<Longrightarrow> prefix_byte i = prefix_byte j \<longleftrightarrow> i = j"
    using less [of i j] less [of j i] by (metis linorder_neqE_nat)
qed

lemma prefix_byte_8: "prefix_byte 8 = 0xFF"
  by code_simp

lemma prefix6_loop_spec:
  assumes "j \<le> 9" "\<And>k. k < j \<Longrightarrow> k \<le> 8 \<Longrightarrow> b \<noteq> prefix_byte k"
  shows "prefix6_loop b j (prefix_byte (min j 8)) = (if \<exists>k \<le> 8. b = prefix_byte k then (THE k. k \<le> 8 \<and> b = prefix_byte k) else 9)"
  using assms
proof (induction "9 - j" arbitrary: j)
  case 0
  then have "j = 9" by simp
  then show ?case using 0 by (subst prefix6_loop.simps) (auto simp: less_Suc_eq_le)
next
  case (Suc n)
  then have j: "j \<le> 8" by simp
  have the: "(THE k. k \<le> 8 \<and> b = prefix_byte k) = j" if "b = prefix_byte j"
    using that j prefix_byte_distinct by (intro the_equality) auto
  have next_t: "(if j < 8 then prefix_byte j OR push_bit (8 - j - 1) 1 else prefix_byte j) = prefix_byte (min (j + 1) 8)"
    using j by (auto simp: min_def prefix_byte_def)
  show ?case
  proof (cases "b = prefix_byte j")
    case True
    then show ?thesis using the j by (subst prefix6_loop.simps) auto
  next
    case False
    then have "prefix6_loop b j (prefix_byte (min j 8)) =
        prefix6_loop b (j + 1) (if j < 8 then prefix_byte j OR push_bit (8 - j - 1) 1 else prefix_byte j)"
      using j by (subst prefix6_loop.simps) (simp add: min_absorb1)
    then have "prefix6_loop b j (prefix_byte (min j 8)) = prefix6_loop b (j + 1) (prefix_byte (min (j + 1) 8))"
      unfolding next_t .
    moreover have "b \<noteq> prefix_byte k" if "k < j + 1" "k \<le> 8" for k
      using that False Suc.prems(2) less_Suc_eq by auto
    ultimately show ?thesis using Suc.hyps(1) [of "j + 1"] Suc.hyps(2) by simp
  qed
qed

text \<open>The mask of a prefix: full bytes, one partial byte, zero bytes.\<close>

definition prefix_mask :: "nat \<Rightarrow> nat \<Rightarrow> bytes" where
  "prefix_mask q r = replicate q 0xFF @ (if q < 16 then prefix_byte r # replicate (15 - q) 0 else [])"

lemma mask6_from_prefix:
  assumes "length out = 16" "0 \<le> p" "p \<le> 128"
  shows "ipaddr6_ipv6_mask_from_prefix p out = Some (prefix_mask (nat (p div 8)) (nat (p mod 8)))"
proof -
  define q r where "q = nat (p div 8)" and "r = nat (p mod 8)"
  have "p div 8 = 16 \<Longrightarrow> p mod 8 = 0" using assms(2,3) by presburger
  then have q: "q \<le> 16" "q = 16 \<Longrightarrow> r = 0" "r < 8" using assms(2,3) by (auto simp: q_def r_def)
  define m where "m = replicate q (0xFF :: u8) @ replicate (16 - q) 0"
  have "(if 16 - q > 0 then write_at (if q > 0 then write_at out 0 (replicate q 0xFF) else out) q (replicate (16 - q) 0)
      else (if q > 0 then write_at out 0 (replicate q 0xFF) else out)) = m"
    using assms(1) q by (auto simp: m_def write_at_def)
  moreover have "fold (\<lambda>i m. m[q := (m ! q) OR push_bit (8 - i - 1) 1]) [0 ..< k] m = m[q := prefix_byte k]" if "q < 16" for k
  proof (induction k)
    case 0
    have "m ! q = 0" using that by (simp add: m_def nth_append)
    then show ?case using list_update_id [of m q] by (simp add: prefix_byte_def)
  next
    case (Suc k)
    then show ?case using that q(1) by (simp add: prefix_byte_def m_def)
  qed
  moreover have "m[q := prefix_byte r] = prefix_mask q r" if "q < 16"
  proof -
    have "replicate (16 - q) (0 :: u8) = 0 # replicate (15 - q) 0"
      using that by (simp flip: replicate_Suc)
    then show ?thesis using that by (simp add: m_def prefix_mask_def list_update_append)
  qed
  moreover have "m = prefix_mask q r" if "\<not> q < 16" using that q by (simp add: m_def prefix_mask_def)
  ultimately show ?thesis
    using assms(2,3) q unfolding ipaddr6_ipv6_mask_from_prefix_def Let_def q_def [symmetric] r_def [symmetric]
    by (cases "q < 16") auto
qed

lemma prefix6_loop_iff:
  "prefix6_loop b 0 0 = j \<and> j \<le> 8 \<longleftrightarrow> j \<le> 8 \<and> b = prefix_byte j"
proof -
  have z: "prefix_byte 0 = 0" by (simp add: prefix_byte_def)
  have L: "prefix6_loop b 0 0 = (if \<exists>k \<le> 8. b = prefix_byte k then (THE k. k \<le> 8 \<and> b = prefix_byte k) else 9)"
    using prefix6_loop_spec [of 0 b] by (simp add: z)
  have the: "(THE k. k \<le> 8 \<and> b = prefix_byte k) = k" if "k \<le> 8" "b = prefix_byte k" for k
    using that prefix_byte_distinct by (intro the_equality) auto
  show ?thesis
  proof (cases "\<exists>k \<le> 8. b = prefix_byte k")
    case True
    then obtain k where k: "k \<le> 8" "b = prefix_byte k" by blast
    then show ?thesis using L the [OF k] prefix_byte_distinct [of j k] True by auto
  next
    case False
    then show ?thesis using L by auto
  qed
qed

lemma takeWhile_prefix_mask:
  assumes "r < 8" "q \<le> 16"
  shows "takeWhile (\<lambda>b. b = 0xFF) (prefix_mask q r) = replicate q 0xFF"
  using assms prefix_byte_distinct [of r 8] prefix_byte_8
  by (auto simp: prefix_mask_def takeWhile_append takeWhile_replicate)

lemma prefix6_from_mask_iff:
  assumes "length m = 16" "length out = 16"
  shows "ipaddr6_ipv6_prefix_from_mask m = Some p \<longleftrightarrow> ipaddr6_ipv6_mask_from_prefix p out = Some m"
proof
  assume L: "ipaddr6_ipv6_prefix_from_mask m = Some p"
  let ?i = "length (takeWhile (\<lambda>b. b = 0xFF) m)"
  have front: "take ?i m = replicate ?i 0xFF"
    by (metis (mono_tags, lifting) replicate_eqI set_takeWhileD takeWhile_eq_take)
  show "ipaddr6_ipv6_mask_from_prefix p out = Some m"
  proof (cases "?i < 16")
    case True
    let ?j = "prefix6_loop (m ! ?i) 0 0"
    have j: "?j \<le> 8" and rest: "\<forall>b \<in> set (drop (?i + 1) m). b = 0" and p: "p = 8 * int ?i + int ?j"
      using L True assms(1) by (auto simp: ipaddr6_ipv6_prefix_from_mask_def Let_def split: if_splits)
    have mi: "m ! ?i = prefix_byte ?j" using prefix6_loop_iff j by blast
    have "m ! ?i \<noteq> 0xFF" using nth_length_takeWhile [of "\<lambda>b. b = 0xFF" m] True assms(1) by simp
    then have j8: "?j < 8" using mi j prefix_byte_8 by (metis le_neq_implies_less)
    have "m = take ?i m @ m ! ?i # drop (?i + 1) m" using True assms(1) id_take_nth_drop [of ?i m] by simp
    moreover have "drop (?i + 1) m = replicate (15 - ?i) 0"
      using rest assms(1) True by (intro replicate_eqI) auto
    ultimately have "m = prefix_mask ?i ?j" using front mi True by (simp add: prefix_mask_def)
    moreover have "nat (p div 8) = ?i" "nat (p mod 8) = ?j" "0 \<le> p" "p \<le> 128" using p j8 True by auto
    ultimately show ?thesis using mask6_from_prefix [OF assms(2), of p] by simp
  next
    case False
    then have i: "?i = 16" using assms(1) length_takeWhile_le [of _ m] by (metis le_neq_implies_less)
    then have "p = 128" using L assms(1) by (simp add: ipaddr6_ipv6_prefix_from_mask_def Let_def)
    moreover have "m = replicate 16 0xFF" using front i assms(1) by simp
    ultimately show ?thesis using mask6_from_prefix [OF assms(2), of p] by (simp add: prefix_mask_def)
  qed
next
  assume R: "ipaddr6_ipv6_mask_from_prefix p out = Some m"
  then have p: "0 \<le> p" "p \<le> 128" by (auto simp: ipaddr6_ipv6_mask_from_prefix_def split: if_splits)
  define q r where "q = nat (p div 8)" and "r = nat (p mod 8)"
  have m: "m = prefix_mask q r" using R mask6_from_prefix [OF assms(2) p] by (simp add: q_def r_def)
  have qr: "q \<le> 16" "r < 8" "p = 8 * int q + int r" using p by (auto simp: q_def r_def)
  have i: "length (takeWhile (\<lambda>b. b = 0xFF) m) = q" using takeWhile_prefix_mask [OF qr(2,1)] m by simp
  show "ipaddr6_ipv6_prefix_from_mask m = Some p"
  proof (cases "q < 16")
    case True
    then have "m ! q = prefix_byte r" "drop (q + 1) m = replicate (15 - q) 0" by (simp_all add: m prefix_mask_def nth_append)
    moreover have "prefix6_loop (prefix_byte r) 0 0 = r" using prefix6_loop_iff [of "prefix_byte r" r] qr(2) by simp
    ultimately show ?thesis using True i qr assms(1) by (simp add: ipaddr6_ipv6_prefix_from_mask_def Let_def)
  next
    case False
    then have "q = 16" "r = 0" using qr p by auto
    then show ?thesis using i qr assms(1) by (simp add: ipaddr6_ipv6_prefix_from_mask_def Let_def)
  qed
qed

section \<open>The parser stays inside the address\<close>

definition p6_ok :: "ipv6_parse \<Rightarrow> bool" where
  "p6_ok s \<longleftrightarrow> length (p6_bytes s) = 16 \<and> 0 \<le> p6_num_blocks s \<and> p6_num_blocks s \<le> 7 \<and>
     - 1 \<le> p6_compress_pos s \<and> p6_compress_pos s \<le> p6_num_blocks s"

lemma parse6_loop_ok: "parse6_loop name s = Some (b, s') \<Longrightarrow> p6_ok s \<Longrightarrow> p6_ok s'"
proof (induction name s rule: parse6_loop.induct)
  case (1 name s)
  let ?i = "p6_i s"
  show ?case
  proof (cases "?i < length name \<and> name ! ?i \<noteq> CHR ''.''")
    case True
    show ?thesis
    proof (cases "name ! ?i = CHR '':''")
      case colon: True
      define is_double where "is_double = (?i + 1 < length name \<and> name ! (?i + 1) = CHR '':'')"
      obtain s1 where s1: "parse6_colon s is_double = Some s1"
        "parse6_loop name (s1\<lparr>p6_i := ?i + 1 + of_bool is_double\<rparr>) = Some (b, s')"
        using 1(3) True colon by (subst (asm) parse6_loop.simps) (auto simp: Let_def is_double_def split: bind_splits)
      then have "p6_ok s1" using 1(4)
        by (auto simp: parse6_colon_def p6_ok_def store_block_def Let_def split: bind_splits if_splits)
      then have "p6_ok (s1\<lparr>p6_i := ?i + 1 + of_bool is_double\<rparr>)" by (simp add: p6_ok_def)
      moreover have "parse6_colon s (?i + 1 < length name \<and> name ! (?i + 1) = CHR '':'') = Some s1"
        using s1(1) unfolding is_double_def .
      ultimately show ?thesis using 1(1) [OF refl _ _ colon refl] True s1(2) unfolding is_double_def by blast
    next
      case digit: False
      then obtain s1 where s1: "parse6_digit s (name ! ?i) = Some s1" "parse6_loop name (s1\<lparr>p6_i := ?i + 1\<rparr>) = Some (b, s')"
        using 1(3) True by (subst (asm) parse6_loop.simps) (auto simp: Let_def split: bind_splits)
      then have "p6_ok (s1\<lparr>p6_i := ?i + 1\<rparr>)" using 1(4)
        by (auto simp: parse6_digit_def p6_ok_def Let_def split: if_splits)
      then show ?thesis using 1(2) [OF refl _ _ digit s1(1) s1(2)] True by blast
    qed
  next
    case False
    then show ?thesis using 1(3,4) by (subst (asm) parse6_loop.simps) (auto simp: Let_def split: if_splits)
  qed
qed

lemma parse4_loop_length: "parse4_loop name b cur byte emp = Some (b', cur', byte', emp') \<Longrightarrow> length b' = length b"
  by (induction name b cur byte emp rule: parse4_loop.induct) (auto simp: Let_def split: if_splits)

lemma parse6_done_length:
  assumes "parse6_done s = Some a" "length (p6_bytes s) = 16" "0 \<le> p6_num_blocks s" "p6_num_blocks s \<le> 8"
    "- 1 \<le> p6_compress_pos s" "p6_compress_pos s \<le> p6_num_blocks s"
  shows "length a = 16"
proof -
  define cp where "cp = (if p6_compress_pos s = - 1 then 0 else p6_compress_pos s)"
  have cp: "0 \<le> cp" "cp \<le> p6_num_blocks s" using assms(3,5,6) by (auto simp: cp_def)
  have a: "a = write_at (write_at (p6_bytes s) (nat (2 * (8 - (p6_num_blocks s - cp))))
      (read_at (p6_bytes s) (nat (2 * cp)) (nat (2 * (p6_num_blocks s - cp))))) (nat (2 * cp))
      (replicate (nat (2 * (8 - (p6_num_blocks s - cp) - cp))) 0)"
    using assms(1) by (auto simp: parse6_done_def Let_def cp_def split: if_splits)
  have "nat (2 * cp) + nat (2 * (p6_num_blocks s - cp)) \<le> 16" using cp assms(4) by (simp flip: nat_add_distrib)
  then have "length (read_at (p6_bytes s) (nat (2 * cp)) (nat (2 * (p6_num_blocks s - cp)))) = nat (2 * (p6_num_blocks s - cp))"
    using assms(2) by simp
  moreover have "nat (2 * (8 - (p6_num_blocks s - cp))) + nat (2 * (p6_num_blocks s - cp)) \<le> 16"
    "nat (2 * cp) + nat (2 * (8 - (p6_num_blocks s - cp) - cp)) \<le> 16" using cp assms(4) by (simp_all flip: nat_add_distrib)
  ultimately show ?thesis unfolding a using assms(2) by simp
qed

text \<open>
  C23: The IPv6 parser stays inside the sixteen bytes of the address for every input: whenever it leaves the
  main loop at most seven blocks have been stored and the compression, if any, lies at or before them, so that
  the last block or the IPv4 ending fits, the bytes moved to the rear and the zeros filled in stay
  inside, and an accepted input yields exactly sixteen bytes.
\<close>

theorem ipv6_parse_in_bounds:
  assumes "length old = 16"
    "parse6_loop name \<lparr>p6_bytes = old, p6_num_blocks = 0, p6_compress_pos = - 1, p6_block = 0,
       p6_empty = True, p6_i = 0\<rparr> = Some (ipv4, s)"
  shows "length (p6_bytes s) = 16 \<and> 0 \<le> p6_num_blocks s \<and> p6_num_blocks s \<le> 7 \<and>
    - 1 \<le> p6_compress_pos s \<and> p6_compress_pos s \<le> p6_num_blocks s \<and>
    (\<forall>a. ipaddr6_parse_ipv6_addr_bin name old = Some a \<longrightarrow> length a = 16)"
proof -
  have ok: "p6_ok s" using parse6_loop_ok [OF assms(2)] assms(1) by (simp add: p6_ok_def)
  have "length a = 16" if res: "ipaddr6_parse_ipv6_addr_bin name old = Some a" for a
  proof -
    obtain s1 where s1: "(if ipv4 then parse6_ipv4_ending name s else parse6_end s) = Some s1" "parse6_done s1 = Some a"
      using res assms(2) by (auto simp: ipaddr6_parse_ipv6_addr_bin_def split: bind_splits)
    have "length (p6_bytes s1) = 16 \<and> 0 \<le> p6_num_blocks s1 \<and> p6_num_blocks s1 \<le> 8 \<and>
        - 1 \<le> p6_compress_pos s1 \<and> p6_compress_pos s1 \<le> p6_num_blocks s1"
    proof (cases ipv4)
      case True
      then show ?thesis using s1(1) ok
        by (auto simp: parse6_ipv4_ending_def p6_ok_def Let_def dest!: parse4_loop_length split: bind_splits if_splits)
    next
      case False
      then show ?thesis using s1(1) ok by (auto simp: parse6_end_def p6_ok_def store_block_def Let_def split: if_splits)
    qed
    then show ?thesis using parse6_done_length [OF s1(2)] by blast
  qed
  then show ?thesis using ok by (auto simp: p6_ok_def)
qed

theorem ipv6_parse_in_bounds_witness:
  "\<exists>s. parse6_loop ''1::2'' \<lparr>p6_bytes = replicate 16 0, p6_num_blocks = 0, p6_compress_pos = - 1, p6_block = 0,
       p6_empty = True, p6_i = 0\<rparr> = Some (False, s) \<and> p6_num_blocks s \<le> 7 \<and> p6_compress_pos s \<le> p6_num_blocks s"
proof -
  have "\<exists>s. parse6_loop ''1::2'' \<lparr>p6_bytes = replicate 16 0, p6_num_blocks = 0, p6_compress_pos = - 1, p6_block = 0,
       p6_empty = True, p6_i = 0\<rparr> = Some (False, s)"
    by (simp add: parse6_loop.simps parse6_colon_def parse6_digit_def store_block_def decode_hex_digit_def hex_cases_def decimal_cases_def Let_def)
  then obtain s where s: "parse6_loop ''1::2'' \<lparr>p6_bytes = replicate 16 0, p6_num_blocks = 0, p6_compress_pos = - 1, p6_block = 0,
       p6_empty = True, p6_i = 0\<rparr> = Some (False, s)" by blast
  then show ?thesis using ipv6_parse_in_bounds [OF _ s] by auto
qed

section \<open>Round trips\<close>

lemma join6_chars: "c \<in> set (join6 ws) \<Longrightarrow> c = CHR '':'' \<or> digit_value 16 c \<noteq> None"
  using hex_digits_props(2) by (induction ws rule: join6.induct) auto

lemma print6_no_slash: "length a = 16 \<Longrightarrow> CHR ''/'' \<notin> set (ipaddr6_print_addr a)"
  using print6_cases [of a] join6_chars [of "CHR ''/''"] by (auto simp: digit_value_def)

lemma print4_no_slash: "CHR ''/'' \<notin> set (ipaddr_print_addr a)"
  using dec_digits_props(4) by (auto simp: ipaddr_print_addr_def Let_def)

lemma find_slash:
  assumes "CHR ''/'' \<notin> set xs"
  shows "b_find_char_bin (xs @ ''/'' @ ys) CHR ''/'' = Some (length xs)"
proof -
  have "takeWhile (\<lambda>x. x \<noteq> CHR ''/'') (xs @ CHR ''/'' # ys) = xs" using assms by (intro takeWhile_upto) auto
  then show ?thesis by (simp add: find_char_spec)
qed

text \<open>
  C22: A printed interface address is read back: for every IPv4 address with a prefix of at most 32 and every IPv6
  address with a prefix of at most 128, parsing what the print function wrote yields the address
  and the prefix, whatever was in the buffer of the result before.
\<close>

theorem ip_address_roundtrip:
  assumes "0 \<le> p4" "p4 \<le> 32" "length a6 = 16" "0 \<le> p6" "p6 \<le> 128" "length (if6_addr out6) = 16"
  shows "(\<exists>str. ipaddr_print_ifaddr \<lparr>if4_addr = a4, if4_prefix = p4\<rparr> = Some str \<and>
      ipaddr_parse_ipv4_ifaddr str out4 = Some \<lparr>if4_addr = a4, if4_prefix = p4\<rparr>) \<and>
    (\<exists>str. ipaddr6_print_ifaddr \<lparr>if6_addr = a6, if6_prefix = p6\<rparr> = Some str \<and>
      ipaddr6_parse_ipv6_ifaddr str out6 = Some \<lparr>if6_addr = a6, if6_prefix = p6\<rparr>)"
proof
  have num: "parse_unsigned_integer_bin (dec_digits (nat p)) = Some (of_nat (nat p))"
    "\<not> (of_nat (nat p) :: u64) > of_nat n" "uint (of_nat (nat p) :: u64) = p" if "0 \<le> p" "p \<le> int n" "n \<le> 128" for p n
  proof -
    have p: "nat p \<le> n" "nat p < 2 ^ 64" using that by auto
    then show "parse_unsigned_integer_bin (dec_digits (nat p)) = Some (of_nat (nat p))" by (intro parse_dec_digits)
    show "\<not> (of_nat (nat p) :: u64) > of_nat n" using p that(3) by (simp add: word_less_nat_alt unat_of_nat_small)
    have "unat (of_nat (nat p) :: u64) = nat p" using p by (simp add: unat_of_nat_small)
    then show "uint (of_nat (nat p) :: u64) = p"
      using of_nat_unat [of "of_nat (nat p) :: u64", where ?'a = int] that(1) by (metis int_nat_eq)
  qed
  show "\<exists>str. ipaddr_print_ifaddr \<lparr>if4_addr = a4, if4_prefix = p4\<rparr> = Some str \<and>
      ipaddr_parse_ipv4_ifaddr str out4 = Some \<lparr>if4_addr = a4, if4_prefix = p4\<rparr>"
    using find_slash [OF print4_no_slash [of a4], of "dec_digits (nat p4)"] num [of p4 32] assms(1,2)
    by (simp add: ipaddr_print_ifaddr_def ipaddr_parse_ipv4_ifaddr_def ipaddr_parse_ipv4_ifaddr_bin_def
        ipaddr_parse_ipv4_prefix_bin_def parse_print_ipv4)
  show "\<exists>str. ipaddr6_print_ifaddr \<lparr>if6_addr = a6, if6_prefix = p6\<rparr> = Some str \<and>
      ipaddr6_parse_ipv6_ifaddr str out6 = Some \<lparr>if6_addr = a6, if6_prefix = p6\<rparr>"
    using find_slash [OF print6_no_slash [OF assms(3)], of "dec_digits (nat p6)"] num [of p6 128] assms(3-6)
    by (simp add: ipaddr6_print_ifaddr_def ipaddr6_parse_ipv6_ifaddr_def ipaddr6_parse_ipv6_ifaddr_bin_def
        ipaddr6_parse_ipv6_prefix_bin_def parse_print_ipv6)
qed

theorem ip_address_roundtrip_witness:
  "\<exists>str. ipaddr6_print_ifaddr \<lparr>if6_addr = [0xFE, 0x80, 0, 0, 0, 0, 0, 0, 0, 0, 0, 0, 0, 0, 0, 1], if6_prefix = 64\<rparr> = Some str \<and>
      ipaddr6_parse_ipv6_ifaddr str \<lparr>if6_addr = replicate 16 7, if6_prefix = 0\<rparr> =
        Some \<lparr>if6_addr = [0xFE, 0x80, 0, 0, 0, 0, 0, 0, 0, 0, 0, 0, 0, 0, 0, 1], if6_prefix = 64\<rparr>"
  using ip_address_roundtrip [of 24 "[0xFE, 0x80, 0, 0, 0, 0, 0, 0, 0, 0, 0, 0, 0, 0, 0, 1]" 64
      "\<lparr>if6_addr = replicate 16 7, if6_prefix = 0\<rparr>"] by simp

text \<open>
  C29: Network masks and prefixes correspond one to one: a word is the mask of prefix p exactly if
  p is the prefix found for it, for both families; every other mask is rejected.
\<close>

theorem prefix_mask_inverse:
  assumes "length m6 = 16" "length out = 16"
  shows "(ipaddr_ipv4_prefix_from_mask m4 = Some p4 \<longleftrightarrow> ipaddr_ipv4_mask_from_prefix p4 = Some m4) \<and>
    (ipaddr6_ipv6_prefix_from_mask m6 = Some p6 \<longleftrightarrow> ipaddr6_ipv6_mask_from_prefix p6 out = Some m6)"
  using prefix_from_mask_iff prefix6_from_mask_iff [OF assms] by simp

theorem prefix_mask_inverse_witness:
  "ipaddr6_ipv6_prefix_from_mask (replicate 16 0xFF) = Some 128 \<longleftrightarrow>
   ipaddr6_ipv6_mask_from_prefix 128 (replicate 16 0) = Some (replicate 16 0xFF)"
  using prefix_mask_inverse [of "replicate 16 0xFF" "replicate 16 0" 0 0 128] by simp

end
