(* ===== verification/Socket_Addresses.thy ===== *)
theory Socket_Addresses
  imports BAVL_Index Ip_Addresses "HOL-Library.List_Lexorder" "HOL-Library.Product_Lexorder"
begin

text \<open>
  system/BAddr.h: IP addresses and socket addresses.  The tagged unions are datatypes whose
  constructors are the type codes; IP addresses and ports are kept in network byte order, as in the
  source.  An ASSERT on the type code is None.  The C library's \<open>getaddrinfo\<close> is the argument
  \<open>gai\<close> of the functions that resolve names: for an address family and the AI_NUMERICHOST flag it
  gives the bytes of the first address of a name.

  The lemmas show that \<open>BAddr_CompareOrder\<close> is the comparison of keys in a linear order, hence a
  comparator the AVL trees may be used with, that it identifies exactly the equal addresses, and which
  printed addresses the parser reads back.
\<close>

section \<open>IP addresses\<close>

datatype BIPAddr =
    BIPADDR_NONE
  | BIPADDR_IPV4 u32
  | BIPADDR_IPV6 bytes

text \<open>An array of \<open>n\<close> bytes, as \<open>memcpy\<close> and \<open>memcmp\<close> read it.\<close>

definition byte_array :: "nat \<Rightarrow> bytes \<Rightarrow> bytes" where
  "byte_array n a = map (\<lambda>i. a ! i) [0 ..< n]"

definition BIPAddr_InitInvalid :: BIPAddr where
  "BIPAddr_InitInvalid = BIPADDR_NONE"

definition BIPAddr_InitIPv4 :: "u32 \<Rightarrow> BIPAddr" where
  "BIPAddr_InitIPv4 ip = BIPADDR_IPV4 ip"

definition BIPAddr_InitIPv6 :: "bytes \<Rightarrow> BIPAddr" where
  "BIPAddr_InitIPv6 ip = BIPADDR_IPV6 (byte_array 16 ip)"

fun BIPAddr_IsInvalid :: "BIPAddr \<Rightarrow> bool" where
  "BIPAddr_IsInvalid BIPADDR_NONE = True"
| "BIPAddr_IsInvalid _ = False"

definition BADDR_MAX_ADDR_LEN :: nat where
  "BADDR_MAX_ADDR_LEN = 128"

datatype addr_family = AF_INET | AF_INET6

type_synonym getaddrinfo = "addr_family \<Rightarrow> bool \<Rightarrow> string \<Rightarrow> bytes option"

definition BIPAddr_Resolve :: "getaddrinfo \<Rightarrow> string \<Rightarrow> bool \<Rightarrow> BIPAddr option" where
  "BIPAddr_Resolve gai str noresolve =
     (let len = length str;
          v6 = (1 \<le> len \<and> str ! 0 = CHR ''['' \<and> str ! (len - 1) = CHR '']'');
          addr_str = (if v6 then read_at str 1 (len - 2) else str)
      in if length addr_str > BADDR_MAX_ADDR_LEN then None
         else map_option (\<lambda>a. if v6 then BIPADDR_IPV6 (byte_array 16 a) else BIPADDR_IPV4 (host32 a))
           (gai (if v6 then AF_INET6 else AF_INET) noresolve addr_str))"

fun BIPAddr_Compare :: "BIPAddr \<Rightarrow> BIPAddr \<Rightarrow> bool" where
  "BIPAddr_Compare (BIPADDR_IPV4 a) (BIPADDR_IPV4 b) \<longleftrightarrow> a = b"
| "BIPAddr_Compare (BIPADDR_IPV6 a) (BIPADDR_IPV6 b) \<longleftrightarrow>
     memcmp (map unat (byte_array 16 a)) (map unat (byte_array 16 b)) = 0"
| "BIPAddr_Compare _ _ \<longleftrightarrow> False"

fun BIPAddr_Print :: "BIPAddr \<Rightarrow> string" where
  "BIPAddr_Print BIPADDR_NONE = ''(none)''"
| "BIPAddr_Print (BIPADDR_IPV4 ip) =
     (let b = mem32 ip
      in dec_digits (unat (b ! 0)) @ ''.'' @ dec_digits (unat (b ! 1)) @ ''.'' @
         dec_digits (unat (b ! 2)) @ ''.'' @ dec_digits (unat (b ! 3)))"
| "BIPAddr_Print (BIPADDR_IPV6 ip) =
     (let h = (\<lambda>off. hex_digits (unat (badvpn_read_be16 (drop off ip))))
      in h 0 @ '':'' @ h 2 @ '':'' @ h 4 @ '':'' @ h 6 @ '':'' @
         h 8 @ '':'' @ h 10 @ '':'' @ h 12 @ '':'' @ h 14)"

section \<open>Socket addresses\<close>

datatype BAddr =
    BADDR_NONE
  | BADDR_IPV4 u32 u16
  | BADDR_IPV6 bytes u16
  | BADDR_PACKET u16 int int int bytes

fun BAddr_type :: "BAddr \<Rightarrow> int" where
  "BAddr_type BADDR_NONE = 0"
| "BAddr_type (BADDR_IPV4 _ _) = 1"
| "BAddr_type (BADDR_IPV6 _ _) = 2"
| "BAddr_type (BADDR_PACKET _ _ _ _ _) = 5"

fun BAddr_GetPort :: "BAddr \<Rightarrow> u16 option" where
  "BAddr_GetPort (BADDR_IPV4 _ port) = Some port"
| "BAddr_GetPort (BADDR_IPV6 _ port) = Some port"
| "BAddr_GetPort _ = None"

fun BAddr_GetIPAddr :: "BAddr \<Rightarrow> BIPAddr" where
  "BAddr_GetIPAddr (BADDR_IPV4 ip _) = BIPAddr_InitIPv4 ip"
| "BAddr_GetIPAddr (BADDR_IPV6 ip _) = BIPAddr_InitIPv6 ip"
| "BAddr_GetIPAddr _ = BIPAddr_InitInvalid"

fun BAddr_SetPort :: "BAddr \<Rightarrow> u16 \<Rightarrow> BAddr option" where
  "BAddr_SetPort (BADDR_IPV4 ip _) port = Some (BADDR_IPV4 ip port)"
| "BAddr_SetPort (BADDR_IPV6 ip _) port = Some (BADDR_IPV6 ip port)"
| "BAddr_SetPort _ _ = None"

definition BAddr_MakeNone :: BAddr where
  "BAddr_MakeNone = BADDR_NONE"

definition BAddr_MakeIPv4 :: "u32 \<Rightarrow> u16 \<Rightarrow> BAddr" where
  "BAddr_MakeIPv4 ip port = BADDR_IPV4 ip port"

definition BAddr_MakeIPv6 :: "bytes \<Rightarrow> u16 \<Rightarrow> BAddr" where
  "BAddr_MakeIPv6 ip port = BADDR_IPV6 (byte_array 16 ip) port"

fun BAddr_MakeFromIpaddrAndPort :: "BIPAddr \<Rightarrow> u16 \<Rightarrow> BAddr" where
  "BAddr_MakeFromIpaddrAndPort BIPADDR_NONE port = BAddr_MakeNone"
| "BAddr_MakeFromIpaddrAndPort (BIPADDR_IPV4 ip) port = BAddr_MakeIPv4 ip port"
| "BAddr_MakeFromIpaddrAndPort (BIPADDR_IPV6 ip) port = BAddr_MakeIPv6 ip port"

definition BAddr_InitNone :: BAddr where
  "BAddr_InitNone = BAddr_MakeNone"

definition BAddr_InitIPv4 :: "u32 \<Rightarrow> u16 \<Rightarrow> BAddr" where
  "BAddr_InitIPv4 ip port = BAddr_MakeIPv4 ip port"

definition BAddr_InitIPv6 :: "bytes \<Rightarrow> u16 \<Rightarrow> BAddr" where
  "BAddr_InitIPv6 ip port = BAddr_MakeIPv6 ip port"

definition BAddr_InitFromIpaddrAndPort :: "BIPAddr \<Rightarrow> u16 \<Rightarrow> BAddr" where
  "BAddr_InitFromIpaddrAndPort ipaddr port = BAddr_MakeFromIpaddrAndPort ipaddr port"

text \<open>The last two bytes of the 8 byte physical address are left as they were.\<close>

definition BAddr_InitPacket :: "bytes \<Rightarrow> u16 \<Rightarrow> int \<Rightarrow> int \<Rightarrow> int \<Rightarrow> bytes \<Rightarrow> BAddr option" where
  "BAddr_InitPacket old_phys phys_proto interface_index header_type packet_type phys_addr =
     (if header_type = 1 \<and> packet_type \<in> {1, 2, 3, 4, 5}
      then Some (BADDR_PACKET phys_proto interface_index header_type packet_type
        (write_at old_phys 0 (byte_array 6 phys_addr)))
      else None)"

definition BAddr_IsInvalid :: "BAddr \<Rightarrow> bool" where
  "BAddr_IsInvalid addr \<longleftrightarrow> BAddr_type addr = 0"

text \<open>\<open>%d\<close> and \<open>%02x\<close> of printf.\<close>

definition int_digits :: "int \<Rightarrow> string" where
  "int_digits i = (if i < 0 then ''-'' else []) @ dec_digits (nat \<bar>i\<bar>)"

definition hex2_digits :: "u8 \<Rightarrow> string" where
  "hex2_digits b = (let s = hex_digits (unat b) in replicate (2 - length s) (CHR ''0'') @ s)"

fun BAddr_Print :: "BAddr \<Rightarrow> string option" where
  "BAddr_Print BADDR_NONE = Some ''(none)''"
| "BAddr_Print (BADDR_IPV4 ip port) =
     Some (BIPAddr_Print (BIPAddr_InitIPv4 ip) @ '':'' @ dec_digits (unat (ntoh16 port)))"
| "BAddr_Print (BADDR_IPV6 ip port) =
     Some (BIPAddr_Print (BIPAddr_InitIPv6 ip) @ '':'' @ dec_digits (unat (ntoh16 port)))"
| "BAddr_Print (BADDR_PACKET phys_proto interface_index header_type packet_type phys_addr) =
     (if header_type = 1
      then Some (''proto='' @ dec_digits (unat phys_proto) @ '',ifindex='' @ int_digits interface_index @
        '',htype=eth,ptype='' @ int_digits packet_type @ '',addr='' @
        hex2_digits (phys_addr ! 0) @ '':'' @ hex2_digits (phys_addr ! 1) @ '':'' @ hex2_digits (phys_addr ! 2) @ '':'' @
        hex2_digits (phys_addr ! 3) @ '':'' @ hex2_digits (phys_addr ! 4) @ '':'' @ hex2_digits (phys_addr ! 5))
      else None)"

text \<open>
  The C library's \<open>strtol\<close> in base 10, on strings too short to overflow: white space, a sign and
  digits are read; the result is the number and the rest of the string, which is the whole string when
  there are no digits.
\<close>

definition isspace :: "char \<Rightarrow> bool" where
  "isspace c \<longleftrightarrow> (of_char c :: nat) = 32 \<or> (9 \<le> (of_char c :: nat) \<and> (of_char c :: nat) \<le> 13)"

definition strtol :: "string \<Rightarrow> int \<times> string" where
  "strtol str =
     (let s = dropWhile isspace str;
          neg = (s \<noteq> [] \<and> hd s = CHR ''-'');
          s = (if s \<noteq> [] \<and> (hd s = CHR ''-'' \<or> hd s = CHR ''+'') then tl s else s);
          digits = takeWhile (\<lambda>c. decode_decimal_digit c \<ge> 0) s;
          v = foldl (\<lambda>v c. 10 * v + decode_decimal_digit c) 0 digits
      in if digits = [] then (0, str)
         else (if neg then - v else v, dropWhile (\<lambda>c. decode_decimal_digit c \<ge> 0) s))"

text \<open>The scan for the end of the address: the family, the address and the port strings.\<close>

definition parse2_split :: "string \<Rightarrow> (addr_family \<times> string \<times> string) option" where
  "parse2_split str =
     (let len = length str
      in if str ! 0 = CHR ''['' then
           (let i = 1 + length (takeWhile (\<lambda>c. c \<noteq> CHR '']'') (drop 1 str))
            in if i \<ge> len then None
               else if i + 1 \<ge> len \<or> str ! (i + 1) \<noteq> CHR '':'' then None
               else Some (AF_INET6, read_at str 1 (i - 1), drop (i + 2) str))
         else
           (let i = length (takeWhile (\<lambda>c. c \<noteq> CHR '':'') str)
            in if i \<ge> len then None
               else Some (AF_INET, read_at str 0 i, drop (i + 1) str)))"

text \<open>\<open>name_len\<close> is None for a NULL \<open>name\<close>; otherwise the name is returned with the address.\<close>

definition BAddr_Parse2 :: "getaddrinfo \<Rightarrow> string \<Rightarrow> nat option \<Rightarrow> bool \<Rightarrow> (BAddr \<times> string option) option" where
  "BAddr_Parse2 gai str name_len noresolve =
     (if length str < 1 \<or> length str > 1000 then None
      else do {
        (family, addr_str, port_str) \<leftarrow> parse2_split str;
        if length addr_str \<ge> 128 then None
        else if length port_str \<ge> 6 then None
        else
          let (conv_res, err) = strtol port_str
          in if port_str = [] \<or> err \<noteq> [] then None
             else if conv_res < 0 \<or> conv_res > 65535 then None
             else do {
               a \<leftarrow> gai family noresolve addr_str;
               let addr = (case family of
                   AF_INET6 \<Rightarrow> BADDR_IPV6 (byte_array 16 a) (hton16 (word_of_int conv_res))
                 | AF_INET \<Rightarrow> BADDR_IPV4 (host32 a) (hton16 (word_of_int conv_res)));
               case name_len of
                 None \<Rightarrow> Some (addr, None)
               | Some n \<Rightarrow> if length addr_str \<ge> n then None else Some (addr, Some addr_str)
             }
      })"

definition BAddr_Parse :: "getaddrinfo \<Rightarrow> string \<Rightarrow> nat option \<Rightarrow> (BAddr \<times> string option) option" where
  "BAddr_Parse gai str name_len = BAddr_Parse2 gai str name_len False"

fun BAddr_Compare :: "BAddr \<Rightarrow> BAddr \<Rightarrow> bool" where
  "BAddr_Compare (BADDR_IPV4 ip1 port1) (BADDR_IPV4 ip2 port2) \<longleftrightarrow> ip1 = ip2 \<and> port1 = port2"
| "BAddr_Compare (BADDR_IPV6 ip1 port1) (BADDR_IPV6 ip2 port2) \<longleftrightarrow>
     memcmp (map unat (byte_array 16 ip1)) (map unat (byte_array 16 ip2)) = 0 \<and> port1 = port2"
| "BAddr_Compare _ _ \<longleftrightarrow> False"

definition BAddr_CompareOrder :: "BAddr \<Rightarrow> BAddr \<Rightarrow> int" where
  "BAddr_CompareOrder addr1 addr2 =
     (let cmp = B_COMPARE (BAddr_type addr1) (BAddr_type addr2)
      in if cmp \<noteq> 0 then cmp
         else case (addr1, addr2) of
           (BADDR_IPV4 ip1 port1, BADDR_IPV4 ip2 port2) \<Rightarrow>
             (let cmp = B_COMPARE (ntoh32 ip1) (ntoh32 ip2)
              in if cmp \<noteq> 0 then cmp else B_COMPARE (ntoh16 port1) (ntoh16 port2))
         | (BADDR_IPV6 ip1 port1, BADDR_IPV6 ip2 port2) \<Rightarrow>
             (let cmp = memcmp (map unat (byte_array 16 ip1)) (map unat (byte_array 16 ip2))
              in if cmp \<noteq> 0 then B_COMPARE cmp 0 else B_COMPARE (ntoh16 port1) (ntoh16 port2))
         | _ \<Rightarrow> 0)"

section \<open>The order of addresses\<close>

text \<open>The key by which addresses are ordered: type, IPv4 address, bytes of the IPv6 address, port.\<close>

fun baddr_key :: "BAddr \<Rightarrow> int \<times> u32 \<times> nat list \<times> u16" where
  "baddr_key (BADDR_IPV4 ip port) = (1, ntoh32 ip, [], ntoh16 port)"
| "baddr_key (BADDR_IPV6 ip port) = (2, 0, map unat (byte_array 16 ip), ntoh16 port)"
| "baddr_key a = (BAddr_type a, 0, [], 0)"

text \<open>A C array in the address has its 16 bytes, and the address is an IP address.\<close>

fun baddr_ip :: "BAddr \<Rightarrow> bool" where
  "baddr_ip (BADDR_IPV4 _ _) \<longleftrightarrow> True"
| "baddr_ip (BADDR_IPV6 ip _) \<longleftrightarrow> length ip = 16"
| "baddr_ip _ \<longleftrightarrow> False"

lemma length_byte_array [simp]: "length (byte_array n a) = n"
  by (simp add: byte_array_def)

lemma byte_array_id [simp]: "length a = n \<Longrightarrow> byte_array n a = a"
  by (auto simp: byte_array_def intro: nth_equalityI)

lemma memcmp_B_COMPARE: "length xs = length ys \<Longrightarrow> memcmp xs ys = B_COMPARE xs ys"
  by (induction xs ys rule: list_induct2) (auto simp: B_COMPARE_def)

lemma B_COMPARE_pair:
  "B_COMPARE (a, b) (c, d) = (if B_COMPARE a c \<noteq> 0 then B_COMPARE a c else B_COMPARE b d)"
  by (auto simp: B_COMPARE_def)

lemma B_COMPARE_0 [simp]: "B_COMPARE a b = 0 \<longleftrightarrow> a = b" "B_COMPARE a a = 0"
  by (auto simp: B_COMPARE_def)

lemma B_COMPARE_sign: "B_COMPARE (B_COMPARE a b) 0 = B_COMPARE a b"
  by (auto simp: B_COMPARE_def)

lemma BAddr_CompareOrder_key: "BAddr_CompareOrder a b = B_COMPARE (baddr_key a) (baddr_key b)"
  by (cases a; cases b)
    (auto simp: BAddr_CompareOrder_def B_COMPARE_pair memcmp_B_COMPARE B_COMPARE_sign Let_def)

lemma inj_map_unat: "map unat xs = map unat ys \<longleftrightarrow> xs = (ys :: bytes)"
  by (intro inj_map_eq_map injI) (simp add: word_unat_eq_iff)

lemma baddr_key_inj: "baddr_ip a \<Longrightarrow> baddr_ip b \<Longrightarrow> baddr_key a = baddr_key b \<longleftrightarrow> a = b"
  by (cases a; cases b) (auto simp: inj_map_unat ntoh16_def ntoh32_def)

lemma BAddr_Compare_eq: "baddr_ip a \<Longrightarrow> baddr_ip b \<Longrightarrow> BAddr_Compare a b \<longleftrightarrow> a = b"
  by (cases a; cases b) (auto simp: memcmp_B_COMPARE inj_map_unat)

text \<open>
  C26: BAddr_CompareOrder is a comparator as BAVL_comparator asks for it: a three-way, antisymmetric
  and transitive comparison; and on IP addresses it returns 0 exactly when BAddr_Compare returns 1,
  which is when the addresses are equal.
\<close>

theorem baddr_order_total:
  shows "total_comparator BAddr_CompareOrder \<and>
    (baddr_ip a \<and> baddr_ip b \<longrightarrow>
       (BAddr_CompareOrder a b = 0 \<longleftrightarrow> BAddr_Compare a b) \<and> (BAddr_Compare a b \<longleftrightarrow> a = b))"
  using total_comparator_B_COMPARE [of baddr_key]
  by (simp add: BAddr_CompareOrder_key [abs_def] baddr_key_inj BAddr_Compare_eq)

theorem baddr_order_total_witness:
  "baddr_ip (BADDR_IPV6 (replicate 16 7) 80) \<and> baddr_ip (BADDR_IPV4 0 1) \<and>
   BAddr_CompareOrder (BADDR_IPV6 (replicate 16 7) 80) (BADDR_IPV4 0 1) \<noteq> 0"
  using baddr_order_total [of "BADDR_IPV6 (replicate 16 7) 80" "BADDR_IPV4 0 1"] by simp

section \<open>Printing and parsing\<close>

lemma decode_foldl:
  "base_value_from 10 n s = Some m \<Longrightarrow>
     foldl (\<lambda>v c. 10 * v + decode_decimal_digit c) (int n) s = int m \<and> (\<forall>c\<in>set s. decode_decimal_digit c \<ge> 0)"
proof (induction s arbitrary: n)
  case (Cons c s)
  then obtain d where d: "digit_value 10 c = Some d" "base_value_from 10 (10 * n + d) s = Some m"
    by (auto split: option.splits)
  then show ?case using Cons.IH [OF d(2)] by (simp add: decode_digit_value)
qed simp

lemma dec_digit_not_sign:
  assumes "c \<in> set (dec_digits n)"
  shows "\<not> isspace c" "c \<noteq> CHR ''-''" "c \<noteq> CHR ''+''" "c \<noteq> CHR ''[''"
  using base_digits_digits [of 10 c n] assms by (auto simp: dec_digits_def digit_value_10 isspace_def split: if_splits)

lemma strtol_dec_digits: "strtol (dec_digits n) = (int n, [])"
proof -
  let ?s = "dec_digits n"
  have ne: "?s \<noteq> []" by (rule dec_digits_props)
  then have hd: "hd ?s \<in> set ?s" by simp
  have ws: "dropWhile isspace ?s = ?s"
    using dec_digit_not_sign(1) [OF hd] by (cases ?s) auto
  have "base_value_from 10 0 ?s = Some n"
    using base_value_base_digits [of 10 n] by (simp add: dec_digits_def base_value_def)
  from decode_foldl [OF this] have v: "foldl (\<lambda>v c. 10 * v + decode_decimal_digit c) 0 ?s = int n"
    and d: "\<forall>c\<in>set ?s. decode_decimal_digit c \<ge> 0" by simp_all
  have tw: "takeWhile (\<lambda>c. decode_decimal_digit c \<ge> 0) ?s = ?s" "dropWhile (\<lambda>c. decode_decimal_digit c \<ge> 0) ?s = []"
    using d by simp_all
  show ?thesis
    using dec_digit_not_sign [OF hd] ne by (simp add: strtol_def Let_def ws tw v)
qed

lemma length_port_digits: "length (dec_digits (unat (p :: u16))) \<le> 5"
  using length_dec_digits [of "unat p" 5] unat_u16_less [of p] by simp

lemma uint_u16_le: "uint (p :: u16) \<le> 65535"
  using unsigned_less [of p, where ?'a = int] by simp

lemma word_of_port [simp]: "hton16 (word_of_int (int (unat (ntoh16 p)))) = (p :: u16)"
  by simp

lemma BIPAddr_Print_ipv4: "BIPAddr_Print (BIPADDR_IPV4 ip) = ipaddr_print_addr ip"
  by (simp add: ipaddr_print_addr_def)

lemma BIPAddr_Print_ipv6:
  assumes "length a = 16"
  shows "BIPAddr_Print (BIPADDR_IPV6 a) = join6 (map (addr_block a) [0 ..< 8])"
proof -
  have upt8: "[0 ..< 8] = [0, 1, 2, 3, 4, 5, 6, 7 :: nat]" by code_simp
  have "badvpn_read_be16 (drop (2 * i) a) = addr_block a i" if "i < 8" for i
    using that assms by (simp add: badvpn_read_be16_def addr_block_def Cons_nth_drop_Suc [symmetric])
  from this [of 0] this [of 1] this [of 2] this [of 3] this [of 4] this [of 5] this [of 6] this [of 7]
  show ?thesis unfolding upt8 by simp
qed

declare BIPAddr_Print.simps [simp del]

lemma parse2_ipv4:
  assumes "xs = [] \<or> hd xs \<noteq> CHR ''[''" "CHR '':'' \<notin> set xs"
  shows "parse2_split (xs @ '':'' @ p) = Some (AF_INET, xs, p)"
proof -
  have "takeWhile (\<lambda>c. c \<noteq> CHR '':'') (xs @ '':'' @ p) = xs" using assms(2) by (auto intro: takeWhile_upto)
  then show ?thesis using assms(1) by (cases xs) (simp_all add: parse2_split_def read_at_def Let_def)
qed

lemma parse2_ipv6:
  assumes "CHR '']'' \<notin> set xs"
  shows "parse2_split (''['' @ xs @ '']:'' @ p) = Some (AF_INET6, xs, p)"
proof -
  have "takeWhile (\<lambda>c. c \<noteq> CHR '']'') (xs @ '']:'' @ p) = xs" using assms by (auto intro: takeWhile_upto)
  then show ?thesis by (simp add: parse2_split_def read_at_def Let_def nth_append)
qed

lemma length_hex4: "n < 65536 \<Longrightarrow> length (hex_digits n) \<le> 4"
  by (auto simp: hex_digits_def base_digits.simps [of 16 n] base_digits.simps [of 16 "n div 16"]
      base_digits.simps [of 16 "n div 16 div 16"] base_digits.simps [of 16 "n div 16 div 16 div 16"])

lemma length_join6_le: "length (join6 ws) \<le> 5 * length ws"
proof (induction ws rule: join6.induct)
  case (2 w)
  then show ?case using length_hex4 [of "unat w"] by simp
next
  case (3 w v vs)
  then show ?case using length_hex4 [of "unat w"] by simp
qed simp

lemma length_join6_ge: "2 * length ws \<le> length (join6 ws) + 1"
proof (induction ws rule: join6.induct)
  case (2 w)
  then show ?case using hex_digits_props(1) [of "unat w"] by (cases "hex_digits (unat w)") auto
next
  case (3 w v vs)
  then show ?case using hex_digits_props(1) [of "unat w"] by (cases "hex_digits (unat w)") auto
qed simp

lemma length_print_ipv4: "length (ipaddr_print_addr a) \<le> 15"
proof -
  have "length (dec_digits (unat b)) \<le> 3" for b :: u8
    using length_dec_digits [of "unat b" 3] unat_u8_less [of b] by simp
  from this [of "mem32 a ! 0"] this [of "mem32 a ! 1"] this [of "mem32 a ! 2"] this [of "mem32 a ! 3"]
  show ?thesis by (simp add: ipaddr_print_addr_def Let_def)
qed

lemma print_ipv4_chars: "c \<in> set (ipaddr_print_addr a) \<Longrightarrow> c \<noteq> CHR '':'' \<and> c \<noteq> CHR ''[''"
  using dec_digits_props(3) dec_digit_not_sign(4) by (auto simp: ipaddr_print_addr_def Let_def)

lemma parse_printed_port:
  assumes "parse2_split str = Some (family, a, dec_digits (unat (ntoh16 port)))"
    and "1 \<le> length str" "length str \<le> 1000" "length a < 128"
  shows "BAddr_Parse2 gai str None noresolve =
    map_option (\<lambda>b. (case family of AF_INET6 \<Rightarrow> BADDR_IPV6 (byte_array 16 b) port | AF_INET \<Rightarrow> BADDR_IPV4 (host32 b) port, None))
      (gai family noresolve a)"
  using assms length_port_digits [of "ntoh16 port"] uint_u16_le [of "ntoh16 port"] dec_digits_props(1) [of "unat (ntoh16 port)"]
  by (cases "gai family noresolve a")
    (auto simp: BAddr_Parse2_def strtol_dec_digits Let_def not_less split: addr_family.splits)

text \<open>The text that BAddr_Print makes of an IPv6 address is cut at its first colon and refused.\<close>

lemma parse_printed_ipv6:
  assumes "length a = 16"
  shows "BAddr_Parse2 gai (BIPAddr_Print (BIPADDR_IPV6 a) @ '':'' @ p) name_len noresolve = None"
proof -
  obtain w v vs where ws: "map (addr_block a) [0 ..< 8] = w # v # vs" "length vs = 6"
  proof -
    have "map (addr_block a) [0 ..< 8] = addr_block a 0 # addr_block a 1 # map (addr_block a) [2 ..< 8]" by (subst upt_conv_Cons, simp, subst upt_conv_Cons) (simp_all add: numeral_2_eq_2)
    then show ?thesis by (rule that) simp
  qed
  have c: "c \<noteq> CHR '':'' \<and> c \<noteq> CHR ''[''" if "c \<in> set (hex_digits (unat w))" for c
    using hex_digits_props(2) [OF that] by (auto simp: digit_value_def)
  have "BIPAddr_Print (BIPADDR_IPV6 a) @ '':'' @ p = hex_digits (unat w) @ '':'' @ (join6 (v # vs) @ '':'' @ p)"
    using BIPAddr_Print_ipv6 [OF assms] ws by simp
  moreover have "length (join6 (v # vs) @ '':'' @ p) \<ge> 6" using length_join6_ge [of "v # vs"] ws(2) by simp
  moreover have "parse2_split (hex_digits (unat w) @ '':'' @ (join6 (v # vs) @ '':'' @ p)) =
      Some (AF_INET, hex_digits (unat w), join6 (v # vs) @ '':'' @ p)"
    using c by (intro parse2_ipv4) (auto simp: hd_in_set)
  ultimately show ?thesis by (simp add: BAddr_Parse2_def)
qed

text \<open>
  C25: When the C library resolves numeric addresses, a printed IPv4 socket address is parsed back to
  itself, and so is an IPv6 address and port in the bracket notation the parser documents; but BAddr_Print
  writes IPv6 addresses without brackets, and BAddr_Parse refuses what it writes, whatever the C library does.
\<close>

theorem baddr_print_parse:
  assumes "\<forall>a noresolve. gai AF_INET noresolve (ipaddr_print_addr a) = Some (mem32 a)"
    and "\<forall>a noresolve. length a = 16 \<longrightarrow> gai AF_INET6 noresolve (BIPAddr_Print (BIPADDR_IPV6 a)) = Some a"
    and "length a6 = 16"
  shows "(\<exists>str. BAddr_Print (BADDR_IPV4 a4 port) = Some str \<and>
      BAddr_Parse gai str None = Some (BADDR_IPV4 a4 port, None)) \<and>
    BAddr_Parse gai (''['' @ BIPAddr_Print (BIPADDR_IPV6 a6) @ '']:'' @ dec_digits (unat (ntoh16 port))) None =
      Some (BADDR_IPV6 a6 port, None) \<and>
    (\<forall>str libc name_len. BAddr_Print (BADDR_IPV6 a6 port) = Some str \<longrightarrow> BAddr_Parse libc str name_len = None)"
proof (intro conjI allI impI)
  let ?p = "dec_digits (unat (ntoh16 port))"
  have p: "length ?p \<le> 5" by (rule length_port_digits)
  have "parse2_split (ipaddr_print_addr a4 @ '':'' @ ?p) = Some (AF_INET, ipaddr_print_addr a4, ?p)"
    using print_ipv4_chars [of _ a4] by (intro parse2_ipv4) (auto simp: hd_in_set)
  then show "\<exists>str. BAddr_Print (BADDR_IPV4 a4 port) = Some str \<and> BAddr_Parse gai str None = Some (BADDR_IPV4 a4 port, None)"
    using parse_printed_port [of "ipaddr_print_addr a4 @ '':'' @ ?p"] p length_print_ipv4 [of a4] assms(1)
    by (simp add: BAddr_Parse_def BIPAddr_InitIPv4_def BIPAddr_Print_ipv4)
  let ?x = "BIPAddr_Print (BIPADDR_IPV6 a6)"
  have "CHR '']'' \<notin> set ?x"
    using join6_chars [of "CHR '']''" "map (addr_block a6) [0 ..< 8]"] BIPAddr_Print_ipv6 [OF assms(3)] by (auto simp: digit_value_def)
  then have "parse2_split (''['' @ ?x @ '']:'' @ ?p) = Some (AF_INET6, ?x, ?p)" by (rule parse2_ipv6)
  moreover have "length ?x \<le> 40"
    using length_join6_le [of "map (addr_block a6) [0 ..< 8]"] BIPAddr_Print_ipv6 [OF assms(3)] by simp
  moreover have "gai AF_INET6 False ?x = Some a6" using assms(2,3) by blast
  ultimately show "BAddr_Parse gai (''['' @ ?x @ '']:'' @ ?p) None = Some (BADDR_IPV6 a6 port, None)"
    using parse_printed_port [of "''['' @ ?x @ '']:'' @ ?p" AF_INET6 ?x port gai False] p assms(3)
    by (simp add: BAddr_Parse_def)
next
  fix str libc name_len
  assume "BAddr_Print (BADDR_IPV6 a6 port) = Some str"
  then show "BAddr_Parse libc str name_len = None"
    using parse_printed_ipv6 [OF assms(3)] assms(3)
    by (auto simp: BAddr_Parse_def BIPAddr_InitIPv6_def)
qed

text \<open>A getaddrinfo that knows numeric addresses only.\<close>

definition numeric_getaddrinfo :: getaddrinfo where
  "numeric_getaddrinfo family noresolve str =
     (case family of
        AF_INET \<Rightarrow> map_option mem32 (ipaddr_parse_ipv4_addr_bin str 0)
      | AF_INET6 \<Rightarrow> ipaddr6_parse_ipv6_addr_bin str (replicate 16 0))"

lemma numeric_getaddrinfo_numeric:
  "\<forall>a noresolve. numeric_getaddrinfo AF_INET noresolve (ipaddr_print_addr a) = Some (mem32 a)"
  "\<forall>a noresolve. length a = 16 \<longrightarrow> numeric_getaddrinfo AF_INET6 noresolve (BIPAddr_Print (BIPADDR_IPV6 a)) = Some a"
  using parse6_plain [of "map (addr_block _) [0 ..< 8]" "replicate 16 0"]
  by (simp_all add: numeric_getaddrinfo_def parse_print_ipv4 BIPAddr_Print_ipv6 addr_blocks)

theorem baddr_print_parse_witness:
  "BAddr_Parse numeric_getaddrinfo (''['' @ BIPAddr_Print (BIPADDR_IPV6 (replicate 16 1)) @ '']:'' @ dec_digits (unat (ntoh16 20480))) None =
     Some (BADDR_IPV6 (replicate 16 1) 20480, None)"
  using baddr_print_parse [OF numeric_getaddrinfo_numeric, of "replicate 16 1" 0 20480] by simp

end
