(* ===== verification/Weakest_Pre.thy ===== *)
theory Weakest_Pre
  imports Fair_Queue
begin

text \<open>
  A handler that may fail is a function into an option type.  \<open>wp m Q\<close> says that \<open>m\<close> does
  not fail and that its result satisfies \<open>Q\<close>; the rules of \<open>wp_simps\<close> push it through a
  handler, so that the proofs about handlers are proofs about the state they reach.
\<close>

named_theorems wp_simps

definition wp :: "'a option \<Rightarrow> ('a \<Rightarrow> bool) \<Rightarrow> bool" where
  "wp m Q \<longleftrightarrow> (case m of None \<Rightarrow> False | Some x \<Rightarrow> Q x)"

lemma wp_Some [wp_simps]: "wp (Some x) Q \<longleftrightarrow> Q x"
  and wp_None [wp_simps]: "wp None Q \<longleftrightarrow> False"
  by (simp_all add: wp_def)

lemma wp_bind [wp_simps]: "wp (m \<bind> f) Q \<longleftrightarrow> wp m (\<lambda>x. wp (f x) Q)"
  by (cases m) (simp_all add: wp_def)

lemma wp_ASSERT [wp_simps]: "wp (ASSERT b) Q \<longleftrightarrow> b \<and> Q ()"
  by (cases b) (simp_all add: wp_def)

lemma wp_map_option [wp_simps]: "wp (map_option f m) Q \<longleftrightarrow> wp m (\<lambda>x. Q (f x))"
  by (cases m) (simp_all add: wp_def)

lemma wp_if [wp_simps]: "wp (if b then m else n) Q \<longleftrightarrow> (if b then wp m Q else wp n Q)"
  by simp

lemma wp_iff: "wp m Q \<longleftrightarrow> (\<exists>x. m = Some x \<and> Q x)"
  by (cases m) (simp_all add: wp_def)

lemma wp_mono: "wp m P \<Longrightarrow> (\<And>x. m = Some x \<Longrightarrow> P x \<Longrightarrow> Q x) \<Longrightarrow> wp m Q"
  by (cases m) (simp_all add: wp_def)

lemma wp_not_None: "wp m Q \<Longrightarrow> m \<noteq> None"
  by (cases m) (simp_all add: wp_def)

lemma wpD: "wp m Q \<Longrightarrow> m = Some x \<Longrightarrow> Q x"
  by (simp add: wp_def)

end
