(* ===== verification/Tcp_Client.thy ===== *)
theory Tcp_Client
  imports Weakest_Pre Socket_Addresses
begin

text \<open>
  The TCP half of tun2socks/tun2socks.c: one \<open>struct tcp_client\<close> for every connection that lwIP
  accepts, joined to a BSocksClient, from \<open>listener_accept_func\<close> to \<open>client_dealloc\<close>.

  Memory is explicit.  \<open>tun_clients\<close> maps the address of a client to its fields and to None when it
  is not allocated, \<open>tun_pcbs\<close> does the same for lwIP's connections, \<open>tun_socks\<close> for the SOCKS
  clients.  Every access goes through these maps, so that a handler returns None when an ASSERT fails
  and also when it touches memory that is not allocated: a use after free is visible.

  lwIP and the SOCKS client are the environment.  What they may do at any moment is an event, enabled by the
  callbacks that are installed and by the transfers that are under way; what lwIP answers to the calls made
  by a handler is an argument, and the theorems hold for all answers.  \<open>SYNC_COMMIT\<close> runs the jobs
  that a handler has caused before it continues: here it runs any list of SOCKS events, which may
  close the very client the handler works on; the dead variables guard against that.

  \<open>tun_log\<close> is not part of the program: it records the bytes that have passed each of
  the four ends of a client, for the theorems.
\<close>

section \<open>State\<close>

definition ERR_OK :: int where "ERR_OK = 0"
definition ERR_MEM :: int where "ERR_MEM = -1"
definition ERR_ABRT :: int where "ERR_ABRT = -10"

definition TCP_WND :: nat where "TCP_WND = 4 * 1460"

definition CLIENT_SOCKS_RECV_BUF_SIZE :: nat where "CLIENT_SOCKS_RECV_BUF_SIZE = 8192"

text \<open>
  \<open>tc_buf\<close> holds the first buf_used bytes of the array buf.  \<open>tc_dead_client\<close> says whether the dead
  variable points to the frame variable of a handler that is running.
\<close>

record tcp_client =
  tc_dead_client :: bool
  tc_local_addr :: BAddr
  tc_remote_addr :: BAddr
  tc_pcb :: addr
  tc_client_closed :: bool
  tc_buf :: bytes
  tc_socks_username :: "string option"
  tc_socks_up :: bool
  tc_socks_closed :: bool
  tc_socks_recv_buf :: bytes
  tc_socks_recv_buf_used :: int
  tc_socks_recv_buf_sent :: int
  tc_socks_recv_waiting :: bool
  tc_socks_recv_tcp_pending :: int

text \<open>The callbacks of a lwIP connection are flags that say whether they are set.\<close>

record tcp_pcb =
  pcb_arg :: "addr option"
  pcb_errf :: bool
  pcb_recv :: bool
  pcb_sent :: bool

text \<open>The SOCKS client as its user sees it: whether it is up, and the send and the receive under way.\<close>

record socks_side =
  sk_up :: bool
  sk_send_init :: bool
  sk_recv_init :: bool
  sk_sending :: "bytes option"
  sk_receiving :: "nat option"

record stream_log =
  lg_given :: bytes
  lg_taken :: bytes
  lg_recved :: nat
  lg_from_socks :: bytes
  lg_written :: bytes
  lg_acked :: nat

text \<open>Where the global socks_auth_info[1].password.username points to.\<close>

datatype username_ptr = Username_option | Username_of addr

record tun =
  opt_username :: "string option"
  opt_append_source :: bool
  tun_auth_username :: username_ptr
  tun_clients :: "addr \<Rightarrow> tcp_client option"
  tun_tcp_clients :: linked_list1
  tun_num_clients :: int
  tun_pcbs :: "addr \<Rightarrow> tcp_pcb option"
  tun_socks :: "addr \<Rightarrow> socks_side option"
  tun_dead :: bool
  tun_log :: "addr \<Rightarrow> stream_log"

text \<open>What lwIP answers: the result of tcp_close, for each turn of the write loop the size of the send
  buffer and the result of tcp_write (when the list is used up the send buffer is full), the result of
  tcp_output.\<close>

record lwip_answers =
  la_close :: int
  la_writes :: "(nat \<times> int) list"
  la_output :: int

section \<open>Memory and the calls to lwIP\<close>

definition set_client :: "addr \<Rightarrow> (tcp_client \<Rightarrow> tcp_client) \<Rightarrow> tun \<Rightarrow> tun option" where
  "set_client c f s =
     do { cl \<leftarrow> tun_clients s c; Some (s\<lparr>tun_clients := (tun_clients s)(c \<mapsto> f cl)\<rparr>) }"

definition set_pcb :: "addr \<Rightarrow> (tcp_pcb \<Rightarrow> tcp_pcb) \<Rightarrow> tun \<Rightarrow> tun option" where
  "set_pcb p f s = do { pcb \<leftarrow> tun_pcbs s p; Some (s\<lparr>tun_pcbs := (tun_pcbs s)(p \<mapsto> f pcb)\<rparr>) }"

definition set_socks :: "addr \<Rightarrow> (socks_side \<Rightarrow> socks_side) \<Rightarrow> tun \<Rightarrow> tun option" where
  "set_socks c f s = do { sk \<leftarrow> tun_socks s c; Some (s\<lparr>tun_socks := (tun_socks s)(c \<mapsto> f sk)\<rparr>) }"

definition set_log :: "addr \<Rightarrow> (stream_log \<Rightarrow> stream_log) \<Rightarrow> tun \<Rightarrow> tun" where
  "set_log c f s = s\<lparr>tun_log := (tun_log s)(c := f (tun_log s c))\<rparr>"

text \<open>lwip/src/core/tcp.c: the functions that only store a field.\<close>

definition tcp_arg :: "addr \<Rightarrow> addr \<Rightarrow> tun \<Rightarrow> tun option" where
  "tcp_arg p c = set_pcb p (pcb_arg_update (\<lambda>_. Some c))"

definition tcp_err :: "addr \<Rightarrow> bool \<Rightarrow> tun \<Rightarrow> tun option" where
  "tcp_err p b = set_pcb p (pcb_errf_update (\<lambda>_. b))"

definition tcp_recv :: "addr \<Rightarrow> bool \<Rightarrow> tun \<Rightarrow> tun option" where
  "tcp_recv p b = set_pcb p (pcb_recv_update (\<lambda>_. b))"

definition tcp_sent :: "addr \<Rightarrow> bool \<Rightarrow> tun \<Rightarrow> tun option" where
  "tcp_sent p b = set_pcb p (pcb_sent_update (\<lambda>_. b))"

text \<open>A connection that was closed or aborted must not be used again; a failed tcp_close leaves it as it was.\<close>

definition tcp_abort :: "addr \<Rightarrow> tun \<Rightarrow> tun option" where
  "tcp_abort p s = do { _ \<leftarrow> tun_pcbs s p; Some (s\<lparr>tun_pcbs := (tun_pcbs s)(p := None)\<rparr>) }"

definition tcp_close :: "lwip_answers \<Rightarrow> addr \<Rightarrow> tun \<Rightarrow> (tun \<times> int) option" where
  "tcp_close la p s =
     do {
       _ \<leftarrow> tun_pcbs s p;
       Some (if la_close la = ERR_OK then s\<lparr>tun_pcbs := (tun_pcbs s)(p := None)\<rparr> else s, la_close la)
     }"

definition DEAD_KILL :: "addr \<Rightarrow> tun \<Rightarrow> tun option" where
  "DEAD_KILL c s =
     do { cl \<leftarrow> tun_clients s c; Some (if tc_dead_client cl then s\<lparr>tun_dead := True\<rparr> else s) }"

text \<open>Frames of dead catching never nest, which the None in the case of a set pointer makes part of the
  theorems.\<close>

definition DEAD_ENTER :: "addr \<Rightarrow> tun \<Rightarrow> tun option" where
  "DEAD_ENTER c s =
     do {
       cl \<leftarrow> tun_clients s c;
       ASSERT (\<not> tc_dead_client cl);
       set_client c (tc_dead_client_update (\<lambda>_. True)) (s\<lparr>tun_dead := False\<rparr>)
     }"

definition DEAD_LEAVE2 :: "addr \<Rightarrow> tun \<Rightarrow> tun option" where
  "DEAD_LEAVE2 c s =
     (if \<not> tun_dead s then set_client c (tc_dead_client_update (\<lambda>_. False)) s else Some s)"

section \<open>Closing the two sides\<close>

definition client_dealloc :: "addr \<Rightarrow> tun \<Rightarrow> tun option" where
  "client_dealloc c s =
     do {
       cl \<leftarrow> tun_clients s c;
       ASSERT (tc_client_closed cl);
       ASSERT (tc_socks_closed cl);
       ASSERT (tun_num_clients s > 0);
       let s = s\<lparr>tun_num_clients := tun_num_clients s - 1\<rparr>;
       let s = s\<lparr>tun_tcp_clients := LinkedList1_Remove (tun_tcp_clients s) c\<rparr>;
       Some (s\<lparr>tun_clients := (tun_clients s)(c := None)\<rparr>)
     }"

definition BSocksClient_Free_side :: "addr \<Rightarrow> tun \<Rightarrow> tun option" where
  "BSocksClient_Free_side c s =
     do { _ \<leftarrow> tun_socks s c; Some (s\<lparr>tun_socks := (tun_socks s)(c := None)\<rparr>) }"

definition remove_callbacks :: "addr \<Rightarrow> tun \<Rightarrow> tun option" where
  "remove_callbacks p s = do { s \<leftarrow> tcp_err p False s; s \<leftarrow> tcp_recv p False s; tcp_sent p False s }"

text \<open>How many sides of a client are open, by which the mutual recursion ends.\<close>

definition open_sides :: "tun \<Rightarrow> addr \<Rightarrow> nat" where
  "open_sides s c =
     (case tun_clients s c of
        None \<Rightarrow> 0
      | Some cl \<Rightarrow> of_bool (\<not> tc_client_closed cl) + of_bool (\<not> tc_socks_closed cl))"

text \<open>The first parts of the three functions, up to the decision whom to call next.\<close>

definition mark_client_closed :: "addr \<Rightarrow> tun \<Rightarrow> tun option" where
  "mark_client_closed c s =
     do {
       cl \<leftarrow> tun_clients s c;
       ASSERT (\<not> tc_client_closed cl);
       s \<leftarrow> DEAD_KILL c s;
       set_client c (tc_client_closed_update (\<lambda>_. True)) s
     }"

definition close_pcb :: "lwip_answers \<Rightarrow> addr \<Rightarrow> tun \<Rightarrow> tun option" where
  "close_pcb la c s =
     do {
       cl \<leftarrow> tun_clients s c;
       ASSERT (\<not> tc_client_closed cl);
       s \<leftarrow> remove_callbacks (tc_pcb cl) s;
       (s, err) \<leftarrow> tcp_close la (tc_pcb cl) s;
       if err \<noteq> ERR_OK then tcp_abort (tc_pcb cl) s else Some s
     }"

definition close_socks :: "addr \<Rightarrow> tun \<Rightarrow> tun option" where
  "close_socks c s =
     do {
       cl \<leftarrow> tun_clients s c;
       ASSERT (\<not> tc_socks_closed cl);
       s \<leftarrow> (if tc_socks_up cl \<and> \<not> tc_client_closed cl then tcp_recv (tc_pcb cl) False s else Some s);
       s \<leftarrow> BSocksClient_Free_side c s;
       set_client c (tc_socks_closed_update (\<lambda>_. True)) s
     }"

lemma open_sides_mark: "mark_client_closed c s = Some s' \<Longrightarrow> open_sides s' c < open_sides s c"
  by (auto simp: mark_client_closed_def DEAD_KILL_def set_client_def open_sides_def ASSERT_def split: bind_splits if_splits)

lemma tun_clients_pcb [simp]:
  "set_pcb p f s = Some s' \<Longrightarrow> tun_clients s' = tun_clients s"
  "tcp_abort p s = Some s' \<Longrightarrow> tun_clients s' = tun_clients s"
  "tcp_close la p s = Some (s', err) \<Longrightarrow> tun_clients s' = tun_clients s"
  by (auto simp: set_pcb_def tcp_abort_def tcp_close_def split: bind_splits if_splits)

lemma open_sides_close_pcb: "close_pcb la c s = Some s' \<Longrightarrow> open_sides s' c = open_sides s c"
  by (auto simp: close_pcb_def remove_callbacks_def tcp_err_def tcp_recv_def tcp_sent_def open_sides_def
      split: bind_splits if_splits)

lemma open_sides_close_socks: "close_socks c s = Some s' \<Longrightarrow> open_sides s' c < open_sides s c"
  by (auto simp: close_socks_def BSocksClient_Free_side_def tcp_recv_def set_client_def open_sides_def ASSERT_def
      split: bind_splits if_splits)

function client_handle_freed_client :: "lwip_answers \<Rightarrow> addr \<Rightarrow> tun \<Rightarrow> tun option"
  and client_free_client :: "lwip_answers \<Rightarrow> addr \<Rightarrow> tun \<Rightarrow> tun option"
  and client_free_socks :: "lwip_answers \<Rightarrow> addr \<Rightarrow> tun \<Rightarrow> tun option" where
  "client_handle_freed_client la c s =
     (case mark_client_closed c s of
        None \<Rightarrow> None
      | Some s' \<Rightarrow>
          (case tun_clients s' c of
             None \<Rightarrow> None
           | Some cl \<Rightarrow>
               if tc_buf cl \<noteq> [] \<and> \<not> tc_socks_closed cl then Some s'
               else if \<not> tc_socks_closed cl then client_free_socks la c s'
               else client_dealloc c s'))"
| "client_free_client la c s =
     (case close_pcb la c s of
        None \<Rightarrow> None
      | Some s' \<Rightarrow> client_handle_freed_client la c s')"
| "client_free_socks la c s =
     (case close_socks c s of
        None \<Rightarrow> None
      | Some s' \<Rightarrow>
          (case tun_clients s' c of
             None \<Rightarrow> None
           | Some cl \<Rightarrow>
               if tc_socks_up cl \<and> (tc_socks_recv_buf_used cl \<ge> 0 \<or> tc_socks_recv_tcp_pending cl > 0) \<and> \<not> tc_client_closed cl
               then Some s'
               else if \<not> tc_client_closed cl then client_free_client la c s'
               else client_dealloc c s'))"
  by pat_completeness auto

termination
  by (relation "measure (\<lambda>x. case x of
      Inl (la, c, s) \<Rightarrow> 2 * open_sides s c
    | Inr (Inl (la, c, s)) \<Rightarrow> 2 * open_sides s c + 1
    | Inr (Inr (la, c, s)) \<Rightarrow> 2 * open_sides s c)")
    (auto simp: open_sides_close_pcb dest!: open_sides_mark open_sides_close_socks)

definition client_abort_client :: "lwip_answers \<Rightarrow> addr \<Rightarrow> tun \<Rightarrow> tun option" where
  "client_abort_client la c s =
     do {
       cl \<leftarrow> tun_clients s c;
       ASSERT (\<not> tc_client_closed cl);
       s \<leftarrow> remove_callbacks (tc_pcb cl) s;
       s \<leftarrow> tcp_abort (tc_pcb cl) s;
       client_handle_freed_client la c s
     }"

definition client_murder :: "addr \<Rightarrow> tun \<Rightarrow> tun option" where
  "client_murder c s =
     do {
       cl \<leftarrow> tun_clients s c;
       s \<leftarrow> (if \<not> tc_client_closed cl then do {
               s \<leftarrow> remove_callbacks (tc_pcb cl) s;
               s \<leftarrow> tcp_abort (tc_pcb cl) s;
               s \<leftarrow> DEAD_KILL c s;
               set_client c (tc_client_closed_update (\<lambda>_. True)) s
             } else Some s);
       cl \<leftarrow> tun_clients s c;
       s \<leftarrow> (if \<not> tc_socks_closed cl then do {
               s \<leftarrow> BSocksClient_Free_side c s;
               set_client c (tc_socks_closed_update (\<lambda>_. True)) s
             } else Some s);
       client_dealloc c s
     }"

definition client_err_func :: "lwip_answers \<Rightarrow> addr \<Rightarrow> tun \<Rightarrow> tun option" where
  "client_err_func la c s =
     do {
       cl \<leftarrow> tun_clients s c;
       ASSERT (\<not> tc_client_closed cl);
       client_handle_freed_client la c s
     }"

section \<open>From the client to SOCKS\<close>

text \<open>The interfaces of the SOCKS client: one send and one receive at a time, after the handlers were set.\<close>

definition socks_Send :: "addr \<Rightarrow> bytes \<Rightarrow> tun \<Rightarrow> tun option" where
  "socks_Send c data s =
     do {
       sk \<leftarrow> tun_socks s c;
       ASSERT (sk_send_init sk \<and> sk_sending sk = None \<and> data \<noteq> []);
       set_socks c (sk_sending_update (\<lambda>_. Some data)) s
     }"

definition socks_Recv :: "addr \<Rightarrow> nat \<Rightarrow> tun \<Rightarrow> tun option" where
  "socks_Recv c avail s =
     do {
       sk \<leftarrow> tun_socks s c;
       ASSERT (sk_recv_init sk \<and> sk_receiving sk = None \<and> avail > 0);
       set_socks c (sk_receiving_update (\<lambda>_. Some avail)) s
     }"

definition client_send_to_socks :: "addr \<Rightarrow> tun \<Rightarrow> tun option" where
  "client_send_to_socks c s =
     do {
       cl \<leftarrow> tun_clients s c;
       ASSERT (\<not> tc_socks_closed cl);
       ASSERT (tc_socks_up cl);
       ASSERT (tc_buf cl \<noteq> []);
       socks_Send c (tc_buf cl) s
     }"

definition tcp_recved :: "addr \<Rightarrow> addr \<Rightarrow> nat \<Rightarrow> tun \<Rightarrow> tun option" where
  "tcp_recved p c len s =
     do { _ \<leftarrow> tun_pcbs s p; Some (set_log c (\<lambda>l. l\<lparr>lg_recved := lg_recved l + len\<rparr>) s) }"

definition client_socks_send_handler_done :: "lwip_answers \<Rightarrow> addr \<Rightarrow> nat \<Rightarrow> tun \<Rightarrow> tun option" where
  "client_socks_send_handler_done la c data_len s =
     do {
       cl \<leftarrow> tun_clients s c;
       ASSERT (\<not> tc_socks_closed cl);
       ASSERT (tc_socks_up cl);
       ASSERT (tc_buf cl \<noteq> []);
       ASSERT (data_len > 0);
       ASSERT (data_len \<le> length (tc_buf cl));
       s \<leftarrow> set_client c (tc_buf_update (drop data_len)) s;
       s \<leftarrow> (if \<not> tc_client_closed cl then tcp_recved (tc_pcb cl) c data_len s else Some s);
       cl \<leftarrow> tun_clients s c;
       if tc_buf cl \<noteq> [] then socks_Send c (tc_buf cl) s
       else if tc_client_closed cl then client_free_socks la c s
       else Some s
     }"

section \<open>From SOCKS to the client\<close>

definition client_socks_recv_initiate :: "addr \<Rightarrow> tun \<Rightarrow> tun option" where
  "client_socks_recv_initiate c s =
     do {
       cl \<leftarrow> tun_clients s c;
       ASSERT (\<not> tc_client_closed cl);
       ASSERT (\<not> tc_socks_closed cl);
       ASSERT (tc_socks_up cl);
       ASSERT (tc_socks_recv_buf_used cl = -1);
       socks_Recv c CLIENT_SOCKS_RECV_BUF_SIZE s
     }"

definition tcp_write :: "addr \<Rightarrow> addr \<Rightarrow> bytes \<Rightarrow> tun \<Rightarrow> tun option" where
  "tcp_write p c data s =
     do { _ \<leftarrow> tun_pcbs s p; Some (set_log c (\<lambda>l. l\<lparr>lg_written := lg_written l @ data\<rparr>) s) }"

text \<open>The do-while loop; the flag is False when the client was aborted.\<close>

fun send_out_loop :: "lwip_answers \<Rightarrow> (nat \<times> int) list \<Rightarrow> addr \<Rightarrow> tun \<Rightarrow> (tun \<times> bool) option" where
  "send_out_loop la [] c s = Some (s, True)"
| "send_out_loop la ((sndbuf, err) # ws) c s =
     do {
       cl \<leftarrow> tun_clients s c;
       let to_write = min (tc_socks_recv_buf_used cl - tc_socks_recv_buf_sent cl) (int sndbuf);
       if to_write = 0 then Some (s, True)
       else if err \<noteq> ERR_OK then
         if err = ERR_MEM then Some (s, True)
         else do { s \<leftarrow> client_abort_client la c s; Some (s, False) }
       else do {
         s \<leftarrow> tcp_write (tc_pcb cl) c (read_at (tc_socks_recv_buf cl) (nat (tc_socks_recv_buf_sent cl)) (nat to_write)) s;
         s \<leftarrow> set_client c (\<lambda>cl. cl\<lparr>tc_socks_recv_buf_sent := tc_socks_recv_buf_sent cl + to_write,
                                tc_socks_recv_tcp_pending := tc_socks_recv_tcp_pending cl + to_write\<rparr>) s;
         if tc_socks_recv_buf_sent cl + to_write < tc_socks_recv_buf_used cl then send_out_loop la ws c s
         else Some (s, True)
       }
     }"

text \<open>The result is False for the return value -1.\<close>

definition client_socks_recv_send_out :: "lwip_answers \<Rightarrow> addr \<Rightarrow> tun \<Rightarrow> (tun \<times> bool) option" where
  "client_socks_recv_send_out la c s =
     do {
       cl \<leftarrow> tun_clients s c;
       ASSERT (\<not> tc_client_closed cl);
       ASSERT (tc_socks_up cl);
       ASSERT (tc_socks_recv_buf_used cl > 0);
       ASSERT (tc_socks_recv_buf_sent cl < tc_socks_recv_buf_used cl);
       ASSERT (\<not> tc_socks_recv_waiting cl);
       (s, up) \<leftarrow> send_out_loop la (la_writes la) c s;
       if \<not> up then Some (s, False)
       else do {
         cl \<leftarrow> tun_clients s c;
         _ \<leftarrow> tun_pcbs s (tc_pcb cl);
         if la_output la \<noteq> ERR_OK then do { s \<leftarrow> client_abort_client la c s; Some (s, False) }
         else if tc_socks_recv_buf_sent cl < tc_socks_recv_buf_used cl then
           if tc_socks_recv_tcp_pending cl = 0 then do { s \<leftarrow> client_abort_client la c s; Some (s, False) }
           else do { s \<leftarrow> set_client c (tc_socks_recv_waiting_update (\<lambda>_. True)) s; Some (s, True) }
         else do { s \<leftarrow> set_client c (tc_socks_recv_buf_used_update (\<lambda>_. -1)) s; Some (s, True) }
       }
     }"

text \<open>The receive has stored \<open>data\<close> at the start of socks_recv_buf.\<close>

definition client_socks_recv_handler_done :: "lwip_answers \<Rightarrow> addr \<Rightarrow> bytes \<Rightarrow> tun \<Rightarrow> tun option" where
  "client_socks_recv_handler_done la c data s =
     do {
       cl \<leftarrow> tun_clients s c;
       ASSERT (length data > 0);
       ASSERT (length data \<le> CLIENT_SOCKS_RECV_BUF_SIZE);
       ASSERT (\<not> tc_socks_closed cl);
       ASSERT (tc_socks_up cl);
       ASSERT (tc_socks_recv_buf_used cl = -1);
       if tc_client_closed cl then Some s
       else do {
         s \<leftarrow> set_client c (\<lambda>cl. cl\<lparr>tc_socks_recv_buf := data, tc_socks_recv_buf_used := int (length data),
                                tc_socks_recv_buf_sent := 0, tc_socks_recv_waiting := False\<rparr>) s;
         (s, up) \<leftarrow> client_socks_recv_send_out la c s;
         if \<not> up then Some s
         else do {
           cl \<leftarrow> tun_clients s c;
           if tc_socks_recv_buf_used cl = -1 then client_socks_recv_initiate c s else Some s
         }
       }
     }"

section \<open>Events of the SOCKS client\<close>

datatype socks_event =
    Socks_Error
  | Socks_Up
  | Socks_Error_Closed
  | Socks_Sent nat
  | Socks_Received bytes

definition client_socks_up :: "lwip_answers \<Rightarrow> addr \<Rightarrow> tun \<Rightarrow> tun option" where
  "client_socks_up la c s =
     do {
       cl \<leftarrow> tun_clients s c;
       ASSERT (\<not> tc_socks_up cl);
       sk \<leftarrow> tun_socks s c;
       ASSERT (sk_up sk \<and> \<not> sk_send_init sk \<and> \<not> sk_recv_init sk);
       s \<leftarrow> set_socks c (\<lambda>sk. sk\<lparr>sk_send_init := True, sk_recv_init := True\<rparr>) s;
       s \<leftarrow> set_client c (\<lambda>cl. cl\<lparr>tc_socks_recv_buf_used := -1, tc_socks_recv_tcp_pending := 0\<rparr>) s;
       s \<leftarrow> (if \<not> tc_client_closed cl then tcp_sent (tc_pcb cl) True s else Some s);
       s \<leftarrow> set_client c (tc_socks_up_update (\<lambda>_. True)) s;
       s \<leftarrow> (if tc_buf cl \<noteq> [] then client_send_to_socks c s else Some s);
       if \<not> tc_client_closed cl then client_socks_recv_initiate c s else Some s
     }"

fun client_socks_handler :: "lwip_answers \<Rightarrow> addr \<Rightarrow> socks_event \<Rightarrow> tun \<Rightarrow> tun option" where
  "client_socks_handler la c Socks_Error s =
     do { cl \<leftarrow> tun_clients s c; ASSERT (\<not> tc_socks_closed cl); client_free_socks la c s }"
| "client_socks_handler la c Socks_Up s =
     do { cl \<leftarrow> tun_clients s c; ASSERT (\<not> tc_socks_closed cl); client_socks_up la c s }"
| "client_socks_handler la c Socks_Error_Closed s =
     do { cl \<leftarrow> tun_clients s c; ASSERT (\<not> tc_socks_closed cl); ASSERT (tc_socks_up cl); client_free_socks la c s }"
| "client_socks_handler la c _ s = None"

text \<open>
  What the SOCKS client does to itself when an event happens: it is up, it is no longer
  sending and has taken the first bytes of the buffer, it is no longer receiving.
\<close>

fun socks_event_effect :: "addr \<Rightarrow> socks_event \<Rightarrow> tun \<Rightarrow> tun option" where
  "socks_event_effect c Socks_Up s = set_socks c (sk_up_update (\<lambda>_. True)) s"
| "socks_event_effect c (Socks_Sent n) s =
     do {
       sk \<leftarrow> tun_socks s c;
       data \<leftarrow> sk_sending sk;
       s \<leftarrow> set_socks c (sk_sending_update (\<lambda>_. None)) s;
       Some (set_log c (\<lambda>l. l\<lparr>lg_taken := lg_taken l @ take n data\<rparr>) s)
     }"
| "socks_event_effect c (Socks_Received data) s =
     do {
       s \<leftarrow> set_socks c (sk_receiving_update (\<lambda>_. None)) s;
       cl \<leftarrow> tun_clients s c;
       Some (if tc_client_closed cl then s
             else set_log c (\<lambda>l. l\<lparr>lg_from_socks := lg_from_socks l @ data\<rparr>) s)
     }"
| "socks_event_effect c _ s = Some s"

fun socks_enabled :: "addr \<Rightarrow> socks_event \<Rightarrow> tun \<Rightarrow> bool" where
  "socks_enabled c Socks_Error s \<longleftrightarrow> tun_socks s c \<noteq> None"
| "socks_enabled c Socks_Up s \<longleftrightarrow> (\<exists>sk. tun_socks s c = Some sk \<and> \<not> sk_up sk)"
| "socks_enabled c Socks_Error_Closed s \<longleftrightarrow> (\<exists>sk. tun_socks s c = Some sk \<and> sk_up sk)"
| "socks_enabled c (Socks_Sent n) s \<longleftrightarrow>
     (\<exists>sk data. tun_socks s c = Some sk \<and> sk_sending sk = Some data \<and> 0 < n \<and> n \<le> length data)"
| "socks_enabled c (Socks_Received data) s \<longleftrightarrow>
     (\<exists>sk avail. tun_socks s c = Some sk \<and> sk_receiving sk = Some avail \<and> 0 < length data \<and> length data \<le> avail)"

fun socks_dispatch :: "lwip_answers \<Rightarrow> addr \<Rightarrow> socks_event \<Rightarrow> tun \<Rightarrow> tun option" where
  "socks_dispatch la c (Socks_Sent n) s = client_socks_send_handler_done la c n s"
| "socks_dispatch la c (Socks_Received data) s = client_socks_recv_handler_done la c data s"
| "socks_dispatch la c e s = client_socks_handler la c e s"

definition socks_step :: "lwip_answers \<Rightarrow> addr \<Rightarrow> socks_event \<Rightarrow> tun \<Rightarrow> tun option" where
  "socks_step la c e s = do { s \<leftarrow> socks_event_effect c e s; socks_dispatch la c e s }"

text \<open>SYNC_COMMIT: the SOCKS events that the jobs of this call bring about, in any order and number.\<close>

type_synonym sync_events = "(lwip_answers \<times> addr \<times> socks_event) list"

fun sync_commit :: "sync_events \<Rightarrow> tun \<Rightarrow> tun option" where
  "sync_commit [] s = Some s"
| "sync_commit ((la, c, e) # es) s =
     (if socks_enabled c e s then do { s \<leftarrow> socks_step la c e s; sync_commit es s } else sync_commit es s)"

text \<open>DEAD_ENTER, SYNC_COMMIT, DEAD_LEAVE2 and the value of DEAD_KILLED.\<close>

definition guarded_sync :: "sync_events \<Rightarrow> addr \<Rightarrow> tun \<Rightarrow> (tun \<times> bool) option" where
  "guarded_sync es c s =
     do {
       s \<leftarrow> DEAD_ENTER c s;
       s \<leftarrow> sync_commit es s;
       s \<leftarrow> DEAD_LEAVE2 c s;
       Some (s, tun_dead s)
     }"

section \<open>Callbacks of lwIP\<close>

text \<open>The result is the err_t and whether the pbuf was freed.\<close>

definition client_recv_func ::
    "lwip_answers \<Rightarrow> sync_events \<Rightarrow> addr \<Rightarrow> bytes option \<Rightarrow> tun \<Rightarrow> (tun \<times> int \<times> bool) option" where
  "client_recv_func la es c p s =
     do {
       cl \<leftarrow> tun_clients s c;
       ASSERT (\<not> tc_client_closed cl);
       case p of
         None \<Rightarrow> do { s \<leftarrow> client_free_client la c s; Some (s, ERR_ABRT, False) }
       | Some data \<Rightarrow> do {
           ASSERT (length data > 0);
           if length data > TCP_WND - length (tc_buf cl) then Some (s, ERR_MEM, False)
           else do {
             s \<leftarrow> set_client c (tc_buf_update (\<lambda>b. b @ data)) s;
             let s = set_log c (\<lambda>l. l\<lparr>lg_given := lg_given l @ data\<rparr>) s;
             if tc_buf cl = [] \<and> tc_socks_up cl then do {
               ASSERT (\<not> tc_socks_closed cl);
               s \<leftarrow> client_send_to_socks c s;
               (s, killed) \<leftarrow> guarded_sync es c s;
               Some (if killed then (s, ERR_ABRT, False) else (s, ERR_OK, True))
             } else Some (s, ERR_OK, True)
           }
         }
     }"

definition client_sent_func ::
    "lwip_answers \<Rightarrow> sync_events \<Rightarrow> addr \<Rightarrow> nat \<Rightarrow> tun \<Rightarrow> (tun \<times> int) option" where
  "client_sent_func la es c len s =
     do {
       cl \<leftarrow> tun_clients s c;
       ASSERT (\<not> tc_client_closed cl);
       ASSERT (tc_socks_up cl);
       ASSERT (len > 0);
       ASSERT (int len \<le> tc_socks_recv_tcp_pending cl);
       s \<leftarrow> set_client c (\<lambda>cl. cl\<lparr>tc_socks_recv_tcp_pending := tc_socks_recv_tcp_pending cl - int len\<rparr>) s;
       if tc_socks_recv_buf_used cl > 0 then do {
         ASSERT (tc_socks_recv_waiting cl);
         ASSERT (tc_socks_recv_buf_sent cl < tc_socks_recv_buf_used cl);
         s \<leftarrow> set_client c (tc_socks_recv_waiting_update (\<lambda>_. False)) s;
         (s, up) \<leftarrow> client_socks_recv_send_out la c s;
         if \<not> up then Some (s, ERR_ABRT)
         else do {
           cl \<leftarrow> tun_clients s c;
           ASSERT (tc_socks_recv_tcp_pending cl > 0);
           if tc_socks_recv_buf_used cl = -1 \<and> \<not> tc_socks_closed cl then do {
             s \<leftarrow> client_socks_recv_initiate c s;
             (s, killed) \<leftarrow> guarded_sync es c s;
             Some (s, if killed then ERR_ABRT else ERR_OK)
           } else Some (s, ERR_OK)
         }
       }
       else if tc_socks_closed cl \<and> tc_socks_recv_tcp_pending cl - int len = 0 then do {
         s \<leftarrow> client_free_client la c s;
         Some (s, ERR_ABRT)
       }
       else Some (s, ERR_OK)
     }"

text \<open>
  \<open>alloc\<close> is the result of malloc, \<open>user_ok\<close> whether concat_strings succeeds, \<open>socks_ok\<close>
  whether BSocksClient_Init does; the addresses are those read from the new connection.  Fields that
  the function does not set keep the arbitrary contents \<open>junk\<close> of the allocated memory.
\<close>

record accept_answers =
  aa_alloc :: "addr option"
  aa_junk :: tcp_client
  aa_user_ok :: bool
  aa_socks_ok :: bool

definition fresh_socks :: socks_side where
  "fresh_socks = \<lparr>sk_up = False, sk_send_init = False, sk_recv_init = False, sk_sending = None, sk_receiving = None\<rparr>"

definition fresh_log :: stream_log where
  "fresh_log = \<lparr>lg_given = [], lg_taken = [], lg_recved = 0, lg_from_socks = [], lg_written = [], lg_acked = 0\<rparr>"

text \<open>The part between a successful BSocksClient_Init and SYNC_COMMIT.\<close>

definition accept_setup :: "addr \<Rightarrow> addr \<Rightarrow> tun \<Rightarrow> tun option" where
  "accept_setup c newpcb s =
     do {
       s \<leftarrow> set_client c (tc_dead_client_update (\<lambda>_. False)) s;
       let s = s\<lparr>tun_tcp_clients := LinkedList1_Append (tun_tcp_clients s) c\<rparr>;
       ASSERT (tun_num_clients s \<ge> 0);
       let s = s\<lparr>tun_num_clients := tun_num_clients s + 1\<rparr>;
       s \<leftarrow> set_client c (\<lambda>cl. cl\<lparr>tc_pcb := newpcb, tc_client_closed := False\<rparr>) s;
       s \<leftarrow> tcp_arg newpcb c s;
       s \<leftarrow> tcp_err newpcb True s;
       s \<leftarrow> tcp_recv newpcb True s;
       s \<leftarrow> set_client c (\<lambda>cl. cl\<lparr>tc_buf := [], tc_socks_up := False, tc_socks_closed := False\<rparr>) s;
       Some (set_log c (\<lambda>_. fresh_log) s)
     }"

definition listener_accept_func ::
    "accept_answers \<Rightarrow> sync_events \<Rightarrow> addr \<Rightarrow> BAddr \<Rightarrow> BAddr \<Rightarrow> tun \<Rightarrow> (tun \<times> int) option" where
  "listener_accept_func aa es newpcb local_addr remote_addr s =
     (case aa_alloc aa of
        None \<Rightarrow> Some (s, ERR_MEM)
      | Some c \<Rightarrow> do {
          let cl = (aa_junk aa)\<lparr>tc_socks_username := None, tc_local_addr := local_addr, tc_remote_addr := remote_addr\<rparr>;
          let s = s\<lparr>tun_clients := (tun_clients s)(c \<mapsto> cl)\<rparr>;
          _ \<leftarrow> BAddr_Print local_addr;
          addr_str \<leftarrow> BAddr_Print remote_addr;
          let name = (case opt_username s of
              Some u \<Rightarrow> if opt_append_source s then Some (u @ ''@'' @ addr_str) else None
            | None \<Rightarrow> None);
          if name \<noteq> None \<and> \<not> aa_user_ok aa then Some (s\<lparr>tun_clients := (tun_clients s)(c := None)\<rparr>, ERR_MEM)
          else do {
            s \<leftarrow> (if name = None then Some s
                  else set_client c (tc_socks_username_update (\<lambda>_. name)) (s\<lparr>tun_auth_username := Username_of c\<rparr>));
            if \<not> aa_socks_ok aa then Some (s\<lparr>tun_clients := (tun_clients s)(c := None)\<rparr>, ERR_MEM)
            else do {
              s \<leftarrow> accept_setup c newpcb (s\<lparr>tun_socks := (tun_socks s)(c \<mapsto> fresh_socks)\<rparr>);
              (s, killed) \<leftarrow> guarded_sync es c s;
              Some (s, if killed then ERR_ABRT else ERR_OK)
            }
          }
        })"

section \<open>The program with its environment\<close>

text \<open>
  An event happens at a connection that lwIP knows (its callbacks and their argument decide what is
  called), or at a SOCKS client.  lwIP frees a connection before it reports an error on it, and also when the
  accept callback refuses it.
\<close>

datatype tun_event =
    Tun_Accept accept_answers sync_events addr BAddr BAddr
  | Tun_Recv lwip_answers sync_events addr "bytes option"
  | Tun_Sent lwip_answers sync_events addr nat
  | Tun_Err lwip_answers addr
  | Tun_Socks lwip_answers addr socks_event
  | Tun_Murder addr

definition fresh_pcb :: tcp_pcb where
  "fresh_pcb = \<lparr>pcb_arg = None, pcb_errf = False, pcb_recv = False, pcb_sent = False\<rparr>"

fun tun_enabled :: "tun \<Rightarrow> tun_event \<Rightarrow> bool" where
  "tun_enabled s (Tun_Accept aa es p l r) \<longleftrightarrow>
     tun_pcbs s p = None \<and> (\<forall>c. aa_alloc aa = Some c \<longrightarrow> tun_clients s c = None) \<and> baddr_ip l \<and> baddr_ip r"
| "tun_enabled s (Tun_Recv la es p data) \<longleftrightarrow>
     (\<exists>pcb. tun_pcbs s p = Some pcb \<and> pcb_recv pcb) \<and> data \<noteq> Some []"
| "tun_enabled s (Tun_Sent la es p n) \<longleftrightarrow>
     (\<exists>pcb c. tun_pcbs s p = Some pcb \<and> pcb_sent pcb \<and> pcb_arg pcb = Some c \<and>
        0 < n \<and> lg_acked (tun_log s c) + n \<le> length (lg_written (tun_log s c)))"
| "tun_enabled s (Tun_Err la p) \<longleftrightarrow> (\<exists>pcb. tun_pcbs s p = Some pcb \<and> pcb_errf pcb)"
| "tun_enabled s (Tun_Socks la c e) \<longleftrightarrow> socks_enabled c e s"
| "tun_enabled s (Tun_Murder c) \<longleftrightarrow> tun_clients s c \<noteq> None"

text \<open>The result is the state with the err_t that goes back to lwIP and whether a pbuf was freed.\<close>

fun tun_step :: "tun_event \<Rightarrow> tun \<Rightarrow> (tun \<times> int \<times> bool) option" where
  "tun_step (Tun_Accept aa es p l r) s =
     do {
       let s = s\<lparr>tun_pcbs := (tun_pcbs s)(p \<mapsto> fresh_pcb)\<rparr>;
       (s, err) \<leftarrow> listener_accept_func aa es p l r s;
       s \<leftarrow> (if err = ERR_MEM then tcp_abort p s else Some s);
       Some (s, err, False)
     }"
| "tun_step (Tun_Recv la es p data) s =
     do { pcb \<leftarrow> tun_pcbs s p; c \<leftarrow> pcb_arg pcb; client_recv_func la es c data s }"
| "tun_step (Tun_Sent la es p n) s =
     do {
       pcb \<leftarrow> tun_pcbs s p;
       c \<leftarrow> pcb_arg pcb;
       let s = set_log c (\<lambda>l. l\<lparr>lg_acked := lg_acked l + n\<rparr>) s;
       (s, err) \<leftarrow> client_sent_func la es c n s;
       Some (s, err, False)
     }"
| "tun_step (Tun_Err la p) s =
     do {
       pcb \<leftarrow> tun_pcbs s p;
       c \<leftarrow> pcb_arg pcb;
       s \<leftarrow> tcp_abort p s;
       s \<leftarrow> client_err_func la c s;
       Some (s, ERR_OK, False)
     }"
| "tun_step (Tun_Socks la c e) s = do { s \<leftarrow> socks_step la c e s; Some (s, ERR_OK, False) }"
| "tun_step (Tun_Murder c) s = do { s \<leftarrow> client_murder c s; Some (s, ERR_OK, False) }"

definition tun_start :: "tun \<Rightarrow> tun" where
  "tun_start s = s\<lparr>tun_tcp_clients := LinkedList1_Init (tun_tcp_clients s), tun_num_clients := 0,
     tun_clients := (\<lambda>c. None), tun_pcbs := (\<lambda>p. None), tun_socks := (\<lambda>c. None)\<rparr>"

inductive tun_reachable :: "tun \<Rightarrow> bool" where
  start: "tun_reachable (tun_start s)"
| step: "tun_reachable s \<Longrightarrow> tun_enabled s e \<Longrightarrow> tun_step e s = Some (s', r) \<Longrightarrow> tun_reachable s'"

text \<open>The end of \<open>run\<close>: all clients are murdered.\<close>

partial_function (option) murder_all :: "tun \<Rightarrow> tun option" where
  "murder_all s =
     (case LinkedList1_GetFirst (tun_tcp_clients s) of
        None \<Rightarrow> Some s
      | Some c \<Rightarrow> (case client_murder c s of None \<Rightarrow> None | Some s' \<Rightarrow> murder_all s'))"

end
