(* ===== verification/Tcp_Client_Safe.thy ===== *)
theory Tcp_Client_Safe
  imports Tcp_Client
begin

text \<open>
  The TCP clients of Tcp_Client.thy under every interleaving of the events of lwIP and of the SOCKS clients.  The
  invariant says for each client how its fields, its connection, its SOCKS client and the log of its streams
  belong together.  Handlers work on one client only (\<open>client_step\<close>), so each is checked at its
  client, and \<open>client_step_inv\<close> carries the result over to all clients.
\<close>

section \<open>The invariant\<close>

text \<open>\<open>fr\<close> is the client whose handler is inside SYNC_COMMIT.\<close>

definition pcb_ok :: "tcp_client \<Rightarrow> addr \<Rightarrow> tcp_pcb option \<Rightarrow> bool" where
  "pcb_ok cl c pcb \<longleftrightarrow> \<not> tc_client_closed cl \<longrightarrow>
     pcb = Some \<lparr>pcb_arg = Some c, pcb_errf = True, pcb_recv = (\<not> tc_socks_closed cl), pcb_sent = tc_socks_up cl\<rparr>"

definition socks_ok :: "tcp_client \<Rightarrow> socks_side option \<Rightarrow> bool" where
  "socks_ok cl sko \<longleftrightarrow>
     (case sko of
        None \<Rightarrow> tc_socks_closed cl
      | Some sk \<Rightarrow> \<not> tc_socks_closed cl \<and> sk_up sk = tc_socks_up cl \<and>
          sk_send_init sk = tc_socks_up cl \<and> sk_recv_init sk = tc_socks_up cl \<and>
          (case sk_sending sk of
             None \<Rightarrow> tc_socks_up cl \<longrightarrow> tc_buf cl = []
           | Some d \<Rightarrow> tc_socks_up cl \<and> d \<noteq> [] \<and> prefix d (tc_buf cl)) \<and>
          (case sk_receiving sk of
             None \<Rightarrow> tc_socks_up cl \<and> \<not> tc_client_closed cl \<longrightarrow> tc_socks_recv_buf_used cl \<noteq> -1
           | Some n \<Rightarrow> tc_socks_up cl \<and> n = CLIENT_SOCKS_RECV_BUF_SIZE \<and> tc_socks_recv_buf_used cl = -1))"

definition recv_ok :: "tcp_client \<Rightarrow> bool" where
  "recv_ok cl \<longleftrightarrow> tc_socks_up cl \<and> \<not> tc_client_closed cl \<longrightarrow>
     tc_socks_recv_tcp_pending cl \<ge> 0 \<and>
     (tc_socks_recv_buf_used cl \<noteq> -1 \<longrightarrow>
        0 \<le> tc_socks_recv_buf_sent cl \<and> tc_socks_recv_buf_sent cl < tc_socks_recv_buf_used cl \<and>
        tc_socks_recv_buf_used cl = int (length (tc_socks_recv_buf cl)) \<and>
        tc_socks_recv_waiting cl \<and> tc_socks_recv_tcp_pending cl > 0)"

text \<open>A client with one closed side exists only because of data that the other side still has to take.\<close>

definition sides_ok :: "tcp_client \<Rightarrow> bool" where
  "sides_ok cl \<longleftrightarrow>
     (tc_client_closed cl \<longrightarrow> \<not> tc_socks_closed cl \<and> tc_buf cl \<noteq> []) \<and>
     (tc_socks_closed cl \<longrightarrow> tc_socks_up cl \<and> tc_socks_recv_tcp_pending cl > 0)"

definition log_ok :: "tcp_client \<Rightarrow> stream_log \<Rightarrow> bool" where
  "log_ok cl l \<longleftrightarrow>
     length (tc_buf cl) \<le> TCP_WND \<and>
     lg_given l = lg_taken l @ tc_buf cl \<and>
     (\<not> tc_client_closed cl \<longrightarrow> lg_recved l = length (lg_taken l) \<and> lg_acked l \<le> length (lg_written l) \<and>
        (if tc_socks_up cl
         then lg_from_socks l = lg_written l @ (if tc_socks_recv_buf_used cl = -1 then []
                else drop (nat (tc_socks_recv_buf_sent cl)) (tc_socks_recv_buf cl)) \<and>
              tc_socks_recv_tcp_pending cl = int (length (lg_written l)) - int (lg_acked l)
         else lg_from_socks l = [] \<and> lg_written l = [] \<and> lg_acked l = 0)) \<and>
     prefix (lg_written l) (lg_from_socks l)"

definition client_ok :: "addr option \<Rightarrow> tun \<Rightarrow> addr \<Rightarrow> bool" where
  "client_ok fr s c \<longleftrightarrow>
     (case tun_clients s c of
        None \<Rightarrow> tun_socks s c = None
      | Some cl \<Rightarrow>
          pcb_ok cl c (tun_pcbs s (tc_pcb cl)) \<and> socks_ok cl (tun_socks s c) \<and> recv_ok cl \<and> sides_ok cl \<and>
          log_ok cl (tun_log s c) \<and> (\<not> tc_client_closed cl \<longrightarrow> tc_dead_client cl = (fr = Some c)))"

definition pcb_owned :: "tun \<Rightarrow> addr \<Rightarrow> bool" where
  "pcb_owned s p \<longleftrightarrow> (\<forall>pcb. tun_pcbs s p = Some pcb \<longrightarrow>
     (\<exists>c cl. pcb_arg pcb = Some c \<and> tun_clients s c = Some cl \<and> tc_pcb cl = p \<and> \<not> tc_client_closed cl))"

definition client_open :: "tun \<Rightarrow> addr \<Rightarrow> bool" where
  "client_open s c \<longleftrightarrow> (\<exists>cl. tun_clients s c = Some cl \<and> \<not> tc_client_closed cl)"

definition tun_inv :: "addr option \<Rightarrow> tun \<Rightarrow> bool" where
  "tun_inv fr s \<longleftrightarrow>
     (\<exists>cs. l1_rep (tun_tcp_clients s) cs \<and> set cs = {c. tun_clients s c \<noteq> None} \<and>
        tun_num_clients s = int (length cs)) \<and>
     (\<forall>c. client_ok fr s c) \<and> (\<forall>p. pcb_owned s p) \<and>
     (\<forall>c. fr = Some c \<longrightarrow> (tun_dead s \<longleftrightarrow> \<not> client_open s c))"

section \<open>What closing does\<close>

text \<open>The state after the memory of a client was released.\<close>

definition gone :: "addr \<Rightarrow> tun \<Rightarrow> tun" where
  "gone c s = s\<lparr>tun_num_clients := tun_num_clients s - 1,
     tun_tcp_clients := LinkedList1_Remove (tun_tcp_clients s) c,
     tun_clients := (tun_clients s)(c := None), tun_socks := (tun_socks s)(c := None)\<rparr>"

declare client_handle_freed_client.simps [simp del] client_free_client.simps [simp del] client_free_socks.simps [simp del]

lemmas close_defs = mark_client_closed_def DEAD_KILL_def set_client_def close_pcb_def remove_callbacks_def
  tcp_err_def tcp_recv_def tcp_sent_def set_pcb_def tcp_abort_def tcp_close_def close_socks_def
  BSocksClient_Free_side_def client_dealloc_def gone_def

lemma handle_freed_eq:
  assumes "tun_clients s c = Some cl" "\<not> tc_client_closed cl" "tun_num_clients s > 0"
    and "tun_socks s c = None \<longleftrightarrow> tc_socks_closed cl"
  shows "client_handle_freed_client la c s =
    Some (if tc_buf cl \<noteq> [] \<and> \<not> tc_socks_closed cl
          then s\<lparr>tun_dead := tun_dead s \<or> tc_dead_client cl,
                 tun_clients := (tun_clients s)(c \<mapsto> cl\<lparr>tc_client_closed := True\<rparr>)\<rparr>
          else gone c (s\<lparr>tun_dead := tun_dead s \<or> tc_dead_client cl\<rparr>))"
  using assms
  by (cases "tc_socks_closed cl"; cases "tc_dead_client cl"; cases s)
    (auto simp: client_handle_freed_client.simps client_free_socks.simps close_defs)

lemma free_client_eq:
  assumes "tun_clients s c = Some cl" "\<not> tc_client_closed cl" "tun_num_clients s > 0"
    and "tun_socks s c = None \<longleftrightarrow> tc_socks_closed cl" "tun_pcbs s (tc_pcb cl) = Some pcb"
  shows "client_free_client la c s =
    client_handle_freed_client la c (s\<lparr>tun_pcbs := (tun_pcbs s)(tc_pcb cl := None)\<rparr>)"
  using assms by (auto simp: client_free_client.simps close_defs)

lemma abort_client_eq:
  assumes "tun_clients s c = Some cl" "\<not> tc_client_closed cl" "tun_num_clients s > 0"
    and "tun_socks s c = None \<longleftrightarrow> tc_socks_closed cl" "tun_pcbs s (tc_pcb cl) = Some pcb"
  shows "client_abort_client la c s =
    client_handle_freed_client la c (s\<lparr>tun_pcbs := (tun_pcbs s)(tc_pcb cl := None)\<rparr>)"
  using assms by (auto simp: client_abort_client_def close_defs)

lemma free_socks_eq:
  assumes "tun_clients s c = Some cl" "tun_num_clients s > 0" "\<not> tc_socks_closed cl"
    and "tun_socks s c \<noteq> None" "\<not> tc_client_closed cl \<longrightarrow> tun_pcbs s (tc_pcb cl) = Some pcb"
  shows "client_free_socks la c s =
    Some (if tc_client_closed cl then gone c s
          else if tc_socks_up cl \<and> (tc_socks_recv_buf_used cl \<ge> 0 \<or> tc_socks_recv_tcp_pending cl > 0)
          then s\<lparr>tun_pcbs := (tun_pcbs s)(tc_pcb cl \<mapsto> pcb\<lparr>pcb_recv := False\<rparr>),
                 tun_socks := (tun_socks s)(c := None),
                 tun_clients := (tun_clients s)(c \<mapsto> cl\<lparr>tc_socks_closed := True\<rparr>)\<rparr>
          else gone c (s\<lparr>tun_pcbs := (tun_pcbs s)(tc_pcb cl := None), tun_dead := tun_dead s \<or> tc_dead_client cl\<rparr>))"
  using assms
  by (cases "tc_client_closed cl"; cases "tc_socks_up cl"; cases "tc_dead_client cl"; cases s)
    (auto simp: client_handle_freed_client.simps client_free_client.simps client_free_socks.simps close_defs)

lemma murder_eq:
  assumes "tun_clients s c = Some cl" "tun_num_clients s > 0"
    and "tun_socks s c = None \<longleftrightarrow> tc_socks_closed cl" "\<not> tc_client_closed cl \<longrightarrow> tun_pcbs s (tc_pcb cl) = Some pcb"
  shows "client_murder c s =
    Some (gone c (if tc_client_closed cl then s
       else s\<lparr>tun_pcbs := (tun_pcbs s)(tc_pcb cl := None), tun_dead := tun_dead s \<or> tc_dead_client cl\<rparr>))"
  using assms
  by (cases "tc_client_closed cl"; cases "tc_socks_closed cl"; cases "tc_dead_client cl"; cases s)
    (auto simp: client_murder_def close_defs)

section \<open>Steps at one client\<close>

text \<open>
  What a handler of client \<open>c\<close> may change: the client, its SOCKS client, its connection; and when it
  releases the client or closes its connection, it does so completely.
\<close>

definition client_step :: "addr \<Rightarrow> tun \<Rightarrow> tun \<Rightarrow> bool" where
  "client_step c s s' \<longleftrightarrow>
     (\<exists>cl. tun_clients s c = Some cl \<and>
       (\<forall>c'. c' \<noteq> c \<longrightarrow> tun_clients s' c' = tun_clients s c' \<and> tun_socks s' c' = tun_socks s c' \<and> tun_log s' c' = tun_log s c') \<and>
       (\<forall>q. q \<noteq> tc_pcb cl \<or> tc_client_closed cl \<longrightarrow> tun_pcbs s' q = tun_pcbs s q) \<and>
       (\<not> tc_client_closed cl \<and> \<not> client_open s' c \<longrightarrow> tun_pcbs s' (tc_pcb cl) = None) \<and>
       (case tun_clients s' c of
          None \<Rightarrow> tun_tcp_clients s' = LinkedList1_Remove (tun_tcp_clients s) c \<and> tun_num_clients s' = tun_num_clients s - 1
        | Some cl' \<Rightarrow> tun_tcp_clients s' = tun_tcp_clients s \<and> tun_num_clients s' = tun_num_clients s \<and>
            tc_pcb cl' = tc_pcb cl \<and> (tc_client_closed cl \<longrightarrow> tc_client_closed cl')) \<and>
       tun_dead s' = (tun_dead s \<or> (client_open s c \<and> \<not> client_open s' c \<and> tc_dead_client cl)))"

lemma client_stepD:
  assumes "client_step c s s'" "tun_clients s c = Some cl"
  shows "c' \<noteq> c \<Longrightarrow> tun_clients s' c' = tun_clients s c'" "c' \<noteq> c \<Longrightarrow> tun_socks s' c' = tun_socks s c'"
    "c' \<noteq> c \<Longrightarrow> tun_log s' c' = tun_log s c'"
    "q \<noteq> tc_pcb cl \<or> tc_client_closed cl \<Longrightarrow> tun_pcbs s' q = tun_pcbs s q"
    "\<not> tc_client_closed cl \<Longrightarrow> \<not> client_open s' c \<Longrightarrow> tun_pcbs s' (tc_pcb cl) = None"
    "tun_clients s' c = None \<Longrightarrow> tun_tcp_clients s' = LinkedList1_Remove (tun_tcp_clients s) c"
    "tun_clients s' c = None \<Longrightarrow> tun_num_clients s' = tun_num_clients s - 1"
    "tun_clients s' c = Some cl' \<Longrightarrow> tun_tcp_clients s' = tun_tcp_clients s"
    "tun_clients s' c = Some cl' \<Longrightarrow> tun_num_clients s' = tun_num_clients s"
    "tun_clients s' c = Some cl' \<Longrightarrow> tc_pcb cl' = tc_pcb cl"
    "tun_clients s' c = Some cl' \<Longrightarrow> tc_client_closed cl \<Longrightarrow> tc_client_closed cl'"
    "tun_dead s' = (tun_dead s \<or> (client_open s c \<and> \<not> client_open s' c \<and> tc_dead_client cl))"
  using assms by (simp_all add: client_step_def)

lemma tun_inv_client: "tun_inv fr s \<Longrightarrow> client_ok fr s c"
  by (simp add: tun_inv_def)

lemma tun_inv_owned: "tun_inv fr s \<Longrightarrow> pcb_owned s p"
  by (simp add: tun_inv_def)

lemma pcb_owner:
  assumes "tun_inv fr s" "tun_clients s c = Some cl" "\<not> tc_client_closed cl"
  shows "tun_pcbs s (tc_pcb cl) = Some \<lparr>pcb_arg = Some c, pcb_errf = True, pcb_recv = (\<not> tc_socks_closed cl), pcb_sent = tc_socks_up cl\<rparr>"
proof -
  have "client_ok fr s c" using assms(1) by (simp add: tun_inv_def)
  then show ?thesis using assms(2,3) by (simp add: client_ok_def pcb_ok_def)
qed

lemma pcb_distinct:
  assumes "tun_inv fr s" "tun_clients s c = Some cl" "tun_clients s c' = Some cl'" "c \<noteq> c'"
    "\<not> tc_client_closed cl" "\<not> tc_client_closed cl'"
  shows "tc_pcb cl \<noteq> tc_pcb cl'"
  using pcb_owner [OF assms(1,2,5)] pcb_owner [OF assms(1,3,6)] assms(4) by auto

text \<open>Steps that leave their client in order keep the invariant of all.\<close>

lemma client_step_inv:
  assumes inv: "tun_inv fr s" and step: "client_step c s s'" and ok: "client_ok fr s' c"
  shows "tun_inv fr s'"
proof -
  obtain cs where cs: "l1_rep (tun_tcp_clients s) cs" "set cs = {c. tun_clients s c \<noteq> None}" "tun_num_clients s = int (length cs)"
    using inv by (auto simp: tun_inv_def)
  obtain cl where cl: "tun_clients s c = Some cl" using step by (auto simp: client_step_def)
  note D = client_stepD [OF step cl]
  note other = D(1-3)
  have clients: "tun_clients s' = (tun_clients s)(c := tun_clients s' c)" using other(1) by (auto simp: fun_eq_iff)
  note pcbs = D(4)
  have "client_ok fr s' c'" if "c' \<noteq> c" for c'
  proof (cases "tun_clients s c'")
    case None
    then show ?thesis using tun_inv_client [OF inv, of c'] other [OF that] by (simp add: client_ok_def)
  next
    case (Some cl')
    have "pcb_ok cl' c' (tun_pcbs s' (tc_pcb cl'))"
    proof (cases "tc_client_closed cl' \<or> tc_client_closed cl")
      case True
      then show ?thesis using tun_inv_client [OF inv, of c'] Some pcbs by (auto simp: pcb_ok_def client_ok_def)
    next
      case False
      then have "tc_pcb cl' \<noteq> tc_pcb cl" using pcb_distinct [OF inv Some cl that] by simp
      then show ?thesis using pcb_owner [OF inv Some] pcbs False by (simp add: pcb_ok_def)
    qed
    then show ?thesis using tun_inv_client [OF inv, of c'] other [OF that] Some by (simp add: client_ok_def)
  qed
  then have oks: "\<forall>c. client_ok fr s' c" using ok by metis
  have owned: "pcb_owned s' p" for p
    unfolding pcb_owned_def
  proof (intro allI impI)
    fix pcb assume p: "tun_pcbs s' p = Some pcb"
    show "\<exists>c cl. pcb_arg pcb = Some c \<and> tun_clients s' c = Some cl \<and> tc_pcb cl = p \<and> \<not> tc_client_closed cl"
    proof (cases "p = tc_pcb cl \<and> \<not> tc_client_closed cl")
      case True
      then have "client_open s' c" using D(5) p by auto
      then obtain cl' where cl': "tun_clients s' c = Some cl'" "\<not> tc_client_closed cl'" by (auto simp: client_open_def)
      then have "tc_pcb cl' = p" using D(10) True by auto
      then show ?thesis using cl' ok p by (auto simp: client_ok_def pcb_ok_def)
    next
      case False
      then have "tun_pcbs s p = Some pcb" using pcbs p by metis
      then obtain d dl where d: "pcb_arg pcb = Some d" "tun_clients s d = Some dl" "tc_pcb dl = p" "\<not> tc_client_closed dl"
        using tun_inv_owned [OF inv, of p] unfolding pcb_owned_def by blast
      then have "d \<noteq> c" using False cl by auto
      then show ?thesis using d other by auto
    qed
  qed
  have "\<exists>cs. l1_rep (tun_tcp_clients s') cs \<and> set cs = {c. tun_clients s' c \<noteq> None} \<and> tun_num_clients s' = int (length cs)"
  proof (cases "tun_clients s' c")
    case None
    have c: "c \<in> set cs" "distinct cs" using cl cs(2) l1.rep_distinct [OF cs(1)] by simp_all
    have s': "tun_tcp_clients s' = LinkedList1_Remove (tun_tcp_clients s) c" "tun_num_clients s' = tun_num_clients s - 1"
      using D(6,7) None by simp_all
    have "l1_rep (tun_tcp_clients s') (remove1 c cs)" using l1.rep_remove [OF cs(1) c(1)] s'(1) by simp
    moreover have "set (remove1 c cs) = {c. tun_clients s' c \<noteq> None}" using c cs(2) None by (subst clients) auto
    moreover have "tun_num_clients s' = int (length (remove1 c cs))"
    proof -
      have "length (remove1 c cs) = length cs - 1" "0 < length cs" using c(1) length_pos_if_in_set by (simp_all add: length_remove1)
      then show ?thesis using s'(2) cs(3) by linarith
    qed
    ultimately show ?thesis by blast
  next
    case (Some cl')
    then have "{c. tun_clients s' c \<noteq> None} = set cs" using cs(2) cl by (subst clients) auto
    then show ?thesis using cs D(8,9) [OF Some] by (intro exI [of _ cs]) simp
  qed
  moreover have "\<forall>d. fr = Some d \<longrightarrow> (tun_dead s' \<longleftrightarrow> \<not> client_open s' d)"
  proof (intro allI impI)
    fix d assume d: "fr = Some d"
    have dead: "tun_dead s \<longleftrightarrow> \<not> client_open s d" using inv d by (simp add: tun_inv_def)
    show "tun_dead s' \<longleftrightarrow> \<not> client_open s' d"
    proof (cases "d = c")
      case True
      have "client_open s c \<longrightarrow> tc_dead_client cl" using tun_inv_client [OF inv, of c] cl d True by (auto simp: client_ok_def client_open_def)
      moreover have "client_open s' c \<longrightarrow> client_open s c" using cl D(11) by (auto simp: client_open_def)
      ultimately show ?thesis using dead D(12) True by blast
    next
      case False
      have "client_open s c \<longrightarrow> \<not> tc_dead_client cl" using tun_inv_client [OF inv, of c] cl d False by (auto simp: client_ok_def client_open_def)
      moreover have "client_open s' d = client_open s d" using other(1) [OF False] by (simp add: client_open_def)
      ultimately show ?thesis using dead D(12) by blast
    qed
  qed
  ultimately show ?thesis using oks owned by (simp add: tun_inv_def)
qed

section \<open>The events of the SOCKS client\<close>

definition client_good :: "addr option \<Rightarrow> addr \<Rightarrow> tun \<Rightarrow> tun \<Rightarrow> bool" where
  "client_good fr c s s' \<longleftrightarrow> client_step c s s' \<and> client_ok fr s' c"

lemmas ok_defs = client_ok_def pcb_ok_def socks_ok_def recv_ok_def sides_ok_def log_ok_def

lemma client_ok_socks:
  assumes "client_ok fr s c" "tun_clients s c = Some cl"
  shows "tun_socks s c = None \<longleftrightarrow> tc_socks_closed cl"
  using assms by (cases "tun_socks s c") (auto simp: client_ok_def socks_ok_def)

lemma client_ok_pcb:
  assumes "client_ok fr s c" "tun_clients s c = Some cl" "\<not> tc_client_closed cl"
  shows "tun_pcbs s (tc_pcb cl) = Some \<lparr>pcb_arg = Some c, pcb_errf = True, pcb_recv = (\<not> tc_socks_closed cl), pcb_sent = tc_socks_up cl\<rparr>"
  using assms by (simp add: client_ok_def pcb_ok_def)

text \<open>The client side is closed, by lwIP, by an abort or by a close; the rest of \<open>s\<close> only has to be in order
  as far as SOCKS and the log are concerned.\<close>

lemma handle_freed_good:
  assumes s: "tun_clients s c = Some cl" "tun_num_clients s > 0" "\<not> tc_client_closed cl"
    and ok: "tun_socks s c = None \<longleftrightarrow> tc_socks_closed cl"
    and closing: "tc_buf cl \<noteq> [] \<and> \<not> tc_socks_closed cl \<longrightarrow>
      socks_ok (cl\<lparr>tc_client_closed := True\<rparr>) (tun_socks s c) \<and> log_ok (cl\<lparr>tc_client_closed := True\<rparr>) (tun_log s c)"
    and s0: "client_step c s0 (s\<lparr>tun_pcbs := (tun_pcbs s)(tc_pcb cl \<mapsto> pcb)\<rparr>)" "tun_clients s0 c = Some cl0" "tc_dead_client cl0 = tc_dead_client cl"
  shows "wp (client_handle_freed_client la c (s\<lparr>tun_pcbs := (tun_pcbs s)(tc_pcb cl := None)\<rparr>)) (client_good fr c s0)"
proof -
  note D = client_stepD [OF s0(1,2)]
  have open0: "\<not> tc_client_closed cl0" "tc_pcb cl = tc_pcb cl0" using D(10,11) [of cl] s(1,3) by auto
  then have "client_open s0 c" using s0(2) by (simp add: client_open_def)
  then show ?thesis
    using handle_freed_eq [of "s\<lparr>tun_pcbs := (tun_pcbs s)(tc_pcb cl := None)\<rparr>" c cl la] s ok closing open0 s0(2,3) D(1-4)
      D(8,9) [of cl] D(12)
    by (auto simp: wp_Some client_good_def client_step_def client_open_def gone_def client_ok_def pcb_ok_def recv_ok_def
        sides_ok_def fun_upd_other)
qed

lemma free_socks_good:
  assumes ok: "client_ok fr s c" and s: "tun_clients s c = Some cl" "tun_num_clients s > 0" "\<not> tc_socks_closed cl"
  shows "wp (client_free_socks la c s) (client_good fr c s)"
proof -
  have socks: "tun_socks s c \<noteq> None" using client_ok_socks [OF ok s(1)] s(3) by simp
  let ?pcb = "\<lparr>pcb_arg = Some c, pcb_errf = True, pcb_recv = (\<not> tc_socks_closed cl), pcb_sent = tc_socks_up cl\<rparr>"
  have eq: "client_free_socks la c s =
    Some (if tc_client_closed cl then gone c s
          else if tc_socks_up cl \<and> (tc_socks_recv_buf_used cl \<ge> 0 \<or> tc_socks_recv_tcp_pending cl > 0)
          then s\<lparr>tun_pcbs := (tun_pcbs s)(tc_pcb cl \<mapsto> ?pcb\<lparr>pcb_recv := False\<rparr>),
                 tun_socks := (tun_socks s)(c := None),
                 tun_clients := (tun_clients s)(c \<mapsto> cl\<lparr>tc_socks_closed := True\<rparr>)\<rparr>
          else gone c (s\<lparr>tun_pcbs := (tun_pcbs s)(tc_pcb cl := None), tun_dead := tun_dead s \<or> tc_dead_client cl\<rparr>))"
    by (rule free_socks_eq [OF s(1,2,3) socks]) (use client_ok_pcb [OF ok s(1)] in blast)
  consider (closed) "tc_client_closed cl"
    | (wait) "\<not> tc_client_closed cl" "tc_socks_up cl" "tc_socks_recv_buf_used cl \<ge> 0 \<or> tc_socks_recv_tcp_pending cl > 0"
    | (both) "\<not> tc_client_closed cl" "\<not> (tc_socks_up cl \<and> (tc_socks_recv_buf_used cl \<ge> 0 \<or> tc_socks_recv_tcp_pending cl > 0))"
    by blast
  then show ?thesis
  proof cases
    case closed
    then show ?thesis using s unfolding eq by (simp add: wp_Some client_good_def client_step_def client_open_def gone_def client_ok_def)
  next
    case wait
    have "recv_ok cl" "log_ok cl (tun_log s c)" "tc_dead_client cl = (fr = Some c)"
      using ok s(1) wait(1) by (simp_all add: client_ok_def)
    then have "tc_socks_recv_tcp_pending cl > 0" using wait by (auto simp: recv_ok_def)
    then show ?thesis
      using wait s ok unfolding eq
      by (auto simp: wp_Some client_good_def client_step_def client_open_def ok_defs)
  next
    case both
    then show ?thesis
      using s unfolding eq by (auto simp: wp_Some client_good_def client_step_def client_open_def gone_def client_ok_def)
  qed
qed

lemma client_step_refl: "tun_clients s c = Some cl \<Longrightarrow> client_step c s s"
  by (auto simp: client_step_def client_open_def)

lemma socks_error_good:
  assumes "client_ok fr s c" "tun_clients s c = Some cl" "tun_num_clients s > 0" "socks_enabled c e s" "e = Socks_Error \<or> e = Socks_Error_Closed"
  shows "wp (socks_step la c e s) (client_good fr c s)"
proof -
  have sc: "\<not> tc_socks_closed cl" using client_ok_socks [OF assms(1,2)] assms(4,5) by auto
  have "e = Socks_Error_Closed \<longrightarrow> tc_socks_up cl"
    using assms(1,2,4) by (auto simp: client_ok_def socks_ok_def)
  then show ?thesis
    using free_socks_good [OF assms(1,2,3) sc, of la] assms(2,5) sc by (auto simp: socks_step_def wp_simps)
qed

lemma socks_up_good:
  assumes ok: "client_ok fr s c" and s: "tun_clients s c = Some cl" "tun_num_clients s > 0" and en: "socks_enabled c Socks_Up s"
  shows "wp (socks_step la c Socks_Up s) (client_good fr c s)"
proof -
  obtain sk where sk: "tun_socks s c = Some sk" "\<not> sk_up sk" using en by auto
  then have cl: "\<not> tc_socks_closed cl" "\<not> tc_socks_up cl" "\<not> sk_send_init sk" "\<not> sk_recv_init sk"
    "sk_sending sk = None" "sk_receiving sk = None"
    using ok s(1) by (auto simp: client_ok_def socks_ok_def split: option.splits)
  note defs = socks_step_def client_socks_up_def client_send_to_socks_def client_socks_recv_initiate_def
    socks_Send_def socks_Recv_def set_socks_def set_client_def tcp_sent_def set_pcb_def CLIENT_SOCKS_RECV_BUF_SIZE_def
  show ?thesis
  proof (cases "tc_client_closed cl")
    case True
    then show ?thesis using ok s sk cl
      by (auto simp: defs wp_simps client_good_def client_step_def client_open_def ok_defs)
  next
    case False
    then show ?thesis using ok s sk cl client_ok_pcb [OF ok s(1) False]
      by (cases "tc_buf cl = []") (auto simp: defs wp_simps client_good_def client_step_def client_open_def ok_defs)
  qed
qed

text \<open>Most handlers only write fields of the client, its SOCKS client and the log.\<close>

definition client_written :: "addr \<Rightarrow> tcp_client \<Rightarrow> socks_side option \<Rightarrow> stream_log \<Rightarrow> tun \<Rightarrow> tun" where
  "client_written c cl sk l s =
     s\<lparr>tun_clients := (tun_clients s)(c \<mapsto> cl), tun_socks := (tun_socks s)(c := sk), tun_log := (tun_log s)(c := l)\<rparr>"

lemma client_written_sel [simp]:
  "tun_clients (client_written c cl sk l s) = (tun_clients s)(c \<mapsto> cl)"
  "tun_socks (client_written c cl sk l s) = (tun_socks s)(c := sk)"
  "tun_log (client_written c cl sk l s) = (tun_log s)(c := l)"
  "tun_pcbs (client_written c cl sk l s) = tun_pcbs s"
  "tun_num_clients (client_written c cl sk l s) = tun_num_clients s"
  "tun_tcp_clients (client_written c cl sk l s) = tun_tcp_clients s"
  "tun_dead (client_written c cl sk l s) = tun_dead s"
  by (simp_all add: client_written_def)

lemma client_written_step:
  assumes "tun_clients s c = Some cl0" "tc_pcb cl = tc_pcb cl0" "tc_client_closed cl = tc_client_closed cl0"
  shows "client_step c s (client_written c cl sk l s)"
  using assms by (auto simp: client_step_def client_open_def)

lemma client_written_good:
  assumes "client_ok fr s c" "tun_clients s c = Some cl0" "tc_pcb cl = tc_pcb cl0" "tc_client_closed cl = tc_client_closed cl0"
    "tc_dead_client cl = tc_dead_client cl0" "tc_socks_closed cl = tc_socks_closed cl0" "tc_socks_up cl = tc_socks_up cl0"
    "socks_ok cl sk" "recv_ok cl" "sides_ok cl" "log_ok cl l"
  shows "client_good fr c s (client_written c cl sk l s)"
  using assms client_written_step [OF assms(2-4), of sk l] by (auto simp: client_good_def client_ok_def pcb_ok_def)

lemma client_okD:
  assumes "client_ok fr s c" "tun_clients s c = Some cl"
  shows "socks_ok cl (tun_socks s c)" "recv_ok cl" "sides_ok cl" "log_ok cl (tun_log s c)"
    "\<not> tc_client_closed cl \<Longrightarrow> tc_dead_client cl = (fr = Some c)"
  using assms by (simp_all add: client_ok_def)

lemma socks_sent_good:
  assumes ok: "client_ok fr s c" and s: "tun_clients s c = Some cl" "tun_num_clients s > 0" and en: "socks_enabled c (Socks_Sent n) s"
  shows "wp (socks_step la c (Socks_Sent n) s) (client_good fr c s)"
proof -
  obtain sk d where sk: "tun_socks s c = Some sk" "sk_sending sk = Some d" "0 < n" "n \<le> length d" using en by auto
  then have cl: "\<not> tc_socks_closed cl" "tc_socks_up cl" "sk_up sk" "sk_send_init sk" "prefix d (tc_buf cl)"
    using client_okD(1) [OF ok s(1)] by (auto simp: socks_ok_def)
  obtain r where buf: "tc_buf cl = d @ r" using cl(5) by (auto simp: prefix_def)
  then have ne: "tc_buf cl \<noteq> []" "n \<le> length (tc_buf cl)" using sk(3,4) by auto
  define cl1 where "cl1 = tc_buf_update (drop n) cl"
  define l where "l = tun_log s c"
  define l1 where "l1 = l\<lparr>lg_taken := lg_taken l @ take n d, lg_recved := lg_recved l + (if tc_client_closed cl then 0 else n)\<rparr>"
  define s1 where "s1 = client_written c cl1 (Some (sk\<lparr>sk_sending := None\<rparr>)) l1 s"
  define sk2 where "sk2 = sk\<lparr>sk_sending := Some (tc_buf cl1)\<rparr>"
  have eq: "socks_step la c (Socks_Sent n) s =
      (if tc_buf cl1 \<noteq> [] then Some (client_written c cl1 (Some sk2) l1 s)
       else if tc_client_closed cl then client_free_socks la c s1 else Some s1)"
  proof (cases "tc_client_closed cl")
    case True
    then show ?thesis using s sk(1-3) cl(1-4) ne
      by (cases s) (auto simp: socks_step_def client_socks_send_handler_done_def socks_Send_def set_socks_def set_client_def set_log_def
          s1_def cl1_def l1_def l_def sk2_def client_written_def)
  next
    case False
    then show ?thesis using s sk(1-3) cl(1-4) ne client_ok_pcb [OF ok s(1) False]
      by (cases s) (auto simp: socks_step_def client_socks_send_handler_done_def socks_Send_def set_socks_def set_client_def set_log_def
          tcp_recved_def s1_def cl1_def l1_def l_def sk2_def client_written_def)
  qed
  have log: "log_ok cl1 l1"
    using client_okD(4) [OF ok s(1)] sk(3,4) buf by (auto simp: log_ok_def cl1_def l1_def l_def)
  have recv: "recv_ok cl1" using client_okD(2) [OF ok s(1)] by (simp add: recv_ok_def cl1_def)
  have same: "tc_pcb cl1 = tc_pcb cl" "tc_client_closed cl1 = tc_client_closed cl" "tc_dead_client cl1 = tc_dead_client cl"
    "tc_socks_closed cl1 = tc_socks_closed cl" "tc_socks_up cl1 = tc_socks_up cl" by (simp_all add: cl1_def)
  have sides: "tc_buf cl1 \<noteq> [] \<or> \<not> tc_client_closed cl \<Longrightarrow> sides_ok cl1"
    using client_okD(3) [OF ok s(1)] cl(1) by (auto simp: sides_ok_def cl1_def)
  have socks: "tc_buf cl1 \<noteq> [] \<Longrightarrow> socks_ok cl1 (Some sk2)"
    "tc_buf cl1 = [] \<Longrightarrow> socks_ok cl1 (Some (sk\<lparr>sk_sending := None\<rparr>))"
    using client_okD(1) [OF ok s(1)] sk(1) cl by (auto simp: socks_ok_def cl1_def sk2_def split: option.splits)
  consider (more) "tc_buf cl1 \<noteq> []" | (done_) "tc_buf cl1 = []" "\<not> tc_client_closed cl" | (last) "tc_buf cl1 = []" "tc_client_closed cl"
    by blast
  then show ?thesis
  proof cases
    case more
    then show ?thesis using client_written_good [OF ok s(1) same socks(1) recv sides log] by (simp add: eq wp_Some)
  next
    case done_
    then show ?thesis using client_written_good [OF ok s(1) same socks(2) recv sides log] by (simp add: eq wp_Some s1_def)
  next
    case last
    have "client_free_socks la c s1 = Some (gone c s1)"
      using free_socks_eq [of s1 c cl1] last(2) s cl(1) by (simp add: s1_def same)
    then show ?thesis using s last(1)
      by (simp add: eq last wp_Some client_good_def client_step_def client_open_def gone_def client_ok_def s1_def)
  qed
qed

section \<open>Data from SOCKS\<close>

text \<open>\<open>k\<close> more bytes of the receive buffer have been given to tcp_write.\<close>

definition sent_more :: "int \<Rightarrow> tcp_client \<Rightarrow> tcp_client" where
  "sent_more k cl = cl\<lparr>tc_socks_recv_buf_sent := tc_socks_recv_buf_sent cl + k,
     tc_socks_recv_tcp_pending := tc_socks_recv_tcp_pending cl + k\<rparr>"

definition logged_more :: "int \<Rightarrow> tcp_client \<Rightarrow> stream_log \<Rightarrow> stream_log" where
  "logged_more k cl l =
     l\<lparr>lg_written := lg_written l @ read_at (tc_socks_recv_buf cl) (nat (tc_socks_recv_buf_sent cl)) (nat k)\<rparr>"

lemma more_zero [simp]: "sent_more 0 cl = cl" "logged_more 0 cl l = l"
  by (simp_all add: sent_more_def logged_more_def)

lemma more_more:
  assumes "0 \<le> tc_socks_recv_buf_sent cl" "0 \<le> j" "0 \<le> k"
  shows "sent_more k (sent_more j cl) = sent_more (j + k) cl"
    "logged_more k (sent_more j cl) (logged_more j cl l) = logged_more (j + k) cl l"
  using assms by (simp_all add: sent_more_def logged_more_def read_at_append nat_add_distrib algebra_simps)

lemma client_written_same: "tun_clients s c = Some cl \<Longrightarrow> client_written c cl (tun_socks s c) (tun_log s c) s = s"
  by (cases s) (simp add: client_written_def map_upd_triv)

lemma client_written_again:
  "client_written c cl' sk' l' (client_written c cl sk l s) = client_written c cl' sk' l' s"
  by (cases s) (simp add: client_written_def)

lemma client_written_set:
  "set_client c f (client_written c cl sk l s) = Some (client_written c (f cl) sk l s)"
  "set_log c g (client_written c cl sk l s) = client_written c cl sk (g l) s"
  by (cases s, simp add: client_written_def set_client_def) (cases s, simp add: client_written_def set_log_def)

lemma abort_total:
  assumes "tun_clients s c = Some cl" "\<not> tc_client_closed cl" "tun_num_clients s > 0"
    "tun_socks s c = None \<longleftrightarrow> tc_socks_closed cl" "tun_pcbs s (tc_pcb cl) = Some pcb"
  shows "\<exists>s'. client_abort_client la c s = Some s'"
  using abort_client_eq [OF assms] handle_freed_eq [of "s\<lparr>tun_pcbs := (tun_pcbs s)(tc_pcb cl := None)\<rparr>" c cl la] assms by simp

lemma send_out_loop_spec:
  assumes "tun_clients s c = Some cl" "\<not> tc_client_closed cl" "tun_pcbs s (tc_pcb cl) = Some pcb" "tun_num_clients s > 0"
    "tun_socks s c = None \<longleftrightarrow> tc_socks_closed cl" "0 \<le> tc_socks_recv_buf_sent cl" "tc_socks_recv_buf_sent cl \<le> tc_socks_recv_buf_used cl"
  shows "wp (send_out_loop la ws c s) (\<lambda>(s', up). \<exists>k. 0 \<le> k \<and> tc_socks_recv_buf_sent cl + k \<le> tc_socks_recv_buf_used cl \<and>
    (let s1 = client_written c (sent_more k cl) (tun_socks s c) (logged_more k cl (tun_log s c)) s
     in if up then s' = s1 else client_abort_client la c s1 = Some s'))"
  using assms
proof (induction la ws c s arbitrary: cl rule: send_out_loop.induct)
  case (1 la c s)
  then show ?case unfolding send_out_loop.simps wp_Some prod.case
    by (intro exI [of _ 0]) (simp add: client_written_same)
next
  case (2 la sndbuf err ws c s)
  note IH = 2(1)
  define k where "k = min (tc_socks_recv_buf_used cl - tc_socks_recv_buf_sent cl) (int sndbuf)"
  let ?s1 = "client_written c (sent_more k cl) (tun_socks s c) (logged_more k cl (tun_log s c)) s"
  have k: "0 \<le> k" "tc_socks_recv_buf_sent cl + k \<le> tc_socks_recv_buf_used cl" using 2(7,8) by (auto simp: k_def)
  have abort: "\<exists>s'. client_abort_client la c s = Some s'"
    by (rule abort_total [OF 2(2,3,5,6,4)])
  define sw where "sw = client_written c cl (tun_socks s c) (logged_more k cl (tun_log s c)) s"
  have writ: "tcp_write (tc_pcb cl) c (read_at (tc_socks_recv_buf cl) (nat (tc_socks_recv_buf_sent cl)) (nat k)) s = Some sw"
    using 2(2,4) by (cases s) (simp add: tcp_write_def set_log_def client_written_def logged_more_def sw_def map_upd_triv)
  have sent: "set_client c (\<lambda>cl. cl\<lparr>tc_socks_recv_buf_sent := tc_socks_recv_buf_sent cl + k,
      tc_socks_recv_tcp_pending := tc_socks_recv_tcp_pending cl + k\<rparr>) sw = Some ?s1"
    by (cases s) (simp add: set_client_def client_written_def sent_more_def sw_def)
  have loop: "send_out_loop la ((sndbuf, err) # ws) c s =
      (if k = 0 \<or> err = ERR_MEM then Some (s, True)
       else if err \<noteq> ERR_OK then map_option (\<lambda>s. (s, False)) (client_abort_client la c s)
       else if tc_socks_recv_buf_sent cl + k < tc_socks_recv_buf_used cl then send_out_loop la ws c ?s1 else Some (?s1, True))"
    using 2(2) writ sent abort by (auto simp: Let_def k_def [symmetric] ERR_OK_def ERR_MEM_def)
  consider "k = 0 \<or> err = ERR_MEM" | "k \<noteq> 0" "err \<noteq> ERR_OK" "err \<noteq> ERR_MEM"
    | (last) "k \<noteq> 0" "err = ERR_OK" "\<not> tc_socks_recv_buf_sent cl + k < tc_socks_recv_buf_used cl"
    | (more) "k \<noteq> 0" "err = ERR_OK" "tc_socks_recv_buf_sent cl + k < tc_socks_recv_buf_used cl" by blast
  then show ?case
  proof cases
    case 1
    then show ?thesis using 2(7,8) client_written_same [OF 2(2)] unfolding loop
      by (simp add: wp_Some) (intro exI [of _ 0], simp)
  next
    case 2
    then show ?thesis using \<open>0 \<le> tc_socks_recv_buf_sent cl\<close> \<open>tc_socks_recv_buf_sent cl \<le> tc_socks_recv_buf_used cl\<close>
        client_written_same [OF \<open>tun_clients s c = Some cl\<close>] abort unfolding loop
      by (auto simp: wp_simps intro!: exI [of _ 0])
  next
    case last
    then show ?thesis using k unfolding loop by (auto simp: wp_Some ERR_OK_def ERR_MEM_def intro!: exI [of _ k])
  next
    case more
    have IH1: "wp (send_out_loop la ws c ?s1) (\<lambda>(s', up). \<exists>j. 0 \<le> j \<and> tc_socks_recv_buf_sent (sent_more k cl) + j \<le> tc_socks_recv_buf_used (sent_more k cl) \<and>
      (let s2 = client_written c (sent_more j (sent_more k cl)) (tun_socks ?s1 c) (logged_more j (sent_more k cl) (tun_log ?s1 c)) ?s1
       in if up then s' = s2 else client_abort_client la c s2 = Some s'))"
      by (rule IH [OF 2(2) k_def more(1) _ writ sent]) (use more 2(3-8) k in \<open>simp_all add: sent_more_def\<close>)
    have loop1: "send_out_loop la ((sndbuf, err) # ws) c s = send_out_loop la ws c ?s1"
      unfolding loop using more by (simp add: ERR_OK_def ERR_MEM_def)
    show ?thesis unfolding loop1
    proof (rule wp_mono [OF IH1], clarify)
      fix s' up j
      assume j: "0 \<le> j" "tc_socks_recv_buf_sent (sent_more k cl) + j \<le> tc_socks_recv_buf_used (sent_more k cl)"
        "let s2 = client_written c (sent_more j (sent_more k cl)) (tun_socks ?s1 c) (logged_more j (sent_more k cl) (tun_log ?s1 c)) ?s1
         in if up then s' = s2 else client_abort_client la c s2 = Some s'"
      note mm = more_more [OF 2(7) k(1) j(1)]
      have "tc_socks_recv_buf_sent cl + (k + j) \<le> tc_socks_recv_buf_used cl" using j(2) by (simp add: sent_more_def)
      then show "\<exists>k. 0 \<le> k \<and> tc_socks_recv_buf_sent cl + k \<le> tc_socks_recv_buf_used cl \<and>
        (let s1 = client_written c (sent_more k cl) (tun_socks s c) (logged_more k cl (tun_log s c)) s
         in if up then s' = s1 else client_abort_client la c s1 = Some s')"
        using j(1,3) k(1) by (intro exI [of _ "k + j"]) (simp add: mm client_written_again Let_def)
    qed
  qed
qed

text \<open>What send_out leaves: everything is written and the buffer is free, or lwIP will call back, or the client was aborted.\<close>

lemma send_out_spec:
  assumes s: "tun_clients s c = Some cl" "\<not> tc_client_closed cl" "tun_pcbs s (tc_pcb cl) = Some pcb" "tun_num_clients s > 0"
    "tun_socks s c = None \<longleftrightarrow> tc_socks_closed cl" "0 \<le> tc_socks_recv_buf_sent cl"
    "tc_socks_recv_buf_sent cl < tc_socks_recv_buf_used cl" "\<not> tc_socks_recv_waiting cl" "tc_socks_up cl"
  shows "wp (client_socks_recv_send_out la c s) (\<lambda>(s', up). \<exists>k. 0 \<le> k \<and> tc_socks_recv_buf_sent cl + k \<le> tc_socks_recv_buf_used cl \<and>
    (let cl1 = sent_more k cl; l1 = logged_more k cl (tun_log s c) in
     if \<not> up then client_abort_client la c (client_written c cl1 (tun_socks s c) l1 s) = Some s'
     else if tc_socks_recv_buf_sent cl + k = tc_socks_recv_buf_used cl
     then s' = client_written c (cl1\<lparr>tc_socks_recv_buf_used := -1\<rparr>) (tun_socks s c) l1 s
     else s' = client_written c (cl1\<lparr>tc_socks_recv_waiting := True\<rparr>) (tun_socks s c) l1 s \<and> tc_socks_recv_tcp_pending cl + k \<noteq> 0))"
    (is "wp _ ?Q")
proof -
  have loop: "wp (send_out_loop la (la_writes la) c s) (\<lambda>(s', up). \<exists>k. 0 \<le> k \<and> tc_socks_recv_buf_sent cl + k \<le> tc_socks_recv_buf_used cl \<and>
    (let s1 = client_written c (sent_more k cl) (tun_socks s c) (logged_more k cl (tun_log s c)) s
     in if up then s' = s1 else client_abort_client la c s1 = Some s'))"
    by (rule send_out_loop_spec [OF s(1-6)]) (use s(7) in simp)
  define K where "K = (\<lambda>(s1, up). if \<not> up then Some (s1, False) else do {
         cl \<leftarrow> tun_clients s1 c;
         _ \<leftarrow> tun_pcbs s1 (tc_pcb cl);
         if la_output la \<noteq> ERR_OK then do { s \<leftarrow> client_abort_client la c s1; Some (s, False) }
         else if tc_socks_recv_buf_sent cl < tc_socks_recv_buf_used cl then
           if tc_socks_recv_tcp_pending cl = 0 then do { s \<leftarrow> client_abort_client la c s1; Some (s, False) }
           else do { s \<leftarrow> set_client c (tc_socks_recv_waiting_update (\<lambda>_. True)) s1; Some (s, True) }
         else do { s \<leftarrow> set_client c (tc_socks_recv_buf_used_update (\<lambda>_. -1)) s1; Some (s, True) } })"
  have rest: "wp (K (s1, up)) ?Q"
    if k: "0 \<le> k" "tc_socks_recv_buf_sent cl + k \<le> tc_socks_recv_buf_used cl"
      and s1: "let s2 = client_written c (sent_more k cl) (tun_socks s c) (logged_more k cl (tun_log s c)) s
         in if up then s1 = s2 else client_abort_client la c s2 = Some s1" for k s1 up
  proof (cases up)
    case False
    then show ?thesis using k s1 by (auto simp: K_def wp_Some Let_def)
  next
    case True
    then have s1: "s1 = client_written c (sent_more k cl) (tun_socks s c) (logged_more k cl (tun_log s c)) s"
      using s1 by (simp add: Let_def)
    have cl1: "tun_clients s1 c = Some (sent_more k cl)" "tc_pcb (sent_more k cl) = tc_pcb cl" "tun_pcbs s1 (tc_pcb cl) = Some pcb"
      using s(3) by (simp_all add: s1 sent_more_def)
    obtain s2 where s2: "client_abort_client la c s1 = Some s2"
      using abort_total [OF cl1(1), of pcb la] s(2-5) cl1 by (auto simp: s1 sent_more_def)
    have set1: "set_client c f s1 = Some (client_written c (f (sent_more k cl)) (tun_socks s c) (logged_more k cl (tun_log s c)) s)" for f
      by (cases s) (simp add: set_client_def s1 client_written_def)
    show ?thesis
      using k s2 True by (simp add: K_def cl1 set1 wp_simps) (auto simp: sent_more_def s1 Let_def intro!: exI [of _ k])
  qed
  have eq: "client_socks_recv_send_out la c s = send_out_loop la (la_writes la) c s \<bind> K"
    using s(1,2,6-9) by (simp add: client_socks_recv_send_out_def K_def)
  show ?thesis unfolding eq wp_bind
    by (rule wp_mono [OF loop]) (clarify, rule rest)
qed

definition same_client :: "tcp_client \<Rightarrow> tcp_client \<Rightarrow> bool" where
  "same_client cl cl' \<longleftrightarrow> tc_pcb cl' = tc_pcb cl \<and> tc_client_closed cl' = tc_client_closed cl \<and> tc_dead_client cl' = tc_dead_client cl \<and>
     tc_socks_closed cl' = tc_socks_closed cl \<and> tc_socks_up cl' = tc_socks_up cl \<and> tc_buf cl' = tc_buf cl"

lemma same_clientD:
  assumes "same_client cl cl'"
  shows "tc_pcb cl' = tc_pcb cl" "tc_client_closed cl' = tc_client_closed cl" "tc_dead_client cl' = tc_dead_client cl"
    "tc_socks_closed cl' = tc_socks_closed cl" "tc_socks_up cl' = tc_socks_up cl" "tc_buf cl' = tc_buf cl"
  using assms by (simp_all add: same_client_def)

lemma more_same: "same_client cl cl' \<Longrightarrow> same_client cl (sent_more k cl')"
  by (simp add: same_client_def sent_more_def)

lemma log_ok_more:
  assumes "log_ok cl l" "\<not> tc_client_closed cl" "tc_socks_up cl" "tc_socks_recv_buf_used cl = int (length (tc_socks_recv_buf cl))"
    "0 \<le> tc_socks_recv_buf_sent cl" "0 \<le> k" "tc_socks_recv_buf_sent cl + k \<le> tc_socks_recv_buf_used cl"
  shows "log_ok (sent_more k cl) (logged_more k cl l)"
proof -
  let ?b = "tc_socks_recv_buf cl" and ?n = "nat (tc_socks_recv_buf_sent cl)"
  have "drop ?n ?b = take (nat k) (drop ?n ?b) @ drop (?n + nat k) ?b" by (simp add: add.commute flip: drop_drop)
  moreover have "length (take (nat k) (drop ?n ?b)) = nat k" using assms(4-7) by simp
  ultimately show ?thesis
    using assms by (auto simp: log_ok_def sent_more_def logged_more_def read_at_def nat_add_distrib take_is_prefix)
qed

lemma freed_written_good:
  assumes ok: "client_ok fr s0 c" and s0: "tun_clients s0 c = Some cl0" "\<not> tc_client_closed cl0" "tun_num_clients s0 > 0"
    and same: "same_client cl0 cl" and l: "log_ok cl l" and sk: "socks_ok cl sk"
  shows "wp (client_handle_freed_client la c ((client_written c cl sk l s0)\<lparr>tun_pcbs := (tun_pcbs s0)(tc_pcb cl := None)\<rparr>))
    (\<lambda>s'. client_good fr c s0 s' \<and> \<not> client_open s' c)"
proof -
  let ?s = "client_written c cl sk l s0"
  note same = same_clientD [OF same]
  obtain pcb where pcb: "tun_pcbs s0 (tc_pcb cl0) = Some pcb" using client_ok_pcb [OF ok s0(1,2)] by blast
  have socks: "tun_socks ?s c = None \<longleftrightarrow> tc_socks_closed cl" using sk by (auto simp: socks_ok_def split: option.splits)
  have step: "client_step c s0 (?s\<lparr>tun_pcbs := (tun_pcbs ?s)(tc_pcb cl \<mapsto> pcb)\<rparr>)"
    using client_written_step [OF s0(1) same(1,2), of sk l] pcb same(1) by (simp add: map_upd_triv client_written_def)
  have "wp (client_handle_freed_client la c (?s\<lparr>tun_pcbs := (tun_pcbs ?s)(tc_pcb cl := None)\<rparr>)) (client_good fr c s0)"
    by (rule handle_freed_good [OF _ _ _ socks _ step s0(1) same(3) [symmetric]])
      (use same s0 l sk in \<open>auto simp: socks_ok_def log_ok_def split: option.splits\<close>)
  then show ?thesis
    using handle_freed_eq [of "?s\<lparr>tun_pcbs := (tun_pcbs s0)(tc_pcb cl := None)\<rparr>" c cl la] same s0 socks
    by (auto simp: wp_Some client_open_def gone_def)
qed

lemma abort_written_good:
  assumes ok: "client_ok fr s0 c" and s0: "tun_clients s0 c = Some cl0" "\<not> tc_client_closed cl0" "tun_num_clients s0 > 0"
    and same: "same_client cl0 cl" and l: "log_ok cl l" and sk: "socks_ok cl sk"
    and eq: "client_abort_client la c (client_written c cl sk l s0) = Some s'"
  shows "client_good fr c s0 s' \<and> \<not> client_open s' c"
proof -
  let ?s = "client_written c cl sk l s0"
  have socks: "tun_socks ?s c = None \<longleftrightarrow> tc_socks_closed cl" using sk by (auto simp: socks_ok_def split: option.splits)
  show ?thesis
    using freed_written_good [OF ok s0 same l sk, of la] eq abort_client_eq [of ?s c cl _ la] same_clientD [OF same] s0 socks
      client_ok_pcb [OF ok s0(1,2)] by (auto simp: wp_iff)
qed

lemma free_written_good:
  assumes ok: "client_ok fr s0 c" and s0: "tun_clients s0 c = Some cl0" "\<not> tc_client_closed cl0" "tun_num_clients s0 > 0"
    and same: "same_client cl0 cl" and l: "log_ok cl l" and sk: "socks_ok cl sk"
  shows "wp (client_free_client la c (client_written c cl sk l s0)) (\<lambda>s'. client_good fr c s0 s' \<and> \<not> client_open s' c)"
proof -
  let ?s = "client_written c cl sk l s0"
  have socks: "tun_socks ?s c = None \<longleftrightarrow> tc_socks_closed cl" using sk by (auto simp: socks_ok_def split: option.splits)
  show ?thesis
    using freed_written_good [OF ok s0 same l sk, of la] free_client_eq [of ?s c cl _ la] same_clientD [OF same] s0 socks
      client_ok_pcb [OF ok s0(1,2)] by auto
qed

lemma send_out_good:
  assumes ok: "client_ok fr s0 c" and s0: "tun_clients s0 c = Some cl0" "\<not> tc_client_closed cl0" "tun_num_clients s0 > 0" "tc_socks_up cl0"
    and same: "same_client cl0 cl" and l: "log_ok cl l" and sk: "socks_ok cl sk"
    and cl: "0 \<le> tc_socks_recv_buf_sent cl" "tc_socks_recv_buf_sent cl < tc_socks_recv_buf_used cl"
      "tc_socks_recv_buf_used cl = int (length (tc_socks_recv_buf cl))" "\<not> tc_socks_recv_waiting cl"
  shows "wp (client_socks_recv_send_out la c (client_written c cl sk l s0)) (\<lambda>(s', up).
    if \<not> up then client_good fr c s0 s' \<and> \<not> client_open s' c
    else \<exists>cl' l'. s' = client_written c cl' sk l' s0 \<and> same_client cl0 cl' \<and> log_ok cl' l' \<and> recv_ok cl' \<and> tc_socks_recv_tcp_pending cl' > 0)"
proof -
  let ?s = "client_written c cl sk l s0"
  note sd = same_clientD [OF same]
  obtain pcb where pcb: "tun_pcbs s0 (tc_pcb cl0) = Some pcb" using client_ok_pcb [OF ok s0(1,2)] by blast
  have socks: "tun_socks ?s c = None \<longleftrightarrow> tc_socks_closed cl" using sk by (auto simp: socks_ok_def split: option.splits)
  have pend: "0 \<le> tc_socks_recv_tcp_pending cl" using l s0 sd by (simp add: log_ok_def)
  show ?thesis
  proof (rule wp_mono [OF send_out_spec [of ?s c cl pcb]])
    fix x assume x: "case x of (s', up) \<Rightarrow> \<exists>k. 0 \<le> k \<and> tc_socks_recv_buf_sent cl + k \<le> tc_socks_recv_buf_used cl \<and>
      (let cl1 = sent_more k cl; l1 = logged_more k cl (tun_log ?s c) in
       if \<not> up then client_abort_client la c (client_written c cl1 (tun_socks ?s c) l1 ?s) = Some s'
       else if tc_socks_recv_buf_sent cl + k = tc_socks_recv_buf_used cl
       then s' = client_written c (cl1\<lparr>tc_socks_recv_buf_used := -1\<rparr>) (tun_socks ?s c) l1 ?s
       else s' = client_written c (cl1\<lparr>tc_socks_recv_waiting := True\<rparr>) (tun_socks ?s c) l1 ?s \<and> tc_socks_recv_tcp_pending cl + k \<noteq> 0)"
    obtain s' up where sx: "x = (s', up)" by force
    obtain k where k: "0 \<le> k" "tc_socks_recv_buf_sent cl + k \<le> tc_socks_recv_buf_used cl"
      and res: "if \<not> up then client_abort_client la c (client_written c (sent_more k cl) sk (logged_more k cl l) s0) = Some s'
        else if tc_socks_recv_buf_sent cl + k = tc_socks_recv_buf_used cl
        then s' = client_written c ((sent_more k cl)\<lparr>tc_socks_recv_buf_used := -1\<rparr>) sk (logged_more k cl l) s0
        else s' = client_written c ((sent_more k cl)\<lparr>tc_socks_recv_waiting := True\<rparr>) sk (logged_more k cl l) s0 \<and>
          tc_socks_recv_tcp_pending cl + k \<noteq> 0"
      using x unfolding sx prod.case Let_def client_written_sel client_written_again fun_upd_same by blast
    have l1: "log_ok (sent_more k cl) (logged_more k cl l)" by (rule log_ok_more) (use l s0 sd cl k in auto)
    have sk1: "socks_ok (sent_more k cl) sk" using sk by (auto simp: socks_ok_def sent_more_def split: option.splits)
    have "client_good fr c s0 s' \<and> \<not> client_open s' c" if "\<not> up"
      by (rule abort_written_good [OF ok s0(1-3) more_same [OF same] l1 sk1]) (use res that in simp)
    moreover have "\<exists>cl' l'. s' = client_written c cl' sk l' s0 \<and> same_client cl0 cl' \<and> log_ok cl' l' \<and> recv_ok cl' \<and> tc_socks_recv_tcp_pending cl' > 0"
      if up
    proof (cases "tc_socks_recv_buf_sent cl + k = tc_socks_recv_buf_used cl")
      case True
      then show ?thesis using res that l1 k cl pend same
        by (intro exI [of _ "(sent_more k cl)\<lparr>tc_socks_recv_buf_used := -1\<rparr>"] exI [of _ "logged_more k cl l"])
          (auto simp: same_client_def log_ok_def recv_ok_def sent_more_def)
    next
      case False
      then show ?thesis using res that l1 k cl pend same
        by (intro exI [of _ "(sent_more k cl)\<lparr>tc_socks_recv_waiting := True\<rparr>"] exI [of _ "logged_more k cl l"])
          (auto simp: same_client_def log_ok_def recv_ok_def sent_more_def)
    qed
    ultimately show "case x of (s', up) \<Rightarrow> if \<not> up then client_good fr c s0 s' \<and> \<not> client_open s' c
      else \<exists>cl' l'. s' = client_written c cl' sk l' s0 \<and> same_client cl0 cl' \<and> log_ok cl' l' \<and> recv_ok cl' \<and> tc_socks_recv_tcp_pending cl' > 0"
      by (simp add: sx)
  qed (use s0 sd cl pcb socks in auto)
qed

text \<open>Once the buffer is free again the next receive is started, unless SOCKS is closed.\<close>

lemma recv_initiate_good:
  assumes ok: "client_ok fr s c" and s: "tun_clients s c = Some cl" "\<not> tc_client_closed cl" "tc_socks_up cl"
    and cl': "same_client cl cl'" "log_ok cl' l" "recv_ok cl'" "tc_socks_recv_tcp_pending cl' > 0"
    and sk: "socks_ok (cl\<lparr>tc_socks_recv_buf_used := 0\<rparr>) sk"
  shows "wp (if tc_socks_recv_buf_used cl' = -1 \<and> \<not> tc_socks_closed cl' then client_socks_recv_initiate c (client_written c cl' sk l s)
     else Some (client_written c cl' sk l s)) (\<lambda>s'. client_good fr c s s' \<and> client_open s' c)"
proof -
  note same = same_clientD [OF cl'(1)]
  have sides: "sides_ok cl'" using cl'(4) s(2) same s(3) by (simp add: sides_ok_def)
  note good = client_written_good [OF ok s(1) same(1-5) _ cl'(3) sides cl'(2)]
  show ?thesis
  proof (cases "tc_socks_recv_buf_used cl' = -1 \<and> \<not> tc_socks_closed cl'")
    case True
    obtain sk0 where sk0: "sk = Some sk0" "sk_receiving sk0 = None" "sk_up sk0" "sk_recv_init sk0"
      using sk True same s(3) by (auto simp: socks_ok_def split: option.splits)
    have "client_socks_recv_initiate c (client_written c cl' sk l s) =
        Some (client_written c cl' (Some (sk0\<lparr>sk_receiving := Some CLIENT_SOCKS_RECV_BUF_SIZE\<rparr>)) l s)"
      using True same s sk0 by (simp add: client_socks_recv_initiate_def socks_Recv_def set_socks_def client_written_def CLIENT_SOCKS_RECV_BUF_SIZE_def)
    moreover have "socks_ok cl' (Some (sk0\<lparr>sk_receiving := Some CLIENT_SOCKS_RECV_BUF_SIZE\<rparr>))"
      using sk sk0 True same s(3) by (auto simp: socks_ok_def split: option.splits)
    ultimately show ?thesis using True good s(2) same(2) by (simp add: wp_Some client_open_def)
  next
    case False
    then have "socks_ok cl' sk" using sk same s(3) by (auto simp: socks_ok_def split: option.splits)
    then show ?thesis using False good s(2) same(2) by (auto simp: wp_Some client_open_def)
  qed
qed

lemma socks_received_good:
  assumes ok: "client_ok fr s c" and s: "tun_clients s c = Some cl" "tun_num_clients s > 0" and en: "socks_enabled c (Socks_Received d) s"
  shows "wp (socks_step la c (Socks_Received d) s) (client_good fr c s)"
proof -
  obtain sk n where sk: "tun_socks s c = Some sk" "sk_receiving sk = Some n" "0 < length d" "length d \<le> n" using en by auto
  then have cl: "\<not> tc_socks_closed cl" "tc_socks_up cl" "sk_up sk" "sk_recv_init sk" "n = CLIENT_SOCKS_RECV_BUF_SIZE" "tc_socks_recv_buf_used cl = -1"
    using client_okD(1) [OF ok s(1)] by (auto simp: socks_ok_def)
  define sk1 where "sk1 = sk\<lparr>sk_receiving := None\<rparr>"
  note okD = client_okD [OF ok s(1)]
  have step: "socks_step la c (Socks_Received d) s =
    client_socks_recv_handler_done la c d (client_written c cl (Some sk1)
      (if tc_client_closed cl then tun_log s c else (tun_log s c)\<lparr>lg_from_socks := lg_from_socks (tun_log s c) @ d\<rparr>) s)"
    using s sk(1) by (cases s) (simp add: socks_step_def set_socks_def set_log_def client_written_def sk1_def map_upd_triv)
  show ?thesis
  proof (cases "tc_client_closed cl")
    case True
    have "socks_ok cl (Some sk1)" using okD(1) sk(1) True by (auto simp: socks_ok_def sk1_def)
    then have "client_good fr c s (client_written c cl (Some sk1) (tun_log s c) s)"
      by (intro client_written_good [OF ok s(1)] okD refl)
    then show ?thesis using True sk(3,4) cl by (simp add: step client_socks_recv_handler_done_def wp_simps)
  next
    case False
    define cl1 where "cl1 = cl\<lparr>tc_socks_recv_buf := d, tc_socks_recv_buf_used := int (length d), tc_socks_recv_buf_sent := 0, tc_socks_recv_waiting := False\<rparr>"
    define l1 where "l1 = (tun_log s c)\<lparr>lg_from_socks := lg_from_socks (tun_log s c) @ d\<rparr>"
    have same: "same_client cl cl1" by (simp add: same_client_def cl1_def)
    have l1: "log_ok cl1 l1" using okD(4) False cl(2,6) by (auto simp: log_ok_def cl1_def l1_def)
    have sk1: "socks_ok cl1 (Some sk1)" using okD(1) sk(1) by (auto simp: socks_ok_def cl1_def sk1_def split: option.splits)
    have eq: "client_socks_recv_handler_done la c d (client_written c cl (Some sk1) l1 s) =
       client_socks_recv_send_out la c (client_written c cl1 (Some sk1) l1 s) \<bind>
         (\<lambda>(s, up). if \<not> up then Some s
            else do { cl \<leftarrow> tun_clients s c; if tc_socks_recv_buf_used cl = -1 then client_socks_recv_initiate c s else Some s })"
      using False sk(3,4) cl
      by (simp add: client_socks_recv_handler_done_def client_written_set cl1_def)
    have out: "wp (client_socks_recv_send_out la c (client_written c cl1 (Some sk1) l1 s)) (\<lambda>(s', up).
       if \<not> up then client_good fr c s s' \<and> \<not> client_open s' c
       else \<exists>cl' l'. s' = client_written c cl' (Some sk1) l' s \<and> same_client cl cl' \<and> log_ok cl' l' \<and> recv_ok cl' \<and> tc_socks_recv_tcp_pending cl' > 0)"
      by (rule send_out_good [OF ok s(1) False s(2) cl(2) same l1 sk1]) (use sk(3) in \<open>simp_all add: cl1_def\<close>)
    have "wp (client_socks_recv_handler_done la c d (client_written c cl (Some sk1) l1 s)) (client_good fr c s)"
      unfolding eq wp_bind
    proof (rule wp_mono [OF out], clarify)
      fix s' up
      assume up: "if \<not> up then client_good fr c s s' \<and> \<not> client_open s' c else \<exists>cl' l'. s' = client_written c cl' (Some sk1) l' s \<and> same_client cl cl' \<and>
        log_ok cl' l' \<and> recv_ok cl' \<and> tc_socks_recv_tcp_pending cl' > 0"
      show "wp (if \<not> up then Some s' else do { cl \<leftarrow> tun_clients s' c;
        if tc_socks_recv_buf_used cl = -1 then client_socks_recv_initiate c s' else Some s' }) (client_good fr c s)"
      proof (cases up)
        case True
        then obtain cl' l' where cl': "s' = client_written c cl' (Some sk1) l' s" "same_client cl cl'" "log_ok cl' l'" "recv_ok cl'" "tc_socks_recv_tcp_pending cl' > 0"
          using up by auto
        have "socks_ok (cl\<lparr>tc_socks_recv_buf_used := 0\<rparr>) (Some sk1)"
          using okD(1) sk(1) by (auto simp: socks_ok_def sk1_def split: option.splits)
        from recv_initiate_good [OF ok s(1) False cl(2) cl'(2-5) this] show ?thesis
          using True cl(1) same_clientD(4) [OF cl'(2)] by (auto simp: cl'(1) elim: wp_mono)
      qed (use up in \<open>simp add: wp_Some\<close>)
    qed
    then show ?thesis using False by (simp add: step l1_def)
  qed
qed

lemma socks_event_good:
  assumes "client_ok fr s c" "tun_clients s c = Some cl" "tun_num_clients s > 0" "socks_enabled c e s"
  shows "wp (socks_step la c e s) (client_good fr c s)"
proof (cases e)
  case Socks_Up
  then show ?thesis using socks_up_good assms by simp
next
  case (Socks_Sent n)
  then show ?thesis using socks_sent_good assms by simp
next
  case (Socks_Received d)
  then show ?thesis using socks_received_good assms by simp
qed (use socks_error_good assms in blast)+

section \<open>SYNC\_COMMIT\<close>

lemma tun_inv_num: "tun_inv fr s \<Longrightarrow> tun_clients s c = Some cl \<Longrightarrow> tun_num_clients s > 0"
  by (auto simp: tun_inv_def length_greater_0_conv)

lemma socks_enabled_client: "tun_inv fr s \<Longrightarrow> socks_enabled c e s \<Longrightarrow> \<exists>cl. tun_clients s c = Some cl"
  using tun_inv_client [of fr s c] by (cases "tun_clients s c"; cases e) (auto simp: client_ok_def)

text \<open>No handler creates a connection or gives one to another client.\<close>

definition pcbs_from :: "tun \<Rightarrow> tun \<Rightarrow> bool" where
  "pcbs_from s s' \<longleftrightarrow> (\<forall>p pcb'. tun_pcbs s' p = Some pcb' \<longrightarrow> (\<exists>pcb. tun_pcbs s p = Some pcb \<and> pcb_arg pcb = pcb_arg pcb'))"

lemma pcbs_from_refl: "tun_pcbs s' = tun_pcbs s \<Longrightarrow> pcbs_from s s'"
  by (simp add: pcbs_from_def)

lemma pcbs_from_trans: "pcbs_from s s' \<Longrightarrow> pcbs_from s' s'' \<Longrightarrow> pcbs_from s s''"
  unfolding pcbs_from_def by metis

definition tun_next :: "addr option \<Rightarrow> tun \<Rightarrow> tun \<Rightarrow> bool" where
  "tun_next fr s s' \<longleftrightarrow> tun_inv fr s' \<and> pcbs_from s s'"

lemma client_good_next:
  assumes inv: "tun_inv fr s" and good: "client_good fr c s s'"
  shows "tun_next fr s s'"
proof -
  have step: "client_step c s s'" "client_ok fr s' c" using good by (simp_all add: client_good_def)
  obtain cl where cl: "tun_clients s c = Some cl" using step(1) by (auto simp: client_step_def)
  note D = client_stepD [OF step(1) cl]
  have "pcbs_from s s'"
    unfolding pcbs_from_def
  proof (intro allI impI)
    fix p pcb' assume p: "tun_pcbs s' p = Some pcb'"
    show "\<exists>pcb. tun_pcbs s p = Some pcb \<and> pcb_arg pcb = pcb_arg pcb'"
    proof (cases "p = tc_pcb cl \<and> \<not> tc_client_closed cl")
      case True
      then obtain cl' where cl': "tun_clients s' c = Some cl'" "\<not> tc_client_closed cl'" using D(5) p by (auto simp: client_open_def)
      then have "pcb_arg pcb' = Some c" using client_ok_pcb [OF step(2) cl'] D(10) [OF cl'(1)] True p by auto
      then show ?thesis using pcb_owner [OF inv cl] True by auto
    next
      case False
      then show ?thesis using D(4) [of p] p by (intro exI [of _ pcb']) auto
    qed
  qed
  then show ?thesis using client_step_inv [OF inv step] by (simp add: tun_next_def)
qed

lemma socks_step_inv:
  assumes "tun_inv fr s" "socks_enabled c e s"
  shows "wp (socks_step la c e s) (tun_next fr s)"
proof -
  obtain cl where cl: "tun_clients s c = Some cl" using socks_enabled_client [OF assms] by blast
  show ?thesis
    by (rule wp_mono [OF socks_event_good [OF tun_inv_client [OF assms(1)] cl tun_inv_num [OF assms(1) cl] assms(2)]])
      (rule client_good_next [OF assms(1)])
qed

lemma tun_nextD: "tun_next fr s s' \<Longrightarrow> tun_inv fr s'"
  by (simp add: tun_next_def)

lemma tun_next_refl: "tun_inv fr s' \<Longrightarrow> tun_pcbs s' = tun_pcbs s \<Longrightarrow> tun_next fr s s'"
  by (simp add: tun_next_def pcbs_from_refl)

lemma tun_next_trans: "tun_next fr s s' \<Longrightarrow> tun_next fr' s' s'' \<Longrightarrow> tun_next fr' s s''"
  by (auto simp: tun_next_def intro: pcbs_from_trans)

lemma sync_commit_inv: "tun_inv fr s \<Longrightarrow> wp (sync_commit es s) (tun_next fr s)"
proof (induction es s rule: sync_commit.induct)
  case (2 la c e es s)
  show ?case
  proof (cases "socks_enabled c e s")
    case True
    obtain s1 where s1: "socks_step la c e s = Some s1" "tun_next fr s s1"
      using socks_step_inv [OF 2(3) True, of la] by (auto simp: wp_iff)
    then have "wp (sync_commit es s1) (tun_next fr s1)" using 2(1) True tun_nextD [OF s1(2)] by simp
    then show ?thesis using True s1 by (auto simp: wp_simps elim!: wp_mono intro: tun_next_trans)
  qed (use 2 in simp)
qed (simp add: wp_Some tun_next_refl)

text \<open>The dead variable tells whether the client is still there, and the invariant holds again without a frame.\<close>

definition set_dead :: "addr \<Rightarrow> tcp_client \<Rightarrow> bool \<Rightarrow> bool \<Rightarrow> tun \<Rightarrow> tun" where
  "set_dead c cl b d s = s\<lparr>tun_dead := d, tun_clients := (tun_clients s)(c \<mapsto> cl\<lparr>tc_dead_client := b\<rparr>)\<rparr>"

lemma ok_dead [simp]:
  "pcb_ok (cl\<lparr>tc_dead_client := b\<rparr>) c p = pcb_ok cl c p" "socks_ok (cl\<lparr>tc_dead_client := b\<rparr>) sk = socks_ok cl sk"
  "recv_ok (cl\<lparr>tc_dead_client := b\<rparr>) = recv_ok cl" "sides_ok (cl\<lparr>tc_dead_client := b\<rparr>) = sides_ok cl"
  "log_ok (cl\<lparr>tc_dead_client := b\<rparr>) l = log_ok cl l"
  by (simp_all add: pcb_ok_def socks_ok_def recv_ok_def sides_ok_def log_ok_def cong: option.case_cong)

lemma set_dead_inv:
  assumes inv: "tun_inv fr s" and cl: "tun_clients s c = Some cl" "\<not> tc_client_closed cl"
    and fr: "fr = None \<or> fr = Some c" "fr' = (if b then Some c else None)" "b \<longrightarrow> \<not> d"
  shows "tun_inv fr' (set_dead c cl b d s)" (is "tun_inv fr' ?s")
proof -
  have "{x. tun_clients ?s x \<noteq> None} = {x. tun_clients s x \<noteq> None}" using cl by (auto simp: set_dead_def)
  then have "\<exists>cs. l1_rep (tun_tcp_clients ?s) cs \<and> set cs = {c. tun_clients ?s c \<noteq> None} \<and> tun_num_clients ?s = int (length cs)"
    using inv by (simp add: tun_inv_def) (simp add: set_dead_def)
  moreover have "client_ok fr' ?s x" for x
    using tun_inv_client [OF inv, of x] cl fr by (cases "x = c") (auto simp: client_ok_def set_dead_def split: option.splits)
  moreover have "pcb_owned ?s p" for p
    unfolding pcb_owned_def
  proof (intro allI impI)
    fix pcb assume "tun_pcbs ?s p = Some pcb"
    then obtain x xl where x: "pcb_arg pcb = Some x" "tun_clients s x = Some xl" "tc_pcb xl = p" "\<not> tc_client_closed xl"
      using tun_inv_owned [OF inv, of p] by (auto simp: pcb_owned_def set_dead_def)
    then show "\<exists>c cl. pcb_arg pcb = Some c \<and> tun_clients ?s c = Some cl \<and> tc_pcb cl = p \<and> \<not> tc_client_closed cl"
      using cl by (cases "x = c") (simp_all add: set_dead_def)
  qed
  ultimately show ?thesis using fr cl by (simp add: tun_inv_def) (simp add: set_dead_def client_open_def)
qed

lemma tun_inv_enter:
  assumes inv: "tun_inv None s" and cl: "client_open s c"
  shows "wp (DEAD_ENTER c s) (tun_next (Some c) s)"
proof -
  obtain cl where cl: "tun_clients s c = Some cl" "\<not> tc_client_closed cl" using cl by (auto simp: client_open_def)
  then have "\<not> tc_dead_client cl" using tun_inv_client [OF inv, of c] by (simp add: client_ok_def)
  then have "DEAD_ENTER c s = Some (set_dead c cl True False s)" using cl by (simp add: DEAD_ENTER_def set_client_def set_dead_def)
  then show ?thesis using set_dead_inv [OF inv cl, of "Some c" True False] by (simp add: wp_Some) (simp add: tun_next_refl set_dead_def)
qed

lemma tun_inv_leave:
  assumes inv: "tun_inv (Some c) s"
  shows "wp (DEAD_LEAVE2 c s) (\<lambda>s'. tun_next None s s' \<and> (tun_dead s' \<longleftrightarrow> \<not> client_open s' c))"
proof (cases "tun_dead s")
  case True
  then have no: "\<not> client_open s c" using inv by (simp add: tun_inv_def)
  have "client_ok None s x" for x
    using tun_inv_client [OF inv, of x] no by (cases "x = c") (auto simp: client_ok_def client_open_def split: option.splits)
  then have "tun_inv None s" using inv by (simp add: tun_inv_def)
  then show ?thesis using True no by (simp add: DEAD_LEAVE2_def wp_Some tun_next_refl)
next
  case False
  then obtain cl where cl: "tun_clients s c = Some cl" "\<not> tc_client_closed cl" using inv by (auto simp: tun_inv_def client_open_def)
  have "DEAD_LEAVE2 c s = Some (set_dead c cl False False s)" using cl False by (simp add: DEAD_LEAVE2_def set_client_def set_dead_def)
  then show ?thesis using set_dead_inv [OF inv cl, of None False False] cl by (simp add: wp_Some) (simp add: tun_next_refl set_dead_def client_open_def)
qed

lemma guarded_sync_inv:
  assumes "tun_inv None s" "client_open s c"
  shows "wp (guarded_sync es c s) (\<lambda>(s', killed). tun_next None s s' \<and> (killed \<longleftrightarrow> \<not> client_open s' c))"
proof -
  obtain s1 where s1: "DEAD_ENTER c s = Some s1" "tun_next (Some c) s s1" using tun_inv_enter [OF assms] by (auto simp: wp_iff)
  obtain s2 where s2: "sync_commit es s1 = Some s2" "tun_next (Some c) s1 s2"
    using sync_commit_inv [OF tun_nextD [OF s1(2)], of es] by (auto simp: wp_iff)
  obtain s3 where s3: "DEAD_LEAVE2 c s2 = Some s3" "tun_next None s2 s3" "tun_dead s3 \<longleftrightarrow> \<not> client_open s3 c"
    using tun_inv_leave [OF tun_nextD [OF s2(2)]] by (auto simp: wp_iff)
  show ?thesis
    using s1 s2 s3 tun_next_trans [OF s1(2) tun_next_trans [OF s2(2) s3(2)]] by (simp add: guarded_sync_def wp_simps)
qed

end
