(* ===== verification/Tcp_Client_Run.thy ===== *)
theory Tcp_Client_Run
  imports Tcp_Client_Safe
begin

text \<open>
  The callbacks of lwIP and whole runs of the TCP clients of tun2socks/tun2socks.c: every
  event that can happen in a reachable state is handled without a failed assertion or an access to
  released memory, the two byte streams of a client lose and reorder nothing, and clients are
  released.
\<close>

section \<open>Closing a client\<close>

lemma same_client_refl [simp]: "same_client cl cl"
  by (simp add: same_client_def)

lemma handle_freed_closed:
  assumes ok: "client_ok fr s c" and s: "tun_clients s c = Some cl" "\<not> tc_client_closed cl" "tun_num_clients s > 0"
  shows "wp (client_handle_freed_client la c (s\<lparr>tun_pcbs := (tun_pcbs s)(tc_pcb cl := None)\<rparr>))
    (\<lambda>s'. client_good fr c s s' \<and> \<not> client_open s' c)"
  using freed_written_good [OF ok s same_client_refl client_okD(4,1) [OF ok s(1)], of la] by (simp add: client_written_same [OF s(1)])

lemma free_client_good:
  assumes ok: "client_ok fr s c" and s: "tun_clients s c = Some cl" "\<not> tc_client_closed cl" "tun_num_clients s > 0"
  shows "wp (client_free_client la c s) (\<lambda>s'. client_good fr c s s' \<and> \<not> client_open s' c)"
  using free_written_good [OF ok s same_client_refl client_okD(4,1) [OF ok s(1)], of la] by (simp add: client_written_same [OF s(1)])

lemma murder_good:
  assumes ok: "client_ok fr s c" and s: "tun_clients s c = Some cl" "tun_num_clients s > 0"
  shows "wp (client_murder c s) (\<lambda>s'. client_good fr c s s' \<and> tun_clients s' = (tun_clients s)(c := None))"
proof -
  have eq: "client_murder c s = Some (gone c (if tc_client_closed cl then s
       else s\<lparr>tun_pcbs := (tun_pcbs s)(tc_pcb cl := None), tun_dead := tun_dead s \<or> tc_dead_client cl\<rparr>))"
    by (rule murder_eq [OF s client_ok_socks [OF ok s(1)]]) (use client_ok_pcb [OF ok s(1)] in blast)
  show ?thesis using s unfolding eq
    by (auto simp: wp_Some client_good_def client_step_def client_open_def gone_def client_ok_def)
qed

section \<open>The callbacks of lwIP\<close>

text \<open>A callback answers ERR\_ABRT exactly if the connection is gone.\<close>

definition callback_done :: "addr \<Rightarrow> tun \<Rightarrow> tun \<Rightarrow> int \<Rightarrow> bool" where
  "callback_done c s s' err \<longleftrightarrow> tun_next None s s' \<and> (err = ERR_ABRT \<longleftrightarrow> \<not> client_open s' c)"

lemma err_distinct [simp]: "ERR_OK \<noteq> ERR_ABRT" "ERR_MEM \<noteq> ERR_ABRT" "ERR_OK \<noteq> ERR_MEM" "ERR_ABRT \<noteq> ERR_OK" "ERR_ABRT \<noteq> ERR_MEM"
    "ERR_MEM \<noteq> ERR_OK"
  by (simp_all add: ERR_OK_def ERR_ABRT_def ERR_MEM_def)

lemma guarded_sync_done:
  assumes "tun_inv None s" "client_good None c s s1" "client_open s1 c"
  shows "wp (guarded_sync es c s1) (\<lambda>(s', killed). callback_done c s s' (if killed then ERR_ABRT else ERR_OK))"
proof -
  have n: "tun_next None s s1" by (rule client_good_next [OF assms(1,2)])
  show ?thesis
    by (rule wp_mono [OF guarded_sync_inv [OF tun_nextD [OF n] assms(3)]])
      (auto simp: callback_done_def intro: tun_next_trans [OF n])
qed

lemma client_recv_done:
  assumes inv: "tun_inv None s" and s: "tun_clients s c = Some cl" "\<not> tc_client_closed cl" "\<not> tc_socks_closed cl" and p: "p \<noteq> Some []"
  shows "wp (client_recv_func la es c p s) (\<lambda>(s', err, freed). callback_done c s s' err \<and> (freed \<longleftrightarrow> err = ERR_OK))"
proof (cases p)
  case None
  have "wp (client_free_client la c s) (\<lambda>s'. client_good None c s s' \<and> \<not> client_open s' c)"
    by (rule free_client_good [OF tun_inv_client [OF inv] s(1,2) tun_inv_num [OF inv s(1)]])
  then show ?thesis using None s
    by (auto simp: client_recv_func_def wp_simps callback_done_def elim!: wp_mono intro: client_good_next [OF inv])
next
  case (Some data)
  note ok = tun_inv_client [OF inv, of c]
  note okD = client_okD [OF ok s(1)]
  define cl1 where "cl1 = tc_buf_update (\<lambda>b. b @ data) cl"
  define l1 where "l1 = (tun_log s c)\<lparr>lg_given := lg_given (tun_log s c) @ data\<rparr>"
  obtain sk where sk: "tun_socks s c = Some sk" using client_ok_socks [OF ok s(1)] s(3) by blast
  let ?s1 = "client_written c cl1 (tun_socks s c) l1 s"
  have same: "tc_pcb cl1 = tc_pcb cl" "tc_client_closed cl1 = tc_client_closed cl" "tc_dead_client cl1 = tc_dead_client cl"
    "tc_socks_closed cl1 = tc_socks_closed cl" "tc_socks_up cl1 = tc_socks_up cl" by (simp_all add: cl1_def)
  have parts: "recv_ok cl1" "sides_ok cl1" using okD(2,3) s(2) by (simp_all add: cl1_def recv_ok_def sides_ok_def)
  define sx where "sx = client_written c cl1 (tun_socks s c) (tun_log s c) s"
  have set1: "set_client c (tc_buf_update (\<lambda>b. b @ data)) s = Some sx" "set_log c (\<lambda>l. l\<lparr>lg_given := lg_given l @ data\<rparr>) sx = ?s1"
    using s(1) by (cases s, simp add: set_client_def client_written_def cl1_def sx_def) (simp add: sx_def client_written_set l1_def)
  consider (full) "length data > TCP_WND - length (tc_buf cl)"
    | (start) "length data \<le> TCP_WND - length (tc_buf cl)" "tc_buf cl = []" "tc_socks_up cl"
    | (queued) "length data \<le> TCP_WND - length (tc_buf cl)" "\<not> (tc_buf cl = [] \<and> tc_socks_up cl)"
    by force
  then show ?thesis
  proof cases
    case full
    then show ?thesis using Some s p inv
      by (auto simp: client_recv_func_def wp_simps callback_done_def client_open_def intro: tun_next_refl)
  next
    case start
    define sk1 where "sk1 = sk\<lparr>sk_sending := Some data\<rparr>"
    let ?s2 = "client_written c cl1 (Some sk1) l1 s"
    have ne: "data \<noteq> []" using p Some by simp
    have sk_init: "sk_up sk" "sk_send_init sk" "sk_recv_init sk" "sk_sending sk = None"
      using okD(1) sk start(2,3) by (auto simp: socks_ok_def split: option.splits)
    have l: "log_ok cl1 l1" using okD(4) start(1) s(2) by (auto simp: log_ok_def cl1_def l1_def)
    have "socks_ok cl1 (Some sk1)" using okD(1) sk start p Some by (auto simp: socks_ok_def cl1_def sk1_def split: option.splits)
    then have good: "client_good None c s ?s2" by (rule client_written_good [OF ok s(1) same _ parts l])
    have "client_send_to_socks c ?s1 = Some ?s2"
      using start(2,3) s sk sk_init ne
      by (cases s) (simp add: client_send_to_socks_def socks_Send_def set_socks_def client_written_def cl1_def sk1_def)
    then have "client_recv_func la es c p s = guarded_sync es c ?s2 \<bind>
        (\<lambda>(s, killed). Some (if killed then (s, ERR_ABRT, False) else (s, ERR_OK, True)))"
      using Some s start p set1 by (simp add: client_recv_func_def)
    moreover have "client_open ?s2 c" using s(2) same(2) by (simp add: client_open_def)
    ultimately show ?thesis
      using guarded_sync_done [OF inv good, of es] by (auto simp: wp_bind wp_Some elim!: wp_mono)
  next
    case queued
    have l: "log_ok cl1 l1" using okD(4) queued(1) s(2) by (auto simp: log_ok_def cl1_def l1_def)
    have "socks_ok cl1 (tun_socks s c)" using okD(1) sk queued(2)
      by (cases "tc_socks_up cl"; cases "sk_sending sk"; cases "sk_receiving sk") (simp_all add: socks_ok_def cl1_def)
    then have good: "client_good None c s ?s1" by (rule client_written_good [OF ok s(1) same _ parts l])
    have "client_recv_func la es c p s = Some (?s1, ERR_OK, True)"
      using Some s queued p set1 by (auto simp: client_recv_func_def Let_def)
    then show ?thesis using client_good_next [OF inv good] s(2) same(2) by (simp add: wp_Some callback_done_def client_open_def)
  qed
qed

lemma sent_rest_done:
  assumes inv: "tun_inv None s" and s: "tun_clients s c = Some cl" "\<not> tc_client_closed cl" "tc_socks_up cl"
    and cl': "same_client cl cl'" "log_ok cl' l" "recv_ok cl'" "tc_socks_recv_tcp_pending cl' > 0"
    and sk: "socks_ok (cl\<lparr>tc_socks_recv_buf_used := 0\<rparr>) sk" and s1: "s1 = client_written c cl' sk l s"
  shows "wp (if tc_socks_recv_buf_used cl' = -1 \<and> \<not> tc_socks_closed cl' then do {
      s \<leftarrow> client_socks_recv_initiate c s1;
      (s, killed) \<leftarrow> guarded_sync es c s;
      Some (s, if killed then ERR_ABRT else ERR_OK) } else Some (s1, ERR_OK)) (\<lambda>(s', err). callback_done c s s' err)"
proof -
  note good = recv_initiate_good [OF tun_inv_client [OF inv] s cl' sk]
  show ?thesis
  proof (cases "tc_socks_recv_buf_used cl' = -1 \<and> \<not> tc_socks_closed cl'")
    case True
    then obtain s2 where s2: "client_socks_recv_initiate c s1 = Some s2" "client_good None c s s2" "client_open s2 c"
      using good by (auto simp: s1 wp_iff)
    show ?thesis using True s2(1) guarded_sync_done [OF inv s2(2,3), of es] by (auto simp: wp_bind wp_Some elim!: wp_mono)
  next
    case False
    have "client_good None c s s1 \<and> client_open s1 c" using good unfolding if_not_P [OF False] wp_Some s1 .
    then show ?thesis using client_good_next [OF inv] unfolding if_not_P [OF False] wp_Some by (auto simp: callback_done_def)
  qed
qed

lemma client_sent_done:
  assumes inv: "tun_inv None s" and s: "tun_clients s c = Some cl" "\<not> tc_client_closed cl" "tc_socks_up cl"
    and n: "0 < n" "lg_acked (tun_log s c) + n \<le> length (lg_written (tun_log s c))"
  shows "wp (client_sent_func la es c n (set_log c (\<lambda>l. l\<lparr>lg_acked := lg_acked l + n\<rparr>) s)) (\<lambda>(s', err). callback_done c s s' err)"
proof -
  note ok = tun_inv_client [OF inv, of c]
  note okD = client_okD [OF ok s(1)]
  note num = tun_inv_num [OF inv s(1)]
  define cl1 where "cl1 = cl\<lparr>tc_socks_recv_tcp_pending := tc_socks_recv_tcp_pending cl - int n\<rparr>"
  define l1 where "l1 = (tun_log s c)\<lparr>lg_acked := lg_acked (tun_log s c) + n\<rparr>"
  let ?s1 = "client_written c cl1 (tun_socks s c) l1 s"
  have same: "same_client cl cl1" by (simp add: same_client_def cl1_def)
  have pend: "int n \<le> tc_socks_recv_tcp_pending cl" using okD(4) s n by (simp add: log_ok_def)
  have l: "log_ok cl1 l1" using okD(4) s n by (auto simp: log_ok_def cl1_def l1_def)
  have sk: "socks_ok cl1 (tun_socks s c)" using okD(1) by (auto simp: socks_ok_def cl1_def split: option.splits)
  define sx where "sx = client_written c cl (tun_socks s c) l1 s"
  have sx: "set_log c (\<lambda>l. l\<lparr>lg_acked := lg_acked l + n\<rparr>) s = sx" "tun_clients sx c = Some cl"
    using s(1) by (cases s, simp add: set_log_def sx_def client_written_def l1_def map_upd_triv) (simp add: sx_def)
  have set1: "set_client c (\<lambda>cl. cl\<lparr>tc_socks_recv_tcp_pending := tc_socks_recv_tcp_pending cl - int n\<rparr>) sx = Some ?s1"
    by (simp add: sx_def client_written_set cl1_def)
  show ?thesis
  proof (cases "tc_socks_recv_buf_used cl > 0")
    case True
    define cl2 where "cl2 = cl1\<lparr>tc_socks_recv_waiting := False\<rparr>"
    have r: "0 \<le> tc_socks_recv_buf_sent cl" "tc_socks_recv_buf_sent cl < tc_socks_recv_buf_used cl"
      "tc_socks_recv_buf_used cl = int (length (tc_socks_recv_buf cl))" "tc_socks_recv_waiting cl"
      using okD(2) s True by (simp_all add: recv_ok_def)
    let ?s2 = "client_written c cl2 (tun_socks s c) l1 s"
    have out: "wp (client_socks_recv_send_out la c ?s2) (\<lambda>(s', up).
       if \<not> up then client_good None c s s' \<and> \<not> client_open s' c
       else \<exists>cl' l'. s' = client_written c cl' (tun_socks s c) l' s \<and> same_client cl cl' \<and> log_ok cl' l' \<and> recv_ok cl' \<and> tc_socks_recv_tcp_pending cl' > 0)"
      by (rule send_out_good [OF ok s(1,2) num s(3)])
        (use r same l sk in \<open>auto simp: cl2_def cl1_def same_client_def log_ok_def socks_ok_def split: option.splits\<close>)
    define K where "K = (\<lambda>(s, up). if \<not> up then Some (s, ERR_ABRT)
         else do {
           cl \<leftarrow> tun_clients s c;
           ASSERT (tc_socks_recv_tcp_pending cl > 0);
           if tc_socks_recv_buf_used cl = -1 \<and> \<not> tc_socks_closed cl then do {
             s \<leftarrow> client_socks_recv_initiate c s;
             (s, killed) \<leftarrow> guarded_sync es c s;
             Some (s, if killed then ERR_ABRT else ERR_OK)
           } else Some (s, ERR_OK)
         })"
    have eq: "client_sent_func la es c n sx = client_socks_recv_send_out la c ?s2 \<bind> K"
      using s n pend r True sx(2) set1 by (simp add: client_sent_func_def client_written_set cl2_def K_def)
    have sk0: "socks_ok (cl\<lparr>tc_socks_recv_buf_used := 0\<rparr>) (tun_socks s c)"
      using okD(1) True by (auto simp: socks_ok_def split: option.splits)
    have rest: "wp (K (client_written c cl' (tun_socks s c) l' s, True)) (\<lambda>(s', err). callback_done c s s' err)"
      if cl': "same_client cl cl'" "log_ok cl' l'" "recv_ok cl'" "tc_socks_recv_tcp_pending cl' > 0" for cl' l'
      using sent_rest_done [OF inv s(1,2,3) cl' sk0 refl, of es] cl'(4) by (simp add: K_def split: if_splits)
    show ?thesis unfolding sx(1) eq wp_bind
    proof (rule wp_mono [OF out], clarify)
      fix s' up
      assume up: "if \<not> up then client_good None c s s' \<and> \<not> client_open s' c else \<exists>cl' l'. s' = client_written c cl' (tun_socks s c) l' s \<and>
        same_client cl cl' \<and> log_ok cl' l' \<and> recv_ok cl' \<and> tc_socks_recv_tcp_pending cl' > 0"
      show "wp (K (s', up)) (\<lambda>(s', err). callback_done c s s' err)"
        using up rest client_good_next [OF inv] by (cases up) (auto simp: K_def wp_Some callback_done_def)
    qed
  next
    case False
    then have used: "tc_socks_recv_buf_used cl = -1" using okD(2) s by (auto simp: recv_ok_def)
    show ?thesis
    proof (cases "tc_socks_closed cl \<and> tc_socks_recv_tcp_pending cl - int n = 0")
      case True
      then show ?thesis
        using free_written_good [OF ok s(1,2) num same l sk, of la] s n pend used sx set1 client_good_next [OF inv]
        by (simp add: client_sent_func_def wp_simps) (auto simp: callback_done_def elim!: wp_mono)
    next
      case False
      have "recv_ok cl1" "sides_ok cl1" using okD(2,3) s False pend used by (auto simp: recv_ok_def sides_ok_def cl1_def)
      then have "client_good None c s ?s1"
        using client_written_good [OF ok s(1) same_clientD(1-5) [OF same] sk _ _ l] by simp
      then show ?thesis using False s n pend used sx set1 client_good_next [OF inv]
        by (auto simp: client_sent_func_def wp_simps callback_done_def client_open_def cl1_def)
    qed
  qed
qed

section \<open>A new client\<close>

text \<open>The state between the set-up of a new client and SYNC\_COMMIT.\<close>

lemma accept_setup_inv:
  assumes inv: "tun_inv None s" and new: "tun_clients s c = None" "tun_pcbs s p = None"
    and s0: "s0 = s\<lparr>tun_pcbs := (tun_pcbs s)(p \<mapsto> fresh_pcb), tun_auth_username := u, tun_clients := (tun_clients s)(c \<mapsto> cl),
      tun_socks := (tun_socks s)(c \<mapsto> fresh_socks)\<rparr>"
  shows "wp (accept_setup c p s0) (\<lambda>s'. tun_inv None s' \<and> client_open s' c \<and>
    (\<forall>q pcb. tun_pcbs s' q = Some pcb \<longrightarrow> (if q = p then pcb_arg pcb = Some c else tun_pcbs s q = Some pcb)))"
proof -
  define cl1 where "cl1 = cl\<lparr>tc_dead_client := False, tc_pcb := p, tc_client_closed := False, tc_buf := [], tc_socks_up := False, tc_socks_closed := False\<rparr>"
  define s1 where "s1 = s\<lparr>tun_pcbs := (tun_pcbs s)(p \<mapsto> \<lparr>pcb_arg = Some c, pcb_errf = True, pcb_recv = True, pcb_sent = False\<rparr>),
    tun_auth_username := u, tun_clients := (tun_clients s)(c \<mapsto> cl1), tun_socks := (tun_socks s)(c \<mapsto> fresh_socks),
    tun_tcp_clients := LinkedList1_Append (tun_tcp_clients s) c, tun_num_clients := tun_num_clients s + 1,
    tun_log := (tun_log s)(c := fresh_log)\<rparr>"
  obtain cs where cs: "l1_rep (tun_tcp_clients s) cs" "set cs = {c. tun_clients s c \<noteq> None}" "tun_num_clients s = int (length cs)"
    using inv by (auto simp: tun_inv_def)
  have eq: "accept_setup c p s0 = Some s1"
    using cs(3) by (cases s) (simp add: accept_setup_def s0 s1_def cl1_def set_client_def tcp_arg_def tcp_err_def tcp_recv_def set_pcb_def set_log_def fresh_pcb_def)
  have "l1_rep (tun_tcp_clients s1) (cs @ [c])" using l1.rep_append [OF cs(1), of c] cs(2) new(1) by (simp add: s1_def)
  moreover have "set (cs @ [c]) = {c. tun_clients s1 c \<noteq> None}" using cs(2) by (auto simp: s1_def)
  moreover have "tun_num_clients s1 = int (length (cs @ [c]))" using cs(3) by (simp add: s1_def)
  ultimately have list: "\<exists>cs. l1_rep (tun_tcp_clients s1) cs \<and> set cs = {c. tun_clients s1 c \<noteq> None} \<and> tun_num_clients s1 = int (length cs)" by blast
  have "client_ok None s1 x" for x
  proof (cases "x = c")
    case True
    then show ?thesis
      by (simp add: client_ok_def s1_def cl1_def pcb_ok_def socks_ok_def recv_ok_def sides_ok_def log_ok_def fresh_socks_def fresh_log_def)
  next
    case False
    have "tc_pcb xl \<noteq> p" if "tun_clients s x = Some xl" "\<not> tc_client_closed xl" for xl
      using pcb_owner [OF inv that] new(2) by auto
    then show ?thesis using tun_inv_client [OF inv, of x] False
      by (auto simp: client_ok_def s1_def pcb_ok_def split: option.splits)
  qed
  moreover have "pcb_owned s1 q" for q
    unfolding pcb_owned_def
  proof (intro allI impI)
    fix pcb assume q: "tun_pcbs s1 q = Some pcb"
    show "\<exists>c cl. pcb_arg pcb = Some c \<and> tun_clients s1 c = Some cl \<and> tc_pcb cl = q \<and> \<not> tc_client_closed cl"
    proof (cases "q = p")
      case False
      then obtain x xl where x: "pcb_arg pcb = Some x" "tun_clients s x = Some xl" "tc_pcb xl = q" "\<not> tc_client_closed xl"
        using q tun_inv_owned [OF inv, of q] by (auto simp: pcb_owned_def s1_def)
      then show ?thesis using new(1) by (cases "x = c") (simp_all add: s1_def)
    qed (use q in \<open>auto simp: s1_def cl1_def\<close>)
  qed
  ultimately have "tun_inv None s1" using list by (simp add: tun_inv_def)
  then show ?thesis by (simp add: eq wp_Some) (auto simp: s1_def client_open_def cl1_def)
qed

lemma tun_inv_auth: "tun_inv fr (s\<lparr>tun_auth_username := u\<rparr>) = tun_inv fr s"
  by (simp add: tun_inv_def client_ok_def pcb_owned_def client_open_def cong: option.case_cong)

lemma baddr_ip_print: "baddr_ip a \<Longrightarrow> \<exists>t. BAddr_Print a = Some t"
  by (cases a) auto

text \<open>\<open>p\<close> is a connection of client \<open>c\<close> as long as either lives.\<close>

lemma pcb_gone_iff:
  assumes inv: "tun_inv None s'" and arg: "\<And>pcb. tun_pcbs s' p = Some pcb \<Longrightarrow> pcb_arg pcb = Some c"
    and own: "\<And>q pcb. tun_pcbs s' q = Some pcb \<Longrightarrow> pcb_arg pcb = Some c \<Longrightarrow> q = p"
  shows "tun_pcbs s' p = None \<longleftrightarrow> \<not> client_open s' c"
proof
  assume "tun_pcbs s' p = None"
  then show "\<not> client_open s' c" using pcb_owner [OF inv] own by (fastforce simp: client_open_def)
next
  assume no: "\<not> client_open s' c"
  show "tun_pcbs s' p = None"
  proof (rule ccontr)
    assume "tun_pcbs s' p \<noteq> None"
    then obtain pcb where pcb: "tun_pcbs s' p = Some pcb" by blast
    then show False using arg no tun_inv_owned [OF inv, of p] by (fastforce simp: pcb_owned_def client_open_def)
  qed
qed

lemma callback_gone:
  assumes inv: "tun_inv None s" and cl: "tun_clients s c = Some cl" "\<not> tc_client_closed cl" and cb: "callback_done c s s' err"
  shows "tun_pcbs s' (tc_pcb cl) = None \<longleftrightarrow> err = ERR_ABRT"
proof -
  have n: "tun_inv None s'" "pcbs_from s s'" "err = ERR_ABRT \<longleftrightarrow> \<not> client_open s' c" using cb by (auto simp: callback_done_def tun_next_def)
  have own: "q = tc_pcb cl" if "tun_pcbs s q = Some pcb" "pcb_arg pcb = Some c" for q pcb
    using tun_inv_owned [OF inv, of q] that cl by (fastforce simp: pcb_owned_def)
  have "tun_pcbs s' (tc_pcb cl) = None \<longleftrightarrow> \<not> client_open s' c"
  proof (rule pcb_gone_iff [OF n(1)])
    show "pcb_arg pcb = Some c" if "tun_pcbs s' (tc_pcb cl) = Some pcb" for pcb
      using n(2) that pcb_owner [OF inv cl] by (fastforce simp: pcbs_from_def)
    show "q = tc_pcb cl" if "tun_pcbs s' q = Some pcb" "pcb_arg pcb = Some c" for q pcb
      using n(2) that own unfolding pcbs_from_def by metis
  qed
  then show ?thesis using n(3) by simp
qed

text \<open>The three ways through listener\_accept\_func once the client is allocated.\<close>

lemma accept_cases:
  assumes c: "aa_alloc aa = Some c" "tun_clients s c = None" and ip: "baddr_ip l" "baddr_ip r"
  obtains "listener_accept_func aa es p l r s = Some (s, ERR_MEM)"
  | u where "listener_accept_func aa es p l r s = Some (s\<lparr>tun_auth_username := u\<rparr>, ERR_MEM)"
  | u cl where "listener_accept_func aa es p l r s =
      accept_setup c p (s\<lparr>tun_auth_username := u, tun_clients := (tun_clients s)(c \<mapsto> cl), tun_socks := (tun_socks s)(c \<mapsto> fresh_socks)\<rparr>) \<bind>
        (\<lambda>s. guarded_sync es c s \<bind> (\<lambda>(s, killed). Some (s, if killed then ERR_ABRT else ERR_OK)))"
proof -
  obtain lt rt where print: "BAddr_Print l = Some lt" "BAddr_Print r = Some rt" using baddr_ip_print ip by fastforce
  define name where "name = (case opt_username s of Some u \<Rightarrow> if opt_append_source s then Some (u @ ''@'' @ rt) else None | None \<Rightarrow> None)"
  define cl where "cl = (aa_junk aa)\<lparr>tc_socks_username := None, tc_local_addr := l, tc_remote_addr := r\<rparr>"
  define u where "u = (if name = None then tun_auth_username s else Username_of c)"
  define cl1 where "cl1 = (if name = None then cl else cl\<lparr>tc_socks_username := name\<rparr>)"
  have undo: "(tun_clients s)(c := None) = tun_clients s" using c(2) by (simp add: fun_upd_idem)
  have "listener_accept_func aa es p l r s =
    (if name \<noteq> None \<and> \<not> aa_user_ok aa then Some (s, ERR_MEM)
     else if \<not> aa_socks_ok aa then Some (s\<lparr>tun_auth_username := u\<rparr>, ERR_MEM)
     else accept_setup c p (s\<lparr>tun_auth_username := u, tun_clients := (tun_clients s)(c \<mapsto> cl1), tun_socks := (tun_socks s)(c \<mapsto> fresh_socks)\<rparr>) \<bind>
        (\<lambda>s. guarded_sync es c s \<bind> (\<lambda>(s, killed). Some (s, if killed then ERR_ABRT else ERR_OK))))"
    using c print undo unfolding listener_accept_func_def cl1_def u_def name_def
    by (cases s) (auto simp: set_client_def cl_def Let_def split: option.splits)
  then show ?thesis using that by metis
qed

lemma accepted_done:
  assumes inv: "tun_inv None s" and c: "tun_clients s c = None" and new: "tun_pcbs s p = None"
    and s0: "s0 = s\<lparr>tun_pcbs := (tun_pcbs s)(p \<mapsto> fresh_pcb), tun_auth_username := u, tun_clients := (tun_clients s)(c \<mapsto> cl),
      tun_socks := (tun_socks s)(c \<mapsto> fresh_socks)\<rparr>"
  obtains s2 killed where "accept_setup c p s0 \<bind> guarded_sync es c = Some (s2, killed)" "tun_inv None s2" "tun_pcbs s2 p = None \<longleftrightarrow> killed"
proof -
  obtain s1 where s1: "accept_setup c p s0 = Some s1" "tun_inv None s1" "client_open s1 c"
      "\<And>q pcb. tun_pcbs s1 q = Some pcb \<Longrightarrow> (if q = p then pcb_arg pcb = Some c else tun_pcbs s q = Some pcb)"
    using accept_setup_inv [OF inv c new s0] by (auto simp: wp_iff)
  obtain s2 killed where s2: "guarded_sync es c s1 = Some (s2, killed)" "tun_next None s1 s2" "killed \<longleftrightarrow> \<not> client_open s2 c"
    using guarded_sync_inv [OF s1(2,3), of es] by (auto simp: wp_iff)
  have "tun_pcbs s2 p = None \<longleftrightarrow> \<not> client_open s2 c"
  proof (rule pcb_gone_iff [OF tun_nextD [OF s2(2)]])
    have old: "\<exists>pcb0. tun_pcbs s1 q = Some pcb0 \<and> pcb_arg pcb0 = pcb_arg pcb" if "tun_pcbs s2 q = Some pcb" for q pcb
      using s2(2) that by (auto simp: tun_next_def pcbs_from_def)
    show "pcb_arg pcb = Some c" if "tun_pcbs s2 p = Some pcb" for pcb using old [OF that] s1(4) by fastforce
    show "q = p" if q: "tun_pcbs s2 q = Some pcb" "pcb_arg pcb = Some c" for q pcb
    proof (rule ccontr)
      assume "q \<noteq> p"
      then obtain pcb0 where "tun_pcbs s q = Some pcb0" "pcb_arg pcb0 = Some c" using old [OF q(1)] s1(4) q(2) by fastforce
      then show False using tun_inv_owned [OF inv, of q] c by (fastforce simp: pcb_owned_def)
    qed
  qed
  then show ?thesis using that [of s2 killed] s1(1) s2(1,3) tun_nextD [OF s2(2)] by simp
qed

lemma accept_done:
  assumes inv: "tun_inv None s" and en: "tun_enabled s (Tun_Accept aa es p l r)"
  shows "wp (tun_step (Tun_Accept aa es p l r) s) (\<lambda>(s', err, freed). tun_inv None s' \<and> (tun_pcbs s' p = None \<longleftrightarrow> err \<noteq> ERR_OK))"
proof -
  let ?s = "s\<lparr>tun_pcbs := (tun_pcbs s)(p \<mapsto> fresh_pcb)\<rparr>"
  have new: "tun_pcbs s p = None" "\<And>c. aa_alloc aa = Some c \<Longrightarrow> tun_clients s c = None" using en by auto
  have fail: "tcp_abort p (?s\<lparr>tun_auth_username := u\<rparr>) = Some (s\<lparr>tun_auth_username := u\<rparr>)" "tcp_abort p ?s = Some s" for u
    using new(1) by (cases s, simp add: tcp_abort_def fun_upd_idem)+
  have eq: "tun_step (Tun_Accept aa es p l r) s = listener_accept_func aa es p l r ?s \<bind>
      (\<lambda>(s, err). (if err = ERR_MEM then tcp_abort p s else Some s) \<bind> (\<lambda>s. Some (s, err, False)))"
    by (simp add: Let_def)
  have mem: ?thesis if "listener_accept_func aa es p l r ?s = Some (s1, ERR_MEM)" "tcp_abort p s1 = Some s2" "tun_inv None s2" "tun_pcbs s2 p = None" for s1 s2
    using that(3,4) unfolding eq that(1) by (simp add: that(2) wp_simps)
  show ?thesis
  proof (cases "aa_alloc aa")
    case None
    then have "listener_accept_func aa es p l r ?s = Some (?s, ERR_MEM)" by (simp add: listener_accept_func_def)
    then show ?thesis using mem fail(2) inv new(1) by blast
  next
    case (Some c)
    have c: "tun_clients ?s c = None" using new(2) Some by simp
    show ?thesis
    proof (rule accept_cases [OF Some c, of l r es p])
      show "baddr_ip l" "baddr_ip r" using en by auto
    next
      assume "listener_accept_func aa es p l r ?s = Some (?s, ERR_MEM)"
      then show ?thesis using mem fail(2) inv new(1) by blast
    next
      fix u assume "listener_accept_func aa es p l r ?s = Some (?s\<lparr>tun_auth_username := u\<rparr>, ERR_MEM)"
      then show ?thesis by (rule mem [OF _ fail(1)]) (use inv new(1) in \<open>simp_all add: tun_inv_auth\<close>)
    next
      fix u cl
      define s0 where "s0 = ?s\<lparr>tun_auth_username := u, tun_clients := (tun_clients ?s)(c \<mapsto> cl), tun_socks := (tun_socks ?s)(c \<mapsto> fresh_socks)\<rparr>"
      assume f: "listener_accept_func aa es p l r ?s =
        accept_setup c p (?s\<lparr>tun_auth_username := u, tun_clients := (tun_clients ?s)(c \<mapsto> cl), tun_socks := (tun_socks ?s)(c \<mapsto> fresh_socks)\<rparr>) \<bind>
          (\<lambda>s. guarded_sync es c s \<bind> (\<lambda>(s, killed). Some (s, if killed then ERR_ABRT else ERR_OK)))"
      obtain s2 killed where s2: "accept_setup c p s0 \<bind> guarded_sync es c = Some (s2, killed)" "tun_inv None s2" "tun_pcbs s2 p = None \<longleftrightarrow> killed"
        by (rule accepted_done [OF inv new(2) [OF Some] new(1), where ?s0.0 = s0 and u = u and cl = cl and es = es]) (simp add: s0_def)
      have "listener_accept_func aa es p l r ?s = accept_setup c p s0 \<bind> guarded_sync es c \<bind> (\<lambda>(s, killed). Some (s, if killed then ERR_ABRT else ERR_OK))"
        unfolding f s0_def by (simp add: Option.bind_assoc)
      then show ?thesis using s2(2,3) unfolding eq by (simp add: s2(1) wp_simps)
    qed
  qed
qed

section \<open>Runs\<close>

text \<open>What lwIP learns from the answer to a callback about the connection and about the pbuf it passed.\<close>

fun answered :: "tun_event \<Rightarrow> tun \<Rightarrow> int \<Rightarrow> bool \<Rightarrow> bool" where
  "answered (Tun_Accept aa es p l r) s err freed \<longleftrightarrow> (tun_pcbs s p = None \<longleftrightarrow> err \<noteq> ERR_OK)"
| "answered (Tun_Recv la es p data) s err freed \<longleftrightarrow> (tun_pcbs s p = None \<longleftrightarrow> err = ERR_ABRT) \<and> (freed \<longleftrightarrow> err = ERR_OK)"
| "answered (Tun_Sent la es p n) s err freed \<longleftrightarrow> (tun_pcbs s p = None \<longleftrightarrow> err = ERR_ABRT)"
| "answered e s err freed \<longleftrightarrow> True"

lemma tun_inv_pcb:
  assumes "tun_inv None s" "tun_pcbs s p = Some pcb"
  obtains c cl where "tun_clients s c = Some cl" "tc_pcb cl = p" "\<not> tc_client_closed cl" "pcb_arg pcb = Some c"
    "pcb = \<lparr>pcb_arg = Some c, pcb_errf = True, pcb_recv = (\<not> tc_socks_closed cl), pcb_sent = tc_socks_up cl\<rparr>"
proof -
  obtain c cl where cl: "pcb_arg pcb = Some c" "tun_clients s c = Some cl" "tc_pcb cl = p" "\<not> tc_client_closed cl"
    using tun_inv_owned [OF assms(1), of p] assms(2) by (auto simp: pcb_owned_def)
  show ?thesis using that [OF cl(2,3,4,1)] pcb_owner [OF assms(1) cl(2,4)] cl(3) assms(2) by simp
qed

lemma tun_step_done:
  assumes inv: "tun_inv None s" and en: "tun_enabled s e"
  shows "wp (tun_step e s) (\<lambda>(s', err, freed). tun_inv None s' \<and> answered e s' err freed)"
proof (cases e)
  case (Tun_Accept aa es p l r)
  then show ?thesis using accept_done [OF inv] en by auto
next
  case (Tun_Recv la es p d)
  then obtain pcb where pcb: "tun_pcbs s p = Some pcb" "pcb_recv pcb" "d \<noteq> Some []" using en by auto
  obtain c cl where cl: "tun_clients s c = Some cl" "tc_pcb cl = p" "\<not> tc_client_closed cl" "pcb_arg pcb = Some c"
    "pcb = \<lparr>pcb_arg = Some c, pcb_errf = True, pcb_recv = (\<not> tc_socks_closed cl), pcb_sent = tc_socks_up cl\<rparr>"
    by (rule tun_inv_pcb [OF inv pcb(1)])
  have open': "\<not> tc_socks_closed cl" using cl(5) pcb(2) by auto
  show ?thesis
    using client_recv_done [OF inv cl(1,3) open' pcb(3), of la es] callback_gone [OF inv cl(1,3)] cl(2,4) pcb(1) Tun_Recv
    by (auto simp: callback_done_def tun_next_def elim!: wp_mono)
next
  case (Tun_Sent la es p n)
  then obtain pcb where pcb: "tun_pcbs s p = Some pcb" "pcb_sent pcb" using en by auto
  obtain c cl where cl: "tun_clients s c = Some cl" "tc_pcb cl = p" "\<not> tc_client_closed cl" "pcb_arg pcb = Some c"
    "pcb = \<lparr>pcb_arg = Some c, pcb_errf = True, pcb_recv = (\<not> tc_socks_closed cl), pcb_sent = tc_socks_up cl\<rparr>"
    by (rule tun_inv_pcb [OF inv pcb(1)])
  have up: "tc_socks_up cl" "0 < n" "lg_acked (tun_log s c) + n \<le> length (lg_written (tun_log s c))"
    using cl(4,5) pcb en Tun_Sent by auto
  show ?thesis
    using client_sent_done [OF inv cl(1,3) up, of la es] callback_gone [OF inv cl(1,3)] cl(2,4) pcb(1) Tun_Sent
    by (auto simp: wp_simps callback_done_def tun_next_def Let_def elim!: wp_mono)
next
  case (Tun_Err la p)
  then obtain pcb where pcb: "tun_pcbs s p = Some pcb" using en by auto
  obtain c cl where cl: "tun_clients s c = Some cl" "tc_pcb cl = p" "\<not> tc_client_closed cl" "pcb_arg pcb = Some c"
    "pcb = \<lparr>pcb_arg = Some c, pcb_errf = True, pcb_recv = (\<not> tc_socks_closed cl), pcb_sent = tc_socks_up cl\<rparr>"
    by (rule tun_inv_pcb [OF inv pcb(1)])
  have "wp (client_handle_freed_client la c (s\<lparr>tun_pcbs := (tun_pcbs s)(p := None)\<rparr>)) (tun_inv None)"
    using handle_freed_closed [OF tun_inv_client [OF inv] cl(1,3) tun_inv_num [OF inv cl(1)], of la] cl(2) client_good_next [OF inv]
    by (auto simp: tun_next_def elim!: wp_mono)
  then show ?thesis using Tun_Err cl pcb by (simp add: tcp_abort_def client_err_func_def wp_simps)
next
  case (Tun_Socks la c ev)
  then show ?thesis using socks_step_inv [OF inv, of c ev la] en by (auto simp: wp_simps tun_next_def elim!: wp_mono)
next
  case (Tun_Murder c)
  then obtain cl where cl: "tun_clients s c = Some cl" using en by auto
  show ?thesis
    using murder_good [OF tun_inv_client [OF inv] cl tun_inv_num [OF inv cl]] client_good_next [OF inv] Tun_Murder
    by (auto simp: wp_simps tun_next_def elim!: wp_mono)
qed

lemma tun_start_inv: "tun_inv None (tun_start s)"
  using LinkedList1_Init_rep by (auto simp: tun_inv_def tun_start_def client_ok_def pcb_owned_def intro!: exI [of _ "[]"])

lemma reachable_inv: "tun_reachable s \<Longrightarrow> tun_inv None s"
proof (induction rule: tun_reachable.induct)
  case (step s e s' r)
  then show ?case using tun_step_done [OF step(4,2)] by (cases r) (auto simp: wp_iff)
qed (rule tun_start_inv)

lemma tun_inv_zero:
  assumes "tun_inv None s" "tun_num_clients s = 0"
  shows "tun_clients s c = None" "tun_socks s c = None" "tun_pcbs s p = None"
proof -
  have none: "tun_clients s x = None" for x using assms by (auto simp: tun_inv_def)
  then show "tun_clients s c = None" by simp
  show "tun_socks s c = None" using tun_inv_client [OF assms(1), of c] none by (simp add: client_ok_def)
  show "tun_pcbs s p = None" using tun_inv_owned [OF assms(1), of p] none by (cases "tun_pcbs s p") (auto simp: pcb_owned_def)
qed

lemma murder_all_done: "tun_inv None s \<Longrightarrow> wp (murder_all s) (\<lambda>s'. tun_inv None s' \<and> tun_num_clients s' = 0)"
proof (induction "nat (tun_num_clients s)" arbitrary: s)
  case 0
  obtain cs where cs: "l1_rep (tun_tcp_clients s) cs" "tun_num_clients s = int (length cs)" using 0(2) by (auto simp: tun_inv_def)
  then have "LinkedList1_GetFirst (tun_tcp_clients s) = None" using 0(1) LinkedList1_GetFirst_rep by fastforce
  then show ?case using 0 cs by (subst murder_all.simps) (simp add: wp_Some)
next
  case (Suc n)
  obtain cs where cs: "l1_rep (tun_tcp_clients s) cs" "set cs = {c. tun_clients s c \<noteq> None}" "tun_num_clients s = int (length cs)"
    using Suc(3) by (auto simp: tun_inv_def)
  obtain c cs' where c: "cs = c # cs'" using Suc(2) cs(3) by (cases cs) auto
  then obtain cl where cl: "tun_clients s c = Some cl" using cs(2) by auto
  have first: "LinkedList1_GetFirst (tun_tcp_clients s) = Some c" using LinkedList1_GetFirst_rep [OF cs(1)] c by simp
  obtain s1 where s1: "client_murder c s = Some s1" "client_good None c s s1" "tun_clients s1 = (tun_clients s)(c := None)"
    using murder_good [OF tun_inv_client [OF Suc(3)] cl tun_inv_num [OF Suc(3) cl]] by (auto simp: wp_iff)
  have inv: "tun_inv None s1" by (rule tun_nextD [OF client_good_next [OF Suc(3) s1(2)]])
  have "tun_num_clients s1 = tun_num_clients s - 1"
    using client_stepD(7) [of c s s1 cl] s1(2,3) cl by (simp add: client_good_def)
  then have "wp (murder_all s1) (\<lambda>s'. tun_inv None s' \<and> tun_num_clients s' = 0)" using Suc(1) [OF _ inv] Suc(2) by simp
  then show ?case by (subst murder_all.simps) (simp add: first s1(1))
qed

section \<open>Main results\<close>

text \<open>
  C1: No interleaving of the events of lwIP, of the SOCKS clients and of the shutdown makes a TCP client
  fail.  Whatever lwIP answers to tcp_close, tcp_write and tcp_output, whatever SOCKS events SYNC_COMMIT
  runs while a callback is under way, every handler returns: no assertion of the code is violated and no
  client, connection or SOCKS client is used after it was released.
\<close>

theorem tcp_clients_never_fail:
  assumes "tun_reachable s" "tun_enabled s e"
  shows "\<exists>r. tun_step e s = Some r"
  using tun_step_done [OF reachable_inv [OF assms(1)] assms(2)] by (auto simp: wp_iff)


text \<open>
  C2: The two streams of a client lose, duplicate and reorder nothing.  What lwIP gave is what the SOCKS client took
  followed by the contents of buf, which never exceeds TCP_WND; the window is reopened by exactly the bytes that were taken.
  What was written to lwIP is a prefix of what came from SOCKS, the rest is the unsent part of socks_recv_buf, and
  socks_recv_tcp_pending counts the bytes written and not yet acknowledged.
\<close>

theorem tcp_client_streams:
  assumes "tun_reachable s" "tun_clients s c = Some cl"
  shows "lg_given (tun_log s c) = lg_taken (tun_log s c) @ tc_buf cl \<and> length (tc_buf cl) \<le> TCP_WND \<and>
    prefix (lg_written (tun_log s c)) (lg_from_socks (tun_log s c)) \<and>
    (\<not> tc_client_closed cl \<longrightarrow> lg_recved (tun_log s c) = length (lg_taken (tun_log s c))) \<and>
    (\<not> tc_client_closed cl \<and> tc_socks_up cl \<longrightarrow>
       lg_from_socks (tun_log s c) = lg_written (tun_log s c) @
         (if tc_socks_recv_buf_used cl = -1 then [] else drop (nat (tc_socks_recv_buf_sent cl)) (tc_socks_recv_buf cl)) \<and>
       tc_socks_recv_tcp_pending cl = int (length (lg_written (tun_log s c))) - int (lg_acked (tun_log s c)))"
  using client_okD(4) [OF tun_inv_client [OF reachable_inv [OF assms(1)]] assms(2)] by (simp add: log_ok_def)

text \<open>
  C7: No client is forgotten.  tcp_clients lists the allocated clients without repetition and num_clients counts them.  A
  client has at least one open side; if only the SOCKS side is open then there is data left to send and the SOCKS client is
  either still connecting or sending it; if only the lwIP side is open then lwIP has data to
  acknowledge and the sent callback installed.
\<close>

theorem tcp_clients_not_forgotten:
  assumes "tun_reachable s"
  shows "(\<exists>cs. l1_rep (tun_tcp_clients s) cs \<and> set cs = {c. tun_clients s c \<noteq> None} \<and> tun_num_clients s = int (length cs)) \<and>
    (\<forall>c cl. tun_clients s c = Some cl \<and> tc_client_closed cl \<longrightarrow>
      (\<exists>sk. tun_socks s c = Some sk \<and> tc_buf cl \<noteq> [] \<and> (\<not> sk_up sk \<or> (\<exists>d. sk_sending sk = Some d \<and> d \<noteq> [])))) \<and>
    (\<forall>c cl. tun_clients s c = Some cl \<and> tc_socks_closed cl \<longrightarrow>
      (\<exists>pcb. tun_pcbs s (tc_pcb cl) = Some pcb \<and> pcb_arg pcb = Some c \<and> pcb_sent pcb \<and>
        lg_acked (tun_log s c) < length (lg_written (tun_log s c))))"
proof (intro conjI allI impI)
  note inv = reachable_inv [OF assms]
  show "\<exists>cs. l1_rep (tun_tcp_clients s) cs \<and> set cs = {c. tun_clients s c \<noteq> None} \<and> tun_num_clients s = int (length cs)"
    using inv by (simp add: tun_inv_def)
  fix c cl
  {
    assume cl: "tun_clients s c = Some cl \<and> tc_client_closed cl"
    show "\<exists>sk. tun_socks s c = Some sk \<and> tc_buf cl \<noteq> [] \<and> (\<not> sk_up sk \<or> (\<exists>d. sk_sending sk = Some d \<and> d \<noteq> []))"
      using client_okD(1,3) [OF tun_inv_client [OF inv], of c cl] cl by (auto simp: socks_ok_def sides_ok_def split: option.splits)
  next
    assume cl: "tun_clients s c = Some cl \<and> tc_socks_closed cl"
    note okD = client_okD [OF tun_inv_client [OF inv] conjunct1 [OF cl]]
    have "\<not> tc_client_closed cl" using okD(3) cl by (auto simp: sides_ok_def)
    then show "\<exists>pcb. tun_pcbs s (tc_pcb cl) = Some pcb \<and> pcb_arg pcb = Some c \<and> pcb_sent pcb \<and>
        lg_acked (tun_log s c) < length (lg_written (tun_log s c))"
      using okD(3,4) cl pcb_owner [OF inv conjunct1 [OF cl]] by (auto simp: sides_ok_def log_ok_def)
  }
qed

text \<open>
  C15: The buffer of a client is large enough.  As long as lwIP keeps to the window it has announced, that is, does
  not give more than TCP_WND bytes beyond those acknowledged with tcp_recved, the receive callback never refuses data.
\<close>

theorem recv_never_refuses:
  assumes "tun_reachable s" "tun_enabled s (Tun_Recv la es p (Some data))" "tun_pcbs s p = Some pcb" "pcb_arg pcb = Some c"
    and window: "length (lg_given (tun_log s c)) + length data \<le> lg_recved (tun_log s c) + TCP_WND"
    and step: "tun_step (Tun_Recv la es p (Some data)) s = Some (s', err, freed)"
  shows "err \<noteq> ERR_MEM"
proof -
  note inv = reachable_inv [OF assms(1)]
  obtain c' cl where cl: "tun_clients s c' = Some cl" "tc_pcb cl = p" "\<not> tc_client_closed cl" "pcb_arg pcb = Some c'"
    by (rule tun_inv_pcb [OF inv assms(3)])
  have cl: "tun_clients s c = Some cl" "\<not> tc_client_closed cl" using cl assms(4) by simp_all
  have "log_ok cl (tun_log s c)" by (rule client_okD(4) [OF tun_inv_client [OF inv] cl(1)])
  then have "length data \<le> TCP_WND - length (tc_buf cl)" using window cl(2) by (simp add: log_ok_def)
  then show ?thesis
    using step assms(3,4) cl by (auto simp: client_recv_func_def Let_def split: if_splits bind_splits prod.splits)
qed

text \<open>
  C16: The loop at the end of run() terminates: murdering the first client of the list until the list is empty releases every
  client, every SOCKS client and every connection.
\<close>

theorem murder_all_ends:
  assumes "tun_reachable s"
  shows "\<exists>s'. murder_all s = Some s' \<and> tun_num_clients s' = 0 \<and>
    tun_clients s' = (\<lambda>c. None) \<and> tun_socks s' = (\<lambda>c. None) \<and> tun_pcbs s' = (\<lambda>p. None)"
proof -
  obtain s' where s': "murder_all s = Some s'" "tun_inv None s'" "tun_num_clients s' = 0"
    using murder_all_done [OF reachable_inv [OF assms]] by (auto simp: wp_iff)
  then show ?thesis using tun_inv_zero [OF s'(2,3)] by auto
qed

section \<open>A concrete run\<close>

text \<open>The enabling conditions as programs, and a run in which data is passed in both directions.\<close>

lemma socks_enabled_code [code]:
  "socks_enabled c e s = (case tun_socks s c of None \<Rightarrow> False | Some sk \<Rightarrow>
     (case e of Socks_Error \<Rightarrow> True | Socks_Up \<Rightarrow> \<not> sk_up sk | Socks_Error_Closed \<Rightarrow> sk_up sk
      | Socks_Sent n \<Rightarrow> (case sk_sending sk of None \<Rightarrow> False | Some data \<Rightarrow> 0 < n \<and> n \<le> length data)
      | Socks_Received data \<Rightarrow> (case sk_receiving sk of None \<Rightarrow> False | Some avail \<Rightarrow> 0 < length data \<and> length data \<le> avail)))"
  by (cases e) (auto split: option.splits)

lemma tun_enabled_code [code]:
  "tun_enabled s (Tun_Accept aa es p l r) = (Option.is_none (tun_pcbs s p) \<and>
     (case aa_alloc aa of None \<Rightarrow> True | Some c \<Rightarrow> Option.is_none (tun_clients s c)) \<and> baddr_ip l \<and> baddr_ip r)"
  "tun_enabled s (Tun_Recv la es p data) = ((case tun_pcbs s p of None \<Rightarrow> False | Some pcb \<Rightarrow> pcb_recv pcb) \<and> data \<noteq> Some [])"
  "tun_enabled s (Tun_Sent la es p n) = (case tun_pcbs s p of None \<Rightarrow> False | Some pcb \<Rightarrow> pcb_sent pcb \<and>
     (case pcb_arg pcb of None \<Rightarrow> False | Some c \<Rightarrow> 0 < n \<and> lg_acked (tun_log s c) + n \<le> length (lg_written (tun_log s c))))"
  "tun_enabled s (Tun_Err la p) = (case tun_pcbs s p of None \<Rightarrow> False | Some pcb \<Rightarrow> pcb_errf pcb)"
  "tun_enabled s (Tun_Socks la c e) = socks_enabled c e s"
  "tun_enabled s (Tun_Murder c) = (\<not> Option.is_none (tun_clients s c))"
  by (auto simp: Option.is_none_def split: option.splits)

definition sample_junk :: tcp_client where
  "sample_junk = \<lparr>tc_dead_client = True, tc_local_addr = BADDR_NONE, tc_remote_addr = BADDR_NONE, tc_pcb = 0, tc_client_closed = True,
     tc_buf = [], tc_socks_username = None, tc_socks_up = True, tc_socks_closed = True, tc_socks_recv_buf = [], tc_socks_recv_buf_used = 5,
     tc_socks_recv_buf_sent = 9, tc_socks_recv_waiting = False, tc_socks_recv_tcp_pending = 3\<rparr>"

definition sample_tun :: tun where
  "sample_tun = \<lparr>opt_username = Some ''u'', opt_append_source = True, tun_auth_username = Username_option, tun_clients = (\<lambda>c. None),
     tun_tcp_clients = \<lparr>l1_first = None, l1_last = None, l1_p = (\<lambda>n. None), l1_n = (\<lambda>n. None)\<rparr>, tun_num_clients = 0,
     tun_pcbs = (\<lambda>p. None), tun_socks = (\<lambda>c. None), tun_dead = False, tun_log = (\<lambda>c. fresh_log)\<rparr>"

fun tun_run :: "tun_event list \<Rightarrow> tun \<Rightarrow> tun option" where
  "tun_run [] s = Some s"
| "tun_run (e # es) s = (if tun_enabled s e then case tun_step e s of None \<Rightarrow> None | Some (s', _) \<Rightarrow> tun_run es s' else None)"

lemma tun_run_reachable: "tun_reachable s \<Longrightarrow> tun_run es s = Some s' \<Longrightarrow> tun_reachable s'"
proof (induction es arbitrary: s)
  case (Cons e es)
  then obtain s1 r where "tun_enabled s e" "tun_step e s = Some (s1, r)" "tun_run es s1 = Some s'"
    by (auto split: if_splits option.splits)
  then show ?case using Cons(1) [of s1] tun_reachable.step [OF Cons(2)] by simp
qed simp

definition sample_accept :: "addr \<Rightarrow> addr \<Rightarrow> tun_event" where
  "sample_accept c p = Tun_Accept \<lparr>aa_alloc = Some c, aa_junk = sample_junk, aa_user_ok = True, aa_socks_ok = True\<rparr> [] p
     (BADDR_IPV4 1 2) (BADDR_IPV4 3 4)"

definition sample_la :: lwip_answers where
  "sample_la = \<lparr>la_close = ERR_OK, la_writes = [(2, ERR_OK)], la_output = ERR_OK\<rparr>"

definition sample_events :: "tun_event list" where
  "sample_events = [sample_accept 1 7, Tun_Recv sample_la [] 7 (Some [1, 2, 3]), Tun_Socks sample_la 1 Socks_Up,
     Tun_Socks sample_la 1 (Socks_Sent 2), Tun_Socks sample_la 1 (Socks_Received [4, 5, 6]), Tun_Sent sample_la [] 7 1]"

definition sample_state :: tun where
  "sample_state = the (tun_run sample_events (tun_start sample_tun))"

lemma sample_reachable: "tun_reachable sample_state"
proof -
  have "\<not> Option.is_none (tun_run sample_events (tun_start sample_tun))" by code_simp
  then show ?thesis
    using tun_run_reachable [OF tun_reachable.start, of sample_events sample_tun] by (auto simp: Option.is_none_def sample_state_def)
qed

lemma sample_client: "\<exists>cl. tun_clients sample_state 1 = Some cl \<and> tc_buf cl = [3] \<and> \<not> tc_client_closed cl"
proof -
  have "(case tun_clients sample_state 1 of None \<Rightarrow> False | Some cl \<Rightarrow> tc_buf cl = [3] \<and> \<not> tc_client_closed cl)" by code_simp
  then show ?thesis by (auto split: option.splits)
qed

theorem tcp_clients_never_fail_witness:
  "tun_reachable sample_state \<and> tun_enabled sample_state (Tun_Err sample_la 7) \<and> (\<exists>r. tun_step (Tun_Err sample_la 7) sample_state = Some r)"
proof -
  have en: "tun_enabled sample_state (Tun_Err sample_la 7)" by code_simp
  show ?thesis using en sample_reachable tcp_clients_never_fail [OF sample_reachable en] by blast
qed


theorem tcp_client_streams_witness:
  "\<exists>cl. tun_clients sample_state 1 = Some cl \<and> lg_given (tun_log sample_state 1) = lg_taken (tun_log sample_state 1) @ tc_buf cl \<and> tc_buf cl = [3]"
proof -
  obtain cl where cl: "tun_clients sample_state 1 = Some cl" "tc_buf cl = [3]" using sample_client by blast
  show ?thesis using cl tcp_client_streams [OF sample_reachable cl(1)] by blast
qed

theorem tcp_clients_not_forgotten_witness:
  "tun_reachable sample_state \<and> (\<exists>cs. l1_rep (tun_tcp_clients sample_state) cs \<and> 1 \<in> set cs)"
proof -
  obtain cl where cl: "tun_clients sample_state 1 = Some cl" using sample_client by blast
  show ?thesis using tcp_clients_not_forgotten [OF sample_reachable] cl sample_reachable by auto
qed

theorem recv_never_refuses_witness:
  "\<exists>s' err freed. tun_step (Tun_Recv sample_la [] 7 (Some [9, 9])) sample_state = Some (s', err, freed) \<and> err \<noteq> ERR_MEM"
proof -
  let ?e = "Tun_Recv sample_la [] 7 (Some [9, 9])"
  have en: "tun_enabled sample_state ?e" by code_simp
  have "map_option pcb_arg (tun_pcbs sample_state 7) = Some (Some 1)" by code_simp
  then obtain pcb where pcb: "tun_pcbs sample_state 7 = Some pcb" "pcb_arg pcb = Some 1" by auto
  have w: "length (lg_given (tun_log sample_state 1)) + length [9, 9 :: u8] \<le> lg_recved (tun_log sample_state 1) + TCP_WND" by code_simp
  have "\<not> Option.is_none (tun_step ?e sample_state)" by code_simp
  then obtain s' err freed where st: "tun_step ?e sample_state = Some (s', err, freed)" by (auto simp: Option.is_none_def)
  show ?thesis using st recv_never_refuses [OF sample_reachable en pcb w st] by blast
qed

theorem murder_all_ends_witness:
  "\<exists>s'. murder_all sample_state = Some s' \<and> tun_num_clients sample_state = 1 \<and> tun_num_clients s' = 0"
proof -
  have "tun_num_clients sample_state = 1" by code_simp
  then show ?thesis using murder_all_ends [OF sample_reachable] by blast
qed

text \<open>
  C31: With \<open>--append-source-to-username\<close> the global socks_auth_info keeps the user name of the client accepted last, not
  of the one it is used for.  There is a reachable state in which a live client is still connecting to the SOCKS server,
  and has yet to send its user name, while the pointer leads to the user name of another client that was already released.
\<close>

theorem username_dangles:
  "\<exists>s a b cl sk. tun_reachable s \<and> tun_clients s a = Some cl \<and> tc_socks_username cl \<noteq> None \<and> tun_socks s a = Some sk \<and> \<not> sk_up sk \<and>
     tun_auth_username s = Username_of b \<and> tun_clients s b = None"
proof -
  let ?run = "tun_run [sample_accept 1 7, sample_accept 2 8, Tun_Err sample_la 8] (tun_start sample_tun)"
  have "(case ?run of None \<Rightarrow> False | Some s \<Rightarrow> tun_auth_username s = Username_of 2 \<and> Option.is_none (tun_clients s 2) \<and>
      (case tun_clients s 1 of None \<Rightarrow> False | Some cl \<Rightarrow> tc_socks_username cl \<noteq> None) \<and>
      (case tun_socks s 1 of None \<Rightarrow> False | Some sk \<Rightarrow> \<not> sk_up sk))" by code_simp
  then obtain s cl sk where s: "?run = Some s" "tun_auth_username s = Username_of 2" "tun_clients s 2 = None"
      "tun_clients s 1 = Some cl" "tc_socks_username cl \<noteq> None" "tun_socks s 1 = Some sk" "\<not> sk_up sk"
    by (auto simp: Option.is_none_def split: option.splits)
  then show ?thesis using tun_run_reachable [OF tun_reachable.start s(1)] by blast
qed

end
