(* ===== verification/Spec2Isabelle.thy ===== *)
theory Spec2Isabelle
  imports Net_Proto Packet_Proto Flow_Monitors Socket_Addresses Tcp_Client_Run
begin

text \<open>
  Verification of the tun2socks engine of cordova-plugin-tun2socks (src/android/jni).
\<close>

end
